(* ===== verification/LB_Prelude.thy ===== *)
theory LB_Prelude
  imports Main "HOL-Library.Word" "HOL-Library.Monad_Syntax"
begin

text \<open>
  Shared vocabulary of the development: machine integers, time, addresses, the
  collections of rewrite rules, the association-list model of \<^verbatim>\<open>std::map\<close>, and
  generic list lemmas that several components use.
\<close>

unbundle bit_operations_syntax

named_theorems heap_simps \<open>reads and writes of entry fields in the object heap\<close>
named_theorems frame_simps \<open>fields an operation leaves alone\<close>
named_theorems smap_simps \<open>look-ups after updates of a key-sorted association list\<close>

type_synonym u16 = "16 word"
type_synonym u32 = "32 word"

text \<open>Objects are named by their allocation order; time points count nanoseconds.\<close>

type_synonym addr = nat
type_synonym time_point = int

text \<open>
  Error codes the program uses (\<^verbatim>\<open>ListError::Code\<close>, declared in the D-Bus interface
  package); \<^verbatim>\<open>ListError::failed()\<close> is being different from \<open>ERR_OK\<close>.
\<close>

datatype list_error = ERR_OK | ERR_INTERNAL | ERR_INTERRUPTED | ERR_INVALID_ID | ERR_PHYSICAL_MEDIA_IO
  | ERR_NET_IO | ERR_PROTOCOL | ERR_PERMISSION_DENIED | ERR_NOT_FOUND | ERR_NOT_SUPPORTED
  | ERR_INVALID_STRBO_URL | ERR_BUSY | ERR_BUSY_500 | ERR_BUSY_3000 | ERR_EMPTY

section \<open>Durations\<close>

text \<open>\<^verbatim>\<open>std::chrono::duration_cast\<close> between integral durations truncates towards zero.\<close>

definition tdiv :: "int \<Rightarrow> int \<Rightarrow> int" where
  "tdiv a b = sgn a * (\<bar>a\<bar> div b)"

lemma tdiv_nonneg [simp]: "0 \<le> a \<Longrightarrow> tdiv a b = a div b"
  by (cases "a = 0") (auto simp: tdiv_def)

lemma tdiv_mono: "0 \<le> a \<Longrightarrow> a \<le> a' \<Longrightarrow> 0 < b \<Longrightarrow> tdiv a b \<le> tdiv a' b"
  by (simp add: zdiv_mono1)

section \<open>\<^verbatim>\<open>std::map\<close>\<close>

text \<open>
  A \<^verbatim>\<open>std::map\<close> is an association list kept strictly sorted by its keys, which is
  also the order in which the program iterates over it. Inserting follows \<^verbatim>\<open>insert\<close>
  and \<^verbatim>\<open>emplace\<close>: an existing key keeps its value.
\<close>

type_synonym ('k, 'v) smap = "('k \<times> 'v) list"

definition smap_find :: "('k, 'v) smap \<Rightarrow> 'k \<Rightarrow> 'v option" where
  "smap_find m k = map_of m k"

fun smap_insert :: "'k::linorder \<Rightarrow> 'v \<Rightarrow> ('k, 'v) smap \<Rightarrow> ('k, 'v) smap" where
  "smap_insert k v [] = [(k, v)]"
| "smap_insert k v ((k', v') # m) =
     (if k < k' then (k, v) # (k', v') # m
      else if k = k' then (k', v') # m
      else (k', v') # smap_insert k v m)"

fun smap_erase :: "'k \<Rightarrow> ('k, 'v) smap \<Rightarrow> ('k, 'v) smap" where
  "smap_erase k [] = []"
| "smap_erase k ((k', v') # m) = (if k = k' then m else (k', v') # smap_erase k m)"

fun smap_update :: "'k \<Rightarrow> ('v \<Rightarrow> 'v) \<Rightarrow> ('k, 'v) smap \<Rightarrow> ('k, 'v) smap" where
  "smap_update k f [] = []"
| "smap_update k f ((k', v') # m) =
     (if k = k' then (k', f v') # m else (k', v') # smap_update k f m)"

abbreviation smap_size :: "('k, 'v) smap \<Rightarrow> nat" where
  "smap_size m \<equiv> length m"

definition smap_keys :: "('k, 'v) smap \<Rightarrow> 'k set" where
  "smap_keys m = fst ` set m"

definition smap_ok :: "('k::linorder, 'v) smap \<Rightarrow> bool" where
  "smap_ok m \<longleftrightarrow> sorted_wrt (<) (map fst m)"

lemma smap_keys_simps [simp]:
  "smap_keys [] = {}" "smap_keys (p # m) = insert (fst p) (smap_keys m)"
  by (simp_all add: smap_keys_def)

lemma finite_smap_keys [simp]: "finite (smap_keys m)"
  by (simp add: smap_keys_def)

lemma smap_ok_Nil [simp]: "smap_ok []"
  by (simp add: smap_ok_def)

lemma smap_ok_Cons [simp]:
  "smap_ok (p # m) \<longleftrightarrow> (\<forall>k \<in> smap_keys m. fst p < k) \<and> smap_ok m"
  by (auto simp: smap_ok_def smap_keys_def)

lemma smap_find_Nil [simp]: "smap_find [] k = None"
  by (simp add: smap_find_def)

lemma smap_find_Cons [simp]:
  "smap_find (p # m) k = (if fst p = k then Some (snd p) else smap_find m k)"
  by (cases p) (simp add: smap_find_def)

lemma smap_find_None_iff: "smap_find m k = None \<longleftrightarrow> k \<notin> smap_keys m"
  by (simp add: smap_find_def map_of_eq_None_iff smap_keys_def)

lemma smap_find_in_keys: "smap_find m k = Some v \<Longrightarrow> k \<in> smap_keys m"
  using smap_find_None_iff [of m k] by auto

lemma smap_find_SomeD: "smap_find m k = Some v \<Longrightarrow> (k, v) \<in> set m"
  by (simp add: smap_find_def map_of_SomeD)

lemma smap_ok_distinct: "smap_ok m \<Longrightarrow> distinct (map fst m)"
  by (induction m) (auto simp: smap_keys_def)

lemma smap_find_iff: "smap_ok m \<Longrightarrow> smap_find m k = Some v \<longleftrightarrow> (k, v) \<in> set m"
  by (simp add: smap_find_def smap_ok_distinct)

lemma card_smap_keys: "smap_ok m \<Longrightarrow> card (smap_keys m) = smap_size m"
  by (metis smap_keys_def smap_ok_distinct distinct_card length_map list.set_map)

lemma keys_smap_insert [simp]: "smap_keys (smap_insert k v m) = insert k (smap_keys m)"
  by (induction k v m rule: smap_insert.induct) auto

lemma smap_ok_insert [simp]: "smap_ok m \<Longrightarrow> smap_ok (smap_insert k v m)"
  by (induction k v m rule: smap_insert.induct) (auto intro: less_trans)

lemma smap_find_insert [smap_simps]:
  "smap_ok m \<Longrightarrow> smap_find (smap_insert k v m) k' =
     (if k' = k \<and> smap_find m k = None then Some v else smap_find m k')"
  by (induction k v m rule: smap_insert.induct)
    (auto simp: smap_find_None_iff dest!: smap_find_in_keys)

lemma keys_smap_erase [simp]: "smap_ok m \<Longrightarrow> smap_keys (smap_erase k m) = smap_keys m - {k}"
  by (induction k m rule: smap_erase.induct) auto

lemma smap_ok_erase [simp]: "smap_ok m \<Longrightarrow> smap_ok (smap_erase k m)"
  by (induction k m rule: smap_erase.induct) auto

lemma smap_find_erase [smap_simps]:
  "smap_ok m \<Longrightarrow> smap_find (smap_erase k m) k' = (if k' = k then None else smap_find m k')"
  by (induction k m rule: smap_erase.induct) (auto simp: smap_find_None_iff)

lemma keys_smap_update [simp]: "map fst (smap_update k f m) = map fst m"
  by (induction k f m rule: smap_update.induct) auto

lemma smap_ok_update [simp]: "smap_ok (smap_update k f m) = smap_ok m"
  by (simp add: smap_ok_def)

lemma smap_find_update [smap_simps]:
  "smap_find (smap_update k f m) k' =
     (if k' = k then map_option f (smap_find m k) else smap_find m k')"
  by (induction k f m rule: smap_update.induct) auto

lemma smap_size_insert:
  "smap_ok m \<Longrightarrow> smap_size (smap_insert k v m) =
     (if smap_find m k = None then Suc (smap_size m) else smap_size m)"
  by (induction k v m rule: smap_insert.induct)
    (auto simp: smap_find_None_iff dest!: smap_find_in_keys)

lemma smap_size_pos: "smap_find m k = Some v \<Longrightarrow> 0 < smap_size m"
  by (cases m) auto

lemma smap_size_erase:
  "smap_size (smap_erase k m) = (if smap_find m k = None then smap_size m else smap_size m - 1)"
  by (induction k m rule: smap_erase.induct) (auto dest: smap_size_pos)

text \<open>
  The interface the clients of \<^verbatim>\<open>std::map\<close> rely on, and that the sorted association
  list provides it.
\<close>

locale std_map =
  fixes find :: "'m \<Rightarrow> 'k \<Rightarrow> 'v option"
    and emplace :: "'k \<Rightarrow> 'v \<Rightarrow> 'm \<Rightarrow> 'm"
    and erase :: "'k \<Rightarrow> 'm \<Rightarrow> 'm"
    and msize :: "'m \<Rightarrow> nat"
    and ok :: "'m \<Rightarrow> bool"
  assumes find_emplace:
      "ok m \<Longrightarrow> find (emplace k v m) k' =
         (if k' = k \<and> find m k = None then Some v else find m k')"
    and find_erase: "ok m \<Longrightarrow> find (erase k m) k' = (if k' = k then None else find m k')"
    and size_emplace:
      "ok m \<Longrightarrow> msize (emplace k v m) = (if find m k = None then Suc (msize m) else msize m)"
    and size_erase:
      "ok m \<Longrightarrow> msize (erase k m) = (if find m k = None then msize m else msize m - 1)"
    and ok_emplace: "ok m \<Longrightarrow> ok (emplace k v m)"
    and ok_erase: "ok m \<Longrightarrow> ok (erase k m)"
begin

text \<open>Re-keying a value (erase under the old key, emplace under a fresh one) is what
  \<^verbatim>\<open>insert_again\<close> and the override tables do.\<close>

lemma find_rekey:
  assumes "ok m" and "find m new = None"
  shows "find (emplace new v (erase old m)) k =
    (if k = new then Some v else if k = old then None else find m k)"
  using assms by (auto simp: find_emplace find_erase ok_erase)

lemma size_rekey:
  assumes "ok m" and "find m new = None" and "find m old \<noteq> None" and "0 < msize m"
  shows "msize (emplace new v (erase old m)) = msize m"
  using assms by (auto simp: size_emplace size_erase find_erase ok_erase)

end

interpretation smap: std_map smap_find smap_insert smap_erase length smap_ok
  by unfold_locales (simp_all add: smap_simps smap_size_insert smap_size_erase)

section \<open>Lists\<close>

definition hd_opt :: "'a list \<Rightarrow> 'a option" where
  "hd_opt xs = (case xs of [] \<Rightarrow> None | x # _ \<Rightarrow> Some x)"

definition last_opt :: "'a list \<Rightarrow> 'a option" where
  "last_opt xs = hd_opt (rev xs)"

lemma hd_opt_simps [simp]:
  "hd_opt [] = None" "hd_opt (x # xs) = Some x"
  by (simp_all add: hd_opt_def)

lemma last_opt_simps [simp]:
  "last_opt [] = None" "last_opt [x] = Some x" "last_opt (xs @ [x]) = Some x"
  by (simp_all add: last_opt_def)

lemma hd_opt_append: "hd_opt (xs @ ys) = (if xs = [] then hd_opt ys else hd_opt xs)"
  by (cases xs) auto

lemma last_opt_append: "last_opt (xs @ ys) = (if ys = [] then last_opt xs else last_opt ys)"
  by (simp add: last_opt_def hd_opt_append)

lemma hd_opt_None_iff [simp]: "hd_opt xs = None \<longleftrightarrow> xs = []"
  by (cases xs) auto

lemma last_opt_None_iff [simp]: "last_opt xs = None \<longleftrightarrow> xs = []"
  by (simp add: last_opt_def)

lemma last_opt_Some: "last_opt xs = Some x \<Longrightarrow> \<exists>ys. xs = ys @ [x]"
  by (cases xs rule: rev_cases) auto

lemma last_opt_mem: "last_opt xs = Some x \<Longrightarrow> x \<in> set xs"
  by (cases xs rule: rev_cases) auto

lemma hd_opt_mem: "hd_opt xs = Some x \<Longrightarrow> x \<in> set xs"
  by (cases xs) auto

lemma hd_opt_Some: "hd_opt xs = Some x \<Longrightarrow> \<exists>ys. xs = x # ys"
  by (cases xs) auto

lemma filter_snocD:
  assumes "filter P xs = fs @ [t]" shows "\<exists>as bs. xs = as @ t # bs \<and> filter P bs = []"
proof -
  have "filter P (rev xs) = t # rev fs" using assms by (simp flip: rev_filter)
  then obtain us vs where "rev xs = us @ t # vs" "\<forall>u \<in> set us. \<not> P u"
    by (auto simp: filter_eq_Cons_iff)
  then have "xs = rev vs @ t # rev us" "filter P (rev us) = []"
    by (simp_all add: rev_swap filter_empty_conv)
  then show ?thesis by blast
qed

end
