(* ===== verification/Id_Types.thy ===== *)
theory Id_Types
  imports LB_Prelude
begin

text \<open>
  List identifiers (\<^verbatim>\<open>src/common/idtypes.hh\<close>) and the generator that hands them out
  (\<^verbatim>\<open>LRU::CacheIdGenerator\<close> in \<^verbatim>\<open>lru.hh\<close> and \<^verbatim>\<open>lru.cc\<close>). A list ID is a 32-bit
  word that carries a context number in its top bits, a no-cache flag below it and the
  value proper in the rest. The constants that place the context come from a header of
  the D-Bus interface package, so they are a parameter, a \<open>ctx_layout\<close>.
\<close>

section \<open>Bit layout of list IDs\<close>

type_synonym list_id = u32
type_synonym context_t = "8 word"

record ctx_layout =
  context_id_mask :: u32
  context_id_shift :: nat
  context_id_max :: context_t
  context_get :: "u32 \<Rightarrow> context_t"

definition ctx_layout_ok :: "ctx_layout \<Rightarrow> bool" where
  "ctx_layout_ok L \<longleftrightarrow>
     24 \<le> context_id_shift L \<and> context_id_shift L < 32 \<and>
     context_id_mask L = push_bit (context_id_shift L) (- 1) \<and>
     unat (context_id_max L) < 2 ^ (32 - context_id_shift L) \<and>
     context_get L = (\<lambda>i. ucast (drop_bit (context_id_shift L) (i AND context_id_mask L)))"

definition NOCACHE_BIT :: "ctx_layout \<Rightarrow> u32" where
  "NOCACHE_BIT L = drop_bit 1 (context_id_mask L) AND NOT (context_id_mask L)"

definition VALUE_MASK :: "ctx_layout \<Rightarrow> u32" where
  "VALUE_MASK L = NOT (context_id_mask L OR NOCACHE_BIT L)"

definition ListIDTraits_is_valid :: "u32 \<Rightarrow> bool" where
  "ListIDTraits_is_valid i \<longleftrightarrow> i > 0"

definition id_is_valid :: "ctx_layout \<Rightarrow> list_id \<Rightarrow> bool" where
  "id_is_valid L i \<longleftrightarrow> ListIDTraits_is_valid (i AND VALUE_MASK L)"

definition get_cooked_id :: "ctx_layout \<Rightarrow> list_id \<Rightarrow> u32" where
  "get_cooked_id L i = i AND VALUE_MASK L"

definition get_context :: "ctx_layout \<Rightarrow> list_id \<Rightarrow> context_t" where
  "get_context L i = context_get L i"

definition get_nocache_bit :: "ctx_layout \<Rightarrow> list_id \<Rightarrow> bool" where
  "get_nocache_bit L i \<longleftrightarrow> i AND NOCACHE_BIT L \<noteq> 0"

abbreviation invalid_id :: list_id where
  "invalid_id \<equiv> 0"

section \<open>Cache modes and the ID generator\<close>

datatype cache_mode = CACHED | UNCACHED

datatype cache_mode_request = REQ_CACHED | REQ_UNCACHED | REQ_AUTO

definition to_cache_mode :: "cache_mode_request \<Rightarrow> cache_mode" where
  "to_cache_mode req =
     (case req of REQ_AUTO \<Rightarrow> CACHED | REQ_CACHED \<Rightarrow> CACHED | REQ_UNCACHED \<Rightarrow> UNCACHED)"

record id_generator =
  base_id_min :: u32
  base_id_max :: u32
  next_id :: "context_t \<Rightarrow> u32"

definition mk_id_generator :: "u32 \<Rightarrow> u32 \<Rightarrow> id_generator" where
  "mk_id_generator lo hi = \<lparr>base_id_min = lo, base_id_max = hi, next_id = (\<lambda>_. lo)\<rparr>"

definition get_cache_mode :: "ctx_layout \<Rightarrow> list_id \<Rightarrow> cache_mode" where
  "get_cache_mode L i = (if get_nocache_bit L i then UNCACHED else CACHED)"

definition make_list_id :: "ctx_layout \<Rightarrow> u32 \<Rightarrow> cache_mode \<Rightarrow> context_t \<Rightarrow> list_id" where
  "make_list_id L raw_id mode ctx =
     raw_id OR push_bit (context_id_shift L) (ucast ctx) OR
     (if mode = UNCACHED then NOCACHE_BIT L else 0)"

text \<open>
  The search loop of \<^verbatim>\<open>next\<close>: \<open>start\<close> is where it began, \<open>n\<close> the counter of the
  context. \<open>None\<close> would be a loop that never ends; the result carries the ID (the
  invalid one when all are taken) and the new counter.
\<close>

partial_function (option) next_loop ::
  "ctx_layout \<Rightarrow> u32 \<Rightarrow> u32 \<Rightarrow> (list_id \<Rightarrow> bool) \<Rightarrow> cache_mode \<Rightarrow> context_t \<Rightarrow> u32 \<Rightarrow> u32 \<Rightarrow>
   (list_id \<times> u32) option" where
  "next_loop L lo hi is_free mode ctx start n =
     (let candidate = make_list_id L n mode ctx;
          n' = (if n < hi then n + 1 else lo)
      in if is_free candidate then Some (candidate, n')
         else if n' = start then Some (invalid_id, n')
         else next_loop L lo hi is_free mode ctx start n')"

definition generator_next ::
  "ctx_layout \<Rightarrow> (list_id \<Rightarrow> bool) \<Rightarrow> id_generator \<Rightarrow> cache_mode \<Rightarrow> context_t \<Rightarrow>
   (list_id \<times> id_generator) option" where
  "generator_next L is_free g mode ctx =
     (case next_loop L (base_id_min g) (base_id_max g) is_free mode ctx
             (next_id g ctx) (next_id g ctx) of
        None \<Rightarrow> None
      | Some (i, n) \<Rightarrow> Some (i, g\<lparr>next_id := (next_id g)(ctx := n)\<rparr>))"

section \<open>The layout is a partition of the word\<close>

lemma layout_shift:
  assumes "ctx_layout_ok L"
  shows "24 \<le> context_id_shift L" and "context_id_shift L < 32"
  using assms by (auto simp: ctx_layout_ok_def)

lemma layout_mask: "ctx_layout_ok L \<Longrightarrow> context_id_mask L = NOT (mask (context_id_shift L))"
  by (simp add: ctx_layout_ok_def)

lemma bit_mask: "ctx_layout_ok L \<Longrightarrow> bit (context_id_mask L) n \<longleftrightarrow> context_id_shift L \<le> n \<and> n < 32"
  by (auto simp: layout_mask bit_not_iff bit_mask_iff)

lemma bit_NOCACHE_BIT: "ctx_layout_ok L \<Longrightarrow> bit (NOCACHE_BIT L) n \<longleftrightarrow> n = context_id_shift L - 1"
  using layout_shift [of L]
  by (auto simp: NOCACHE_BIT_def bit_and_iff bit_not_iff bit_drop_bit_eq bit_mask)

lemma bit_VALUE_MASK: "ctx_layout_ok L \<Longrightarrow> bit (VALUE_MASK L) n \<longleftrightarrow> n < context_id_shift L - 1"
  using layout_shift [of L] unfolding VALUE_MASK_def
  by (auto simp only: bit_not_iff bit_or_iff bit_mask bit_NOCACHE_BIT) auto

lemma VALUE_MASK_eq: "ctx_layout_ok L \<Longrightarrow> VALUE_MASK L = mask (context_id_shift L - 1)"
  using layout_shift [of L] by (intro bit_word_eqI) (auto simp: bit_VALUE_MASK bit_mask_iff)

lemma NOCACHE_BIT_eq: "ctx_layout_ok L \<Longrightarrow> NOCACHE_BIT L = 2 ^ (context_id_shift L - 1)"
  using layout_shift [of L] by (intro bit_word_eqI) (auto simp: bit_NOCACHE_BIT bit_exp_iff)

lemma unat_VALUE_MASK:
  assumes "ctx_layout_ok L"
  shows "unat (VALUE_MASK L) = 2 ^ (context_id_shift L - 1) - 1"
proof -
  have "unat (mask (context_id_shift L - 1) :: u32) = mask (context_id_shift L - 1)"
    using layout_shift [OF assms] by (intro bit_eqI) (auto simp: bit_unsigned_iff bit_mask_iff)
  then show ?thesis by (simp add: VALUE_MASK_eq [OF assms] mask_eq_exp_minus_1)
qed

lemma le_VALUE_MASK_iff:
  assumes "ctx_layout_ok L"
  shows "x \<le> VALUE_MASK L \<longleftrightarrow> x AND VALUE_MASK L = x"
proof
  assume "x \<le> VALUE_MASK L"
  then have "unat x \<le> 2 ^ (context_id_shift L - 1) - 1"
    by (simp only: word_le_nat_alt unat_VALUE_MASK assms)
  moreover have "(0::nat) < 2 ^ (context_id_shift L - 1)" by simp
  ultimately have "unat x < 2 ^ (context_id_shift L - 1)" by linarith
  then have "take_bit (context_id_shift L - 1) x = x"
    by (simp add: word_unat_eq_iff unsigned_take_bit_eq take_bit_nat_eq_self)
  then show "x AND VALUE_MASK L = x"
    by (simp add: VALUE_MASK_eq [OF assms] take_bit_eq_mask)
next
  assume "x AND VALUE_MASK L = x"
  then show "x \<le> VALUE_MASK L" by (metis word_and_le1)
qed

lemma bit_raw_small:
  assumes "ctx_layout_ok L" and "x \<le> VALUE_MASK L" and "bit x n"
  shows "n < context_id_shift L - 1"
  using assms le_VALUE_MASK_iff [of L x] by (metis bit_VALUE_MASK bit_and_iff)

lemma bit_ctx_small:
  assumes "ctx_layout_ok L" and "ctx \<le> context_id_max L" and "bit ctx n"
  shows "n < 32 - context_id_shift L"
proof -
  have "unat ctx < 2 ^ (32 - context_id_shift L)"
    using assms(1,2) by (auto simp: ctx_layout_ok_def word_le_nat_alt)
  then have "take_bit (32 - context_id_shift L) (unat ctx) = unat ctx"
    by (simp add: take_bit_nat_eq_self)
  moreover have "bit (unat ctx) n" using assms(3) by (simp add: bit_unsigned_iff)
  ultimately show ?thesis by (metis bit_take_bit_iff)
qed

lemma make_list_id_bit:
  assumes "ctx_layout_ok L"
  shows "bit (make_list_id L raw m ctx) n \<longleftrightarrow> n < 32 \<and> (bit raw n \<or>
    (context_id_shift L \<le> n \<and> bit ctx (n - context_id_shift L)) \<or>
    (m = UNCACHED \<and> n = context_id_shift L - 1))"
  using layout_shift [OF assms]
  by (auto simp: make_list_id_def bit_or_iff bit_push_bit_iff bit_NOCACHE_BIT [OF assms]
      bit_unsigned_iff dest: bit_imp_le_length)

lemma make_list_id_cooked:
  assumes "ctx_layout_ok L" and "raw \<le> VALUE_MASK L"
  shows "get_cooked_id L (make_list_id L raw m ctx) = raw"
  using layout_shift [OF assms(1)]
  by (intro bit_word_eqI)
    (auto simp: get_cooked_id_def bit_and_iff make_list_id_bit [OF assms(1)]
      bit_VALUE_MASK [OF assms(1)] dest: bit_raw_small [OF assms])

lemma make_list_id_nocache:
  assumes "ctx_layout_ok L" and "raw \<le> VALUE_MASK L"
  shows "get_nocache_bit L (make_list_id L raw m ctx) \<longleftrightarrow> m = UNCACHED"
proof -
  let ?i = "make_list_id L raw m ctx"
  have "get_nocache_bit L ?i \<longleftrightarrow> bit ?i (context_id_shift L - 1)"
    by (simp add: get_nocache_bit_def NOCACHE_BIT_eq [OF assms(1)] and_exp_eq_0_iff_not_bit)
  then show ?thesis
    using layout_shift [OF assms(1)] bit_raw_small [OF assms]
    by (auto simp: make_list_id_bit [OF assms(1)])
qed

lemma make_list_id_context:
  assumes "ctx_layout_ok L" and "raw \<le> VALUE_MASK L" and "ctx \<le> context_id_max L"
  shows "get_context L (make_list_id L raw m ctx) = ctx"
proof (rule bit_word_eqI)
  fix n assume n: "n < LENGTH(8)"
  have s: "24 \<le> context_id_shift L" "context_id_shift L < 32"
    using layout_shift [OF assms(1)] by auto
  have g: "context_get L i = ucast (drop_bit (context_id_shift L) (i AND context_id_mask L))" for i
    using assms(1) by (simp only: ctx_layout_ok_def)
  show "bit (get_context L (make_list_id L raw m ctx)) n \<longleftrightarrow> bit ctx n"
    using n s bit_raw_small [OF assms(1,2)] bit_ctx_small [OF assms(1,3)]
    by (fastforce simp: get_context_def g bit_unsigned_iff bit_drop_bit_eq bit_and_iff
        bit_mask [OF assms(1)] make_list_id_bit [OF assms(1)])
qed

section \<open>The generator\<close>

definition generator_ok :: "ctx_layout \<Rightarrow> id_generator \<Rightarrow> bool" where
  "generator_ok L g \<longleftrightarrow> 0 < base_id_min g \<and> base_id_min g \<le> base_id_max g \<and>
     base_id_max g \<le> VALUE_MASK L \<and>
     (\<forall>ctx. base_id_min g \<le> next_id g ctx \<and> next_id g ctx \<le> base_id_max g)"

text \<open>The counter values the loop visits when it stands at \<open>n\<close> and began at \<open>s\<close>.\<close>

definition cycle_from :: "nat \<Rightarrow> nat \<Rightarrow> nat \<Rightarrow> nat \<Rightarrow> nat list" where
  "cycle_from lo hi s n = (if n < s then [n..<s] else [n..<Suc hi] @ [lo..<s])"

lemma cycle_from_unfold:
  assumes "lo \<le> s" and "s \<le> hi" and "lo \<le> n" and "n \<le> hi"
  defines "n' \<equiv> (if n < hi then Suc n else lo)"
  shows "cycle_from lo hi s n = n # (if n' = s then [] else cycle_from lo hi s n')"
  using assms by (auto simp: cycle_from_def upt_conv_Cons)

lemma set_cycle_from: "lo \<le> s \<Longrightarrow> s \<le> hi \<Longrightarrow> set (cycle_from lo hi s s) = {lo..hi}"
  by (auto simp: cycle_from_def)

definition next_spec ::
  "ctx_layout \<Rightarrow> u32 \<Rightarrow> u32 \<Rightarrow> (list_id \<Rightarrow> bool) \<Rightarrow> cache_mode \<Rightarrow> context_t \<Rightarrow> u32 \<Rightarrow> u32 \<Rightarrow> list_id \<times> u32"
  where
  "next_spec L lo hi is_free mode ctx s n =
     (case find (\<lambda>k. is_free (make_list_id L (of_nat k) mode ctx))
             (cycle_from (unat lo) (unat hi) (unat s) (unat n)) of
        None \<Rightarrow> (invalid_id, s)
      | Some k \<Rightarrow> (make_list_id L (of_nat k) mode ctx,
                   if k < unat hi then of_nat (Suc k) else lo))"

lemma unat_advance:
  fixes n hi :: u32
  assumes "n \<le> hi"
  shows "unat (if n < hi then n + 1 else lo) = (if unat n < unat hi then Suc (unat n) else unat lo)"
proof -
  have "unat (n + 1) = Suc (unat n)" if "n < hi"
    using that unsigned_less [of hi, where ?'a = nat]
    by (simp add: unat_word_ariths(1) word_less_nat_alt)
  then show ?thesis by (auto simp: word_less_nat_alt)
qed

lemma next_loop_spec:
  assumes "lo \<le> s" and "s \<le> hi" and "lo \<le> n" and "n \<le> hi"
  shows "next_loop L lo hi is_free mode ctx s n = Some (next_spec L lo hi is_free mode ctx s n)"
  using assms(3,4)
proof (induction "length (cycle_from (unat lo) (unat hi) (unat s) (unat n))" arbitrary: n
    rule: less_induct)
  case less
  let ?n' = "if n < hi then n + 1 else lo"
  let ?C = "cycle_from (unat lo) (unat hi) (unat s)"
  have u: "unat ?n' = (if unat n < unat hi then Suc (unat n) else unat lo)"
    using less.prems by (simp add: unat_advance)
  have C: "?C (unat n) = unat n # (if ?n' = s then [] else ?C (unat ?n'))"
    unfolding word_unat_eq_iff [of ?n' s] u
    using assms(1,2) less.prems by (intro cycle_from_unfold) (simp_all add: word_le_nat_alt)
  have in_range: "lo \<le> ?n'" "?n' \<le> hi"
    using less.prems assms(1,2) u by (auto simp: word_le_nat_alt word_less_nat_alt split: if_splits)
  have IH: "next_loop L lo hi is_free mode ctx s ?n' = Some (next_spec L lo hi is_free mode ctx s ?n')"
    if "?n' \<noteq> s" using less.hyps [OF _ in_range] C that by simp
  have nn: "(if unat n < unat hi then of_nat (Suc (unat n)) else lo) = ?n'"
    by (simp add: word_less_nat_alt)
  show ?case
    by (subst next_loop.simps)
      (use IH nn in \<open>auto simp: next_spec_def C Let_def\<close>)
qed

lemma unat_of_nat_le: "k \<le> unat (hi :: u32) \<Longrightarrow> unat (of_nat k :: u32) = k"
  using unsigned_less [of hi, where ?'a = nat] by (simp add: unat_of_nat)

lemma generator_okD:
  assumes "generator_ok L g"
  shows "0 < base_id_min g" and "base_id_min g \<le> base_id_max g" and "base_id_max g \<le> VALUE_MASK L"
    and "base_id_min g \<le> next_id g ctx" and "next_id g ctx \<le> base_id_max g"
  using assms by (auto simp: generator_ok_def)

lemma generator_ok_initial:
  "0 < lo \<Longrightarrow> lo \<le> hi \<Longrightarrow> hi \<le> VALUE_MASK L \<Longrightarrow> generator_ok L (mk_id_generator lo hi)"
  by (simp add: generator_ok_def mk_id_generator_def)

definition some_free :: "ctx_layout \<Rightarrow> (list_id \<Rightarrow> bool) \<Rightarrow> id_generator \<Rightarrow> cache_mode \<Rightarrow> context_t \<Rightarrow> bool"
  where
  "some_free L is_free g mode ctx \<longleftrightarrow>
     (\<exists>r. base_id_min g \<le> r \<and> r \<le> base_id_max g \<and> is_free (make_list_id L r mode ctx))"

lemma generator_next_cases:
  assumes g: "generator_ok L g"
  obtains (free) r g' where "generator_next L is_free g mode ctx = Some (make_list_id L r mode ctx, g')"
      and "is_free (make_list_id L r mode ctx)" and "base_id_min g \<le> r" and "r \<le> base_id_max g"
      and "generator_ok L g'" and "base_id_min g' = base_id_min g" and "base_id_max g' = base_id_max g"
  | (full) "generator_next L is_free g mode ctx = Some (invalid_id, g)" and "\<not> some_free L is_free g mode ctx"
proof -
  let ?lo = "base_id_min g" and ?hi = "base_id_max g" and ?n = "next_id g ctx"
  let ?C = "cycle_from (unat ?lo) (unat ?hi) (unat ?n) (unat ?n)"
  let ?P = "\<lambda>k. is_free (make_list_id L (of_nat k) mode ctx)"
  note D = generator_okD [OF g]
  have setC: "set ?C = {unat ?lo..unat ?hi}"
    using D(4,5) by (simp add: set_cycle_from word_le_nat_alt)
  have eq: "generator_next L is_free g mode ctx =
      (case next_spec L ?lo ?hi is_free mode ctx ?n ?n of
         (i, n) \<Rightarrow> Some (i, g\<lparr>next_id := (next_id g)(ctx := n)\<rparr>))"
    using D(4,5) by (simp add: generator_next_def next_loop_spec split: prod.splits)
  show ?thesis
  proof (cases "find ?P ?C")
    case None
    have none: "\<not> some_free L is_free g mode ctx"
    proof
      assume "some_free L is_free g mode ctx"
      then obtain r where r: "?lo \<le> r" "r \<le> ?hi" "is_free (make_list_id L r mode ctx)"
        by (auto simp: some_free_def)
      then have "unat r \<in> set ?C" and "?P (unat r)"
        by (simp_all only: setC) (simp_all add: word_le_nat_alt)
      with None show False by (auto simp: find_None_iff)
    qed
    have "(next_id g)(ctx := next_id g ctx) = next_id g" by simp
    then have "generator_next L is_free g mode ctx = Some (invalid_id, g)"
      using None by (simp add: eq next_spec_def)
    with none full show ?thesis by blast
  next
    case (Some k)
    let ?n' = "if k < unat ?hi then of_nat (Suc k) else ?lo"
    have k: "unat ?lo \<le> k" "k \<le> unat ?hi" "?P k"
      using Some setC by (auto simp: find_Some_iff dest: nth_mem)
    note small = unat_of_nat_le [of _ ?hi]
    have n': "?lo \<le> ?n'" "?n' \<le> ?hi"
      using k D(2) small [of "Suc k"]
      by (auto simp: word_le_nat_alt simp del: of_nat_Suc)
    show ?thesis
      by (rule free [of "of_nat k" "g\<lparr>next_id := (next_id g)(ctx := ?n')\<rparr>"])
        (use Some k small [of k] n' g in
          \<open>auto simp: eq next_spec_def word_le_nat_alt generator_ok_def simp del: of_nat_Suc\<close>)
  qed
qed

lemma make_list_id_inj:
  assumes "ctx_layout_ok L"
  shows "inj_on (\<lambda>r. make_list_id L r mode ctx) {r. r \<le> VALUE_MASK L}"
  by (rule inj_on_inverseI [of _ "get_cooked_id L"]) (simp add: make_list_id_cooked assms)

text \<open>By counting: as long as fewer IDs are in use than the counter range has values,
  some candidate is free.\<close>

lemma card_word_range: "card {r :: u32. lo \<le> r \<and> r \<le> hi} = Suc (unat hi) - unat lo"
proof -
  have "unat ` {r :: u32. lo \<le> r \<and> r \<le> hi} = {unat lo..unat hi}"
  proof (intro equalityI subsetI)
    fix k assume k: "k \<in> {unat lo..unat hi}"
    then have "unat (of_nat k :: u32) = k" by (simp add: unat_of_nat_le [of _ hi])
    with k show "k \<in> unat ` {r :: u32. lo \<le> r \<and> r \<le> hi}"
      by (intro image_eqI [of _ _ "of_nat k"]) (auto simp: word_le_nat_alt)
  qed (auto simp: word_le_nat_alt)
  moreover have "inj_on unat {r :: u32. lo \<le> r \<and> r \<le> hi}" 
    by (rule inj_onI) (simp only: word_unat_eq_iff)
  ultimately show ?thesis by (metis card_image card_atLeastAtMost)
qed

lemma some_free_by_counting:
  assumes L: "ctx_layout_ok L" and g: "generator_ok L g"
    and "finite K" and few: "card K < Suc (unat (base_id_max g)) - unat (base_id_min g)"
  shows "some_free L (\<lambda>i. i \<notin> K) g mode ctx"
proof (rule ccontr)
  let ?R = "{r. base_id_min g \<le> r \<and> r \<le> base_id_max g}"
  let ?f = "\<lambda>r. make_list_id L r mode ctx"
  assume "\<not> some_free L (\<lambda>i. i \<notin> K) g mode ctx"
  then have "?f ` ?R \<subseteq> K" by (auto simp: some_free_def)
  moreover have "inj_on ?f ?R"
    using generator_okD(3) [OF g] by (intro inj_on_subset [OF make_list_id_inj [OF L]]) auto
  ultimately have "card ?R \<le> card K" using \<open>finite K\<close> by (intro card_inj_on_le)
  with few show False by (simp only: card_word_range)
qed

lemma make_list_id_valid:
  assumes "ctx_layout_ok L" and "0 < r" and "r \<le> VALUE_MASK L"
  shows "id_is_valid L (make_list_id L r mode ctx)"
  using assms make_list_id_cooked [of L r mode ctx]
  by (simp add: id_is_valid_def ListIDTraits_is_valid_def get_cooked_id_def)

lemma invalid_id_not_valid [simp]: "\<not> id_is_valid L invalid_id"
  by (simp add: id_is_valid_def ListIDTraits_is_valid_def)

end
