(* ===== verification/Lru_Entry.thy ===== *)
theory Lru_Entry
  imports Id_Types
begin

text \<open>
  Cached objects and the aging list (\<^verbatim>\<open>LRU::CacheMetaData\<close>, \<^verbatim>\<open>LRU::AgingListEntry\<close>
  and \<^verbatim>\<open>LRU::Entry\<close> in \<^verbatim>\<open>src/common/lru.hh\<close> and \<^verbatim>\<open>lru.cc\<close>). Objects live in a
  heap indexed by their allocation number; the aging list is the doubly linked list that
  runs through their \<open>younger\<close> and \<open>older\<close> pointers. The predicate \<open>dll\<close> says
  which list of objects a heap represents, and every pointer operation is shown to do to
  that list what the code means it to do.
\<close>

section \<open>Objects and the heap\<close>

record entry =
  parent :: "addr option"
  children_count :: nat
  cache_id :: list_id
  object_size :: nat
  pinned :: bool
  last_used :: time_point
  younger :: "addr option"
  older :: "addr option"

type_synonym heap = "addr \<Rightarrow> entry"

definition mk_entry :: "addr option \<Rightarrow> time_point \<Rightarrow> entry" where
  "mk_entry p now = \<lparr>parent = p, children_count = 0, cache_id = invalid_id, object_size = 0,
     pinned = False, last_used = now, younger = None, older = None\<rparr>"

definition set_younger :: "addr \<Rightarrow> addr option \<Rightarrow> heap \<Rightarrow> heap" where
  "set_younger a v h = h(a := (h a)\<lparr>younger := v\<rparr>)"

definition set_older :: "addr \<Rightarrow> addr option \<Rightarrow> heap \<Rightarrow> heap" where
  "set_older a v h = h(a := (h a)\<lparr>older := v\<rparr>)"

definition set_last_use :: "addr \<Rightarrow> time_point \<Rightarrow> heap \<Rightarrow> heap" where
  "set_last_use a tp h = h(a := (h a)\<lparr>last_used := tp\<rparr>)"

definition set_id :: "addr \<Rightarrow> list_id \<Rightarrow> heap \<Rightarrow> heap" where
  "set_id a i h = h(a := (h a)\<lparr>cache_id := i\<rparr>)"

definition set_size :: "addr \<Rightarrow> nat \<Rightarrow> heap \<Rightarrow> heap" where
  "set_size a n h = h(a := (h a)\<lparr>object_size := n\<rparr>)"

definition set_pin_mode :: "addr \<Rightarrow> bool \<Rightarrow> heap \<Rightarrow> heap" where
  "set_pin_mode a b h = h(a := (h a)\<lparr>pinned := b\<rparr>)"

definition add_child :: "addr \<Rightarrow> heap \<Rightarrow> heap" where
  "add_child a h = h(a := (h a)\<lparr>children_count := children_count (h a) + 1\<rparr>)"

definition del_child :: "addr \<Rightarrow> heap \<Rightarrow> heap" where
  "del_child a h = h(a := (h a)\<lparr>children_count := children_count (h a) - 1\<rparr>)"

definition is_leaf :: "entry \<Rightarrow> bool" where
  "is_leaf e \<longleftrightarrow> children_count e = 0"

text \<open>Age in milliseconds at time \<open>now\<close>.\<close>

definition get_age :: "time_point \<Rightarrow> entry \<Rightarrow> int" where
  "get_age now e = tdiv (now - last_used e) 1000000"

definition equal_age :: "entry \<Rightarrow> entry \<Rightarrow> bool" where
  "equal_age a b \<longleftrightarrow> last_used a = last_used b"

lemmas setter_defs [heap_simps] = set_younger_def set_older_def set_last_use_def set_id_def
  set_size_def set_pin_mode_def add_child_def del_child_def

section \<open>The way up to the root\<close>

text \<open>
  Every loop \<^verbatim>\<open>for(e = entry; e != nullptr; e = e->get_parent().get())\<close> visits this
  list. The parent link is \<^verbatim>\<open>const\<close> and set from an existing object, so it points to
  an older allocation; the guard only makes the recursion total on other heaps.
\<close>

function chain :: "heap \<Rightarrow> addr \<Rightarrow> addr list" where
  "chain h e = e # (case parent (h e) of None \<Rightarrow> [] | Some p \<Rightarrow> if p < e then chain h p else [])"
  by pat_completeness auto
termination
  by (relation "measure snd") auto

declare chain.simps [simp del]

definition depth :: "heap \<Rightarrow> addr \<Rightarrow> nat" where
  "depth h e = length (chain h e)"

definition parents_older :: "heap \<Rightarrow> bool" where
  "parents_older h \<longleftrightarrow> (\<forall>e p. parent (h e) = Some p \<longrightarrow> p < e)"

section \<open>Pointer operations\<close>

definition insert_oldest :: "addr \<Rightarrow> addr \<Rightarrow> heap \<Rightarrow> heap" where
  "insert_oldest this younger_object h =
     set_older younger_object (Some this)
       (set_younger this (Some younger_object) (set_older this None h))"

definition insert_between :: "addr \<Rightarrow> addr \<Rightarrow> addr \<Rightarrow> heap \<Rightarrow> heap" where
  "insert_between center old yg h =
     (let h1 = set_older center (older (h yg)) h;
          h2 = set_younger center (younger (h1 old)) h1;
          h3 = set_younger old (Some center) h2
      in set_older yg (Some center) h3)"

definition unlink :: "addr \<Rightarrow> addr option \<Rightarrow> addr option \<Rightarrow> heap \<Rightarrow> heap" where
  "unlink this old yg h =
     (let h1 = (case old of None \<Rightarrow> h | Some o' \<Rightarrow> set_younger o' (younger (h this)) h);
          h2 = (case yg of None \<Rightarrow> h1 | Some y \<Rightarrow> set_older y (older (h1 this)) h1)
      in set_younger this None (set_older this None h2))"

definition join :: "addr \<Rightarrow> addr \<Rightarrow> heap \<Rightarrow> heap" where
  "join tail head h = set_younger tail (Some head) (set_older head (Some tail) h)"

text \<open>\<open>insert_before\<close> also tells whether the new object is now the oldest one.\<close>

definition insert_before :: "addr \<Rightarrow> addr option \<Rightarrow> heap \<Rightarrow> heap \<times> bool" where
  "insert_before this younger_object h =
     (case younger_object of
        None \<Rightarrow> (h, True)
      | Some y \<Rightarrow>
          (case older (h y) of
             Some o' \<Rightarrow> (insert_between this o' y h, False)
           | None \<Rightarrow> (insert_oldest this y h, True)))"

definition append_entry :: "addr \<Rightarrow> addr \<Rightarrow> heap \<Rightarrow> heap" where
  "append_entry this head h = join this head h"

definition insert_before_parent :: "addr \<Rightarrow> heap \<Rightarrow> heap" where
  "insert_before_parent e h =
     (case parent (h e) of None \<Rightarrow> h | Some p \<Rightarrow> append_entry e p h)"

definition unlink_from_aging_list :: "addr \<Rightarrow> heap \<Rightarrow> heap \<times> addr option" where
  "unlink_from_aging_list this h =
     (let older_object = older (h this); younger_object = younger (h this)
      in (unlink this older_object younger_object h, younger_object))"

section \<open>What the links say\<close>

definition hd_or :: "'a list \<Rightarrow> 'a option \<Rightarrow> 'a option" where
  "hd_or xs n = (case xs of [] \<Rightarrow> n | x # _ \<Rightarrow> Some x)"

definition last_or :: "'a list \<Rightarrow> 'a option \<Rightarrow> 'a option" where
  "last_or xs p = hd_or (rev xs) p"

lemma hd_or_simps [simp]: "hd_or [] n = n" "hd_or (x # xs) n = Some x"
  by (simp_all add: hd_or_def)

lemma hd_or_None [simp]: "hd_or xs None = hd_opt xs"
  by (cases xs) auto

lemma hd_or_append: "hd_or (xs @ ys) n = hd_or xs (hd_or ys n)"
  by (cases xs) auto

lemma last_or_simps [simp]: "last_or [] p = p" "last_or (xs @ [x]) p = Some x"
  by (simp_all add: last_or_def)

lemma last_or_None [simp]: "last_or xs None = last_opt xs"
  by (simp add: last_or_def last_opt_def)

lemma last_or_Cons [simp]: "last_or (x # xs) p = last_or xs (Some x)"
  by (simp add: last_or_def hd_or_append)

text \<open>
  \<open>dll h p xs n\<close>: from oldest to youngest, \<open>xs\<close> is a segment of a doubly linked
  list with \<open>p\<close> in front of it and \<open>n\<close> behind it.
\<close>

fun dll :: "heap \<Rightarrow> addr option \<Rightarrow> addr list \<Rightarrow> addr option \<Rightarrow> bool" where
  "dll h p [] n = True"
| "dll h p (x # xs) n = (older (h x) = p \<and> younger (h x) = hd_or xs n \<and> dll h (Some x) xs n)"

lemma dll_append: "dll h p (xs @ ys) n \<longleftrightarrow> dll h p xs (hd_or ys n) \<and> dll h (last_or xs p) ys n"
  by (induction xs arbitrary: p) (auto simp: hd_or_append)

lemma dll_cong:
  "(\<And>x. x \<in> set xs \<Longrightarrow> older (h x) = older (h' x) \<and> younger (h x) = younger (h' x)) \<Longrightarrow>
   dll h p xs n = dll h' p xs n"
  by (induction xs arbitrary: p) auto

lemma dll_transfer:
  "dll h p xs n \<Longrightarrow>
   (\<And>x. x \<in> set xs \<Longrightarrow> older (h' x) = older (h x) \<and> younger (h' x) = younger (h x)) \<Longrightarrow> dll h' p xs n"
  using dll_cong [of xs h' h p n] by blast

lemma dll_set_younger_other [simp]: "a \<notin> set xs \<Longrightarrow> dll (set_younger a v h) p xs n = dll h p xs n"
  by (rule dll_cong) (auto simp: heap_simps)

lemma dll_set_older_other [simp]: "a \<notin> set xs \<Longrightarrow> dll (set_older a v h) p xs n = dll h p xs n"
  by (rule dll_cong) (auto simp: heap_simps)

lemma dll_retarget_last:
  "dll h p (xs @ [x]) n \<Longrightarrow> x \<notin> set xs \<Longrightarrow> dll (set_younger x n' h) p (xs @ [x]) n'"
  by (simp add: dll_append) (auto simp: heap_simps)

lemma dll_retarget_first:
  "dll h p (x # xs) n \<Longrightarrow> x \<notin> set xs \<Longrightarrow> dll (set_older x p' h) p' (x # xs) n"
  by (auto simp: heap_simps dll_set_older_other [unfolded heap_simps])

text \<open>Everything of an object but its two links.\<close>

definition nolinks :: "entry \<Rightarrow> entry" where
  "nolinks e = e\<lparr>younger := None, older := None\<rparr>"

lemma nolinks_eqD:
  assumes "nolinks x = nolinks y"
  shows "parent x = parent y" and "children_count x = children_count y"
    and "cache_id x = cache_id y" and "object_size x = object_size y"
    and "pinned x = pinned y" and "last_used x = last_used y"
  using assms by (cases x; cases y; simp add: nolinks_def)+

lemma nolinks_set [simp]:
  "nolinks (set_younger a v h b) = nolinks (h b)" "nolinks (set_older a v h b) = nolinks (h b)"
  by (auto simp: heap_simps nolinks_def)

lemma nolinks_ops [frame_simps]:
  "nolinks (insert_oldest t y h b) = nolinks (h b)"
  "nolinks (insert_between t o' y h b) = nolinks (h b)"
  "nolinks (unlink t o2 y2 h b) = nolinks (h b)"
  "nolinks (join t y h b) = nolinks (h b)"
  by (auto simp: insert_oldest_def insert_between_def unlink_def join_def Let_def split: option.splits)

section \<open>Effect of the pointer operations on the aging list\<close>

lemma dll_member_links:
  assumes "dll h p (xs @ x # ys) n"
  shows "older (h x) = last_or xs p" and "younger (h x) = hd_or ys n"
  using assms by (auto simp: dll_append)

lemma unlink_links:
  assumes "dll h None (xs @ x # ys) None" and "distinct (xs @ x # ys)"
  shows "dll (unlink x (older (h x)) (younger (h x)) h) None (xs @ ys) None"
proof -
  have o: "older (h x) = last_opt xs" and y: "younger (h x) = hd_opt ys"
    using dll_member_links [OF assms(1)] by auto
  show ?thesis
  proof (cases xs rule: rev_cases)
    case Nil
    show ?thesis
    proof (cases ys)
      case (Cons r ys')
      have "dll (set_older r None h) None (r # ys') None"
        using assms Nil Cons by (intro dll_retarget_first [of _ "Some x"]) auto
      moreover have "x \<noteq> r" "x \<notin> set ys'" using assms(2) Cons by auto
      ultimately show ?thesis
        using Nil Cons o y by (simp add: unlink_def Let_def) (auto simp: heap_simps)
    qed (simp add: Nil)
  next
    case (snoc xs' l)
    let ?h1 = "set_younger l (hd_opt ys) h"
    have l: "l \<notin> set xs'" "l \<noteq> x" "l \<notin> set ys" and x: "x \<notin> set xs'" "x \<notin> set ys"
      using assms(2) snoc by auto
    have A: "dll ?h1 None (xs' @ [l]) (hd_opt ys)"
      using assms(1) snoc l by (intro dll_retarget_last) (auto simp: dll_append)
    have B: "dll h (Some x) ys None" using assms(1) by (simp add: dll_append)
    show ?thesis
    proof (cases ys)
      case Nil
      with A l x o y snoc show ?thesis by (simp add: unlink_def Let_def)
    next
      case (Cons r ys')
      have r: "r \<notin> set xs'" "r \<noteq> l" "r \<noteq> x" "r \<notin> set ys'"
        using assms(2) snoc Cons by auto
      have "dll (set_older r (Some l) ?h1) (Some l) (r # ys') None"
        using B Cons l r
        by (intro dll_retarget_first [of _ "Some x"])
          (auto simp del: dll.simps intro: dll_set_younger_other [THEN iffD2])
      with A l x r o y snoc Cons show ?thesis
        by (simp add: unlink_def Let_def dll_append) (simp add: heap_simps)
    qed
  qed
qed

lemma unlink_self:
  "younger (unlink x o2 y2 h x) = None" "older (unlink x o2 y2 h x) = None"
  by (auto simp: unlink_def Let_def heap_simps)

lemma unlink_frame:
  assumes "dll h None xs None" and "x \<in> set xs" and "a \<notin> set xs"
  shows "unlink x (older (h x)) (younger (h x)) h a = h a"
proof -
  obtain ls rs where xs: "xs = ls @ x # rs" using assms(2) by (meson split_list)
  have o: "older (h x) = last_opt ls" and y: "younger (h x) = hd_opt rs"
    using dll_member_links assms(1) xs by auto
  have "last_opt ls \<noteq> Some a" "hd_opt rs \<noteq> Some a" "a \<noteq> x"
    using assms(3) xs by (auto dest: last_opt_Some hd_opt_Some)
  then show ?thesis unfolding o y
    by (auto simp: unlink_def Let_def heap_simps split: option.splits)
qed

lemma insert_before_links:
  assumes "dll h None (xs @ y # ys) None" and "distinct (xs @ y # ys)" and "e \<notin> set (xs @ y # ys)"
  shows "dll (fst (insert_before e (Some y) h)) None (xs @ e # y # ys) None"
    and "snd (insert_before e (Some y) h) \<longleftrightarrow> xs = []"
proof -
  have o: "older (h y) = last_opt xs" and yg: "younger (h y) = hd_opt ys"
    using dll_member_links [OF assms(1)] by auto
  show "snd (insert_before e (Some y) h) \<longleftrightarrow> xs = []"
    using o by (auto simp: insert_before_def split: option.splits)
  show "dll (fst (insert_before e (Some y) h)) None (xs @ e # y # ys) None"
  proof (cases xs rule: rev_cases)
    case Nil
    then have "dll (set_older y (Some e) h) (Some e) (y # ys) None"
      using assms by (intro dll_retarget_first) auto
    then have "dll (set_older y (Some e) (set_younger e (Some y) (set_older e None h))) (Some e) (y # ys) None"
      by (rule dll_transfer) (use assms(3) Nil in \<open>auto simp: heap_simps\<close>)
    with Nil o assms(3) show ?thesis
      by (simp add: insert_before_def insert_oldest_def) (auto simp: heap_simps)
  next
    case (snoc xs' l)
    have l: "l \<notin> set xs'" "l \<noteq> y" "l \<notin> set ys" "l \<noteq> e" "y \<noteq> e" "y \<notin> set xs'" "y \<notin> set ys"
        "e \<notin> set xs'" "e \<notin> set ys"
      using assms(2,3) snoc by auto
    have "younger (h l) = Some y" using assms(1) snoc by (simp add: dll_append)
    then have eq: "fst (insert_before e (Some y) h) =
        set_older y (Some e) (set_younger l (Some e) (set_younger e (Some y) (set_older e (Some l) h)))"
      using o snoc l by (simp add: insert_before_def insert_between_def Let_def) (simp add: heap_simps)
    have A: "dll (set_younger l (Some e) h) None (xs' @ [l]) (Some e)"
      using assms(1) snoc l by (intro dll_retarget_last) (auto simp: dll_append)
    have B: "dll (set_older y (Some e) h) (Some e) (y # ys) None"
      using assms(1) snoc l by (intro dll_retarget_first) (auto simp: dll_append)
    have "dll (fst (insert_before e (Some y) h)) None (xs' @ [l]) (Some e)"
      by (rule dll_transfer [OF A]) (use l in \<open>auto simp: eq heap_simps\<close>)
    moreover have "dll (fst (insert_before e (Some y) h)) (Some e) (y # ys) None"
      by (rule dll_transfer [OF B]) (use l in \<open>auto simp: eq heap_simps\<close>)
    ultimately show ?thesis
      using l snoc by (simp add: dll_append) (simp add: eq heap_simps)
  qed
qed

lemma insert_before_frame:
  assumes "dll h None (xs @ y # ys) None" and "a \<notin> set (xs @ y # ys)" and "a \<noteq> e"
  shows "fst (insert_before e (Some y) h) a = h a"
proof -
  have "older (h y) \<noteq> Some a" using dll_member_links(1) [OF assms(1)] assms(2)
    by (auto dest: last_opt_Some)
  with assms(2,3) show ?thesis
    by (auto simp: insert_before_def insert_oldest_def insert_between_def Let_def heap_simps
        split: option.splits)
qed

lemma nolinks_insert_before [frame_simps]: "nolinks (fst (insert_before e y h) a) = nolinks (h a)"
  by (auto simp: insert_before_def frame_simps split: option.splits)

lemma nolinks_unlink_from [frame_simps]: "nolinks (fst (unlink_from_aging_list e h) a) = nolinks (h a)"
  by (simp add: unlink_from_aging_list_def Let_def frame_simps)

lemma join_links:
  assumes "dll h p (xs @ [t]) None" and "dll h None (y # ys) n" and "distinct (xs @ t # y # ys)"
  shows "dll (join t y h) p (xs @ t # y # ys) n"
proof -
  have A: "dll (set_younger t (Some y) h) p (xs @ [t]) (Some y)"
    using assms by (intro dll_retarget_last) auto
  have B: "dll (set_older y (Some t) h) (Some t) (y # ys) n"
    using assms by (intro dll_retarget_first) auto
  have "dll (join t y h) p (xs @ [t]) (Some y)"
    by (rule dll_transfer [OF A]) (use assms(3) in \<open>auto simp: join_def heap_simps\<close>)
  moreover have "dll (join t y h) (Some t) (y # ys) n"
    by (rule dll_transfer [OF B]) (use assms(3) in \<open>auto simp: join_def heap_simps\<close>)
  ultimately have "dll (join t y h) p ((xs @ [t]) @ y # ys) n"
    by (subst dll_append) simp
  then show ?thesis by simp
qed

section \<open>Facts about the way up\<close>

lemma chain_root [simp]: "parent (h e) = None \<Longrightarrow> chain h e = [e]"
  by (simp add: chain.simps [of h e])

lemma chain_step: "parents_older h \<Longrightarrow> parent (h e) = Some p \<Longrightarrow> chain h e = e # chain h p"
  by (simp add: chain.simps [of h e] parents_older_def)

lemma chain_Cons: "chain h e = e # tl (chain h e)"
  by (simp add: chain.simps [of h e])

lemma chain_cong:
  assumes "\<And>a. parent (h' a) = parent (h a)" shows "chain h' e = chain h e"
  by (induction e rule: less_induct) (auto simp: chain.simps [of _ "_ :: nat"] assms split: option.splits)

lemma parents_older_cong:
  assumes "\<And>a. parent (h' a) = parent (h a)" shows "parents_older h' = parents_older h"
  by (simp add: parents_older_def assms)

lemma chain_le: "x \<in> set (chain h e) \<Longrightarrow> x \<le> e"
proof (induction e rule: less_induct)
  case (less e)
  then show ?case
    by (force simp: chain.simps [of h e] split: option.splits if_splits)
qed

lemma distinct_chain: "distinct (chain h e)"
proof (induction e rule: less_induct)
  case (less e)
  then show ?case
    by (auto simp: chain.simps [of h e] split: option.splits dest: chain_le)
qed

lemma chain_suffix:
  assumes "parents_older h" and "x \<in> set (chain h e)"
  obtains as where "chain h e = as @ chain h x"
  using assms(2)
proof (induction e arbitrary: thesis rule: less_induct)
  case (less e)
  show ?case
  proof (cases "x = e")
    case True then show ?thesis using less.prems(1) [of "[]"] by simp
  next
    case False
    then obtain p where p: "parent (h e) = Some p" "p < e" "x \<in> set (chain h p)"
      using less.prems(2)
      by (cases "parent (h e)") (auto simp: chain.simps [of h e] split: if_splits)
    obtain as where "chain h p = as @ chain h x" using less.IH [OF p(2) _ p(3)] by blast
    then show ?thesis using less.prems(1) [of "e # as"] chain_step [OF assms(1) p(1)] by simp
  qed
qed

lemma chain_closed:
  "parents_older h \<Longrightarrow> x \<in> set (chain h e) \<Longrightarrow> parent (h x) = Some p \<Longrightarrow> p \<in> set (chain h e)"
  by (metis UnCI chain_Cons chain_step chain_suffix list.set_intros(1) list.set_intros(2) set_append)

end
