(* ===== verification/Lru_Cache.thy ===== *)
theory Lru_Cache
  imports Lru_Entry "HOL-Library.Product_Lexorder"
begin

text \<open>
  The least-recently-used object cache (\<^verbatim>\<open>LRU::CacheLimits\<close> and \<^verbatim>\<open>LRU::Cache\<close> in
  \<^verbatim>\<open>src/common/lru.hh\<close> and \<^verbatim>\<open>lru.cc\<close>): its state, its operations, in the order of
  the source. The functions the cache calls back are a record of functions over the whole
  state; the state record is extensible, so that the components behind the callbacks can
  keep their own fields in the same state. A result \<open>None\<close> is a loop that does not end.
\<close>

section \<open>Limits\<close>

record cache_limits =
  hard_upper_limit :: nat
  high_watermark :: nat
  low_watermark :: nat

definition watermark :: "nat \<Rightarrow> nat \<Rightarrow> nat" where
  "watermark hard permil = ((hard * permil + 500) mod 2 ^ 64) div 1000"

definition mk_cache_limits :: "nat \<Rightarrow> nat \<Rightarrow> nat \<Rightarrow> cache_limits" where
  "mk_cache_limits hard high_permil low_permil =
     \<lparr>hard_upper_limit = hard, high_watermark = watermark hard high_permil,
      low_watermark = watermark hard low_permil\<rparr>"

definition exceeds_soft :: "cache_limits \<Rightarrow> nat \<Rightarrow> bool" where
  "exceeds_soft l v \<longleftrightarrow> v > high_watermark l"

definition exceeds_hard :: "cache_limits \<Rightarrow> nat \<Rightarrow> bool" where
  "exceeds_hard l v \<longleftrightarrow> v > hard_upper_limit l"

definition is_low_enough :: "cache_limits \<Rightarrow> nat \<Rightarrow> bool" where
  "is_low_enough l v \<longleftrightarrow> v < low_watermark l"

section \<open>State\<close>

record cache =
  objs :: heap
  id_gen :: id_generator
  memory_limits :: cache_limits
  count_limits :: cache_limits
  maximum_age_threshold :: int
  all_objects :: "(list_id, addr) smap"
  root_object :: "addr option"
  oldest_object :: "addr option"
  deepest_youngest_object :: "addr option"
  pinned_object_id :: list_id
  minimum_required_creation_time :: time_point
  total_size :: nat
  gc_running :: bool

record 'c lru_callbacks =
  notify_first_object_inserted :: "'c \<Rightarrow> 'c option"
  notify_garbage_collection_needed :: "'c \<Rightarrow> 'c option"
  notify_object_removed :: "list_id \<Rightarrow> 'c \<Rightarrow> 'c"
  notify_last_object_removed :: "'c \<Rightarrow> 'c"
  obliviate_child :: "addr \<Rightarrow> list_id \<Rightarrow> addr \<Rightarrow> 'c \<Rightarrow> 'c"

definition mk_cache :: "ctx_layout \<Rightarrow> time_point \<Rightarrow> nat \<Rightarrow> nat \<Rightarrow> int \<Rightarrow> nat \<Rightarrow> nat \<Rightarrow> nat \<Rightarrow> nat \<Rightarrow> heap \<Rightarrow> cache"
  where
  "mk_cache L now mem_hard count_hard max_age mem_high mem_low count_high count_low h =
     \<lparr>objs = h, id_gen = mk_id_generator 1 (VALUE_MASK L),
      memory_limits = mk_cache_limits mem_hard mem_high mem_low,
      count_limits = mk_cache_limits count_hard count_high count_low,
      maximum_age_threshold = max_age, all_objects = [],
      root_object = None, oldest_object = None, deepest_youngest_object = None,
      pinned_object_id = invalid_id, minimum_required_creation_time = now,
      total_size = 0, gc_running = False\<rparr>"

text \<open>\<^verbatim>\<open>std::chrono::seconds::max()\<close>, and the age limit (minutes) in milliseconds and seconds.\<close>

definition seconds_max :: int where
  "seconds_max = 2 ^ 63 - 1"

definition max_age_ms :: "'a cache_scheme \<Rightarrow> int" where
  "max_age_ms c = maximum_age_threshold c * 60000"

section \<open>Marking objects as used\<close>

definition lookup :: "'a cache_scheme \<Rightarrow> list_id \<Rightarrow> addr option" where
  "lookup c i = smap_find (all_objects c) i"

definition count_objects :: "'a cache_scheme \<Rightarrow> nat" where
  "count_objects c = smap_size (all_objects c)"

fun unlink_path ::
  "addr \<Rightarrow> addr list \<Rightarrow> heap \<times> addr option \<times> addr option \<Rightarrow> heap \<times> addr option \<times> addr option" where
  "unlink_path entry [] st = st"
| "unlink_path entry (e # es) (h, oldest, tail) =
     (let tail' = (if Some e = tail then older (h e) else tail);
          (h', yg) = unlink_from_aging_list e h;
          oldest' = (if Some e = oldest then (if yg \<noteq> None then yg else Some entry) else oldest)
      in unlink_path entry es (h', oldest', tail'))"

fun climb_linked :: "heap \<Rightarrow> addr list \<Rightarrow> addr \<Rightarrow> addr" where
  "climb_linked h [] tail = tail"
| "climb_linked h (e # es) tail =
     (if younger (h e) \<noteq> None \<or> older (h e) \<noteq> None then climb_linked h es e else tail)"

definition unlink_objects_on_path_to_root ::
  "addr \<Rightarrow> addr option \<Rightarrow> addr option \<Rightarrow> heap \<Rightarrow> int \<times> heap \<times> addr option \<times> addr option" where
  "unlink_objects_on_path_to_root entry oldest tail h =
     (let (h', oldest', tail') = unlink_path entry (chain h entry) (h, oldest, tail);
          tail'' = map_option (\<lambda>t. climb_linked h' (tl (chain h' t)) t) tail'
      in (int (length (chain h entry)) - 1, h', oldest', tail''))"

fun link_path :: "time_point \<Rightarrow> addr list \<Rightarrow> heap \<Rightarrow> heap" where
  "link_path now [] h = h"
| "link_path now (e # es) h = link_path now es (insert_before_parent e (set_last_use e now h))"

definition link_objects_on_path_to_root :: "addr \<Rightarrow> time_point \<Rightarrow> heap \<Rightarrow> heap" where
  "link_objects_on_path_to_root entry now h = link_path now (chain h entry) h"

definition USED_ENTRY_ALREADY_UP_TO_DATE :: int where
  "USED_ENTRY_ALREADY_UP_TO_DATE = -1"

definition USED_ENTRY_INVALID_ID :: int where
  "USED_ENTRY_INVALID_ID = -2"

definition use_entry :: "time_point \<Rightarrow> addr \<Rightarrow> 'a cache_scheme \<Rightarrow> 'a cache_scheme \<times> int" where
  "use_entry now entry c =
     (if now \<le> minimum_required_creation_time c then (c, USED_ENTRY_ALREADY_UP_TO_DATE)
      else
        let (d, h1, oldest', tail) =
              unlink_objects_on_path_to_root entry (oldest_object c) (deepest_youngest_object c) (objs c);
            h2 = link_objects_on_path_to_root entry now h1;
            h3 = (case tail of None \<Rightarrow> h2 | Some t \<Rightarrow> append_entry t entry h2)
        in (c\<lparr>objs := h3, oldest_object := oldest', deepest_youngest_object := Some entry\<rparr>, d))"

definition use_id :: "time_point \<Rightarrow> list_id \<Rightarrow> 'a cache_scheme \<Rightarrow> 'a cache_scheme \<times> int" where
  "use_id now i c =
     (case lookup c i of Some obj \<Rightarrow> use_entry now obj c | None \<Rightarrow> (c, USED_ENTRY_INVALID_ID))"

section \<open>Discarding objects\<close>

definition discard ::
  "'a cache_scheme lru_callbacks \<Rightarrow> addr \<Rightarrow> bool \<Rightarrow> 'a cache_scheme \<Rightarrow> 'a cache_scheme \<times> addr option"
  where
  "discard cb cand notify c =
     (let (h1, next) = unlink_from_aging_list cand (objs c);
          par = parent (h1 cand);
          h2 = (case par of None \<Rightarrow> h1 | Some p \<Rightarrow> del_child p h1);
          removed = cache_id (h2 cand);
          c1 = c\<lparr>objs := h2,
                 oldest_object := (if oldest_object c = Some cand then next else oldest_object c),
                 deepest_youngest_object :=
                   (if deepest_youngest_object c = Some cand then par else deepest_youngest_object c),
                 total_size := total_size c - object_size (h2 cand)\<rparr>;
          c2 = (case par of None \<Rightarrow> c1 | Some p \<Rightarrow> obliviate_child cb p removed cand c1);
          c3 = c2\<lparr>all_objects := smap_erase removed (all_objects c2)\<rparr>;
          c4 = (if notify then notify_object_removed cb removed c3 else c3);
          c5 = (if oldest_object c4 = None
                then let c' = c4\<lparr>root_object := None\<rparr>
                     in if notify then notify_last_object_removed cb c' else c'
                else c4)
      in (c5, next))"

text \<open>The two loops of the garbage collector: objects that are too old, then, under
  resource pressure, objects down to the low watermarks.\<close>

partial_function (option) gc_expire ::
  "'a cache_scheme lru_callbacks \<Rightarrow> time_point \<Rightarrow> addr option \<Rightarrow> 'a cache_scheme \<Rightarrow>
   ('a cache_scheme \<times> addr option) option" where
  "gc_expire cb now cand c =
     (case cand of
        None \<Rightarrow> Some (c, None)
      | Some a \<Rightarrow>
          if get_age now (objs c a) \<ge> max_age_ms c then
            if \<not> pinned (objs c a)
            then (case discard cb a True c of (c', next) \<Rightarrow> gc_expire cb now next c')
            else gc_expire cb now (younger (objs c a)) c
          else Some (c, Some a))"

definition low_enough :: "'a cache_scheme \<Rightarrow> bool" where
  "low_enough c \<longleftrightarrow> is_low_enough (memory_limits c) (total_size c) \<and>
     is_low_enough (count_limits c) (count_objects c)"

definition over_soft :: "'a cache_scheme \<Rightarrow> bool" where
  "over_soft c \<longleftrightarrow> exceeds_soft (memory_limits c) (total_size c) \<or>
     exceeds_soft (count_limits c) (count_objects c)"

definition over_hard :: "'a cache_scheme \<Rightarrow> bool" where
  "over_hard c \<longleftrightarrow> exceeds_hard (memory_limits c) (total_size c) \<or>
     exceeds_hard (count_limits c) (count_objects c)"

partial_function (option) gc_pressure ::
  "'a cache_scheme lru_callbacks \<Rightarrow> addr option \<Rightarrow> 'a cache_scheme \<Rightarrow>
   ('a cache_scheme \<times> addr option) option" where
  "gc_pressure cb cand c =
     (case cand of
        None \<Rightarrow> Some (c, None)
      | Some a \<Rightarrow>
          if low_enough c then Some (c, Some a)
          else if pinned (objs c a) then gc_pressure cb (younger (objs c a)) c
          else if Some a \<noteq> deepest_youngest_object c \<or> over_hard c
            then (case discard cb a True c of (c', next) \<Rightarrow> gc_pressure cb next c')
          else Some (c, Some a))"

partial_function (option) skip_pinned :: "heap \<Rightarrow> addr option \<Rightarrow> addr option option" where
  "skip_pinned h cand =
     (case cand of
        None \<Rightarrow> Some None
      | Some a \<Rightarrow> if pinned (h a) then skip_pinned h (younger (h a)) else Some (Some a))"

definition next_gc_call :: "time_point \<Rightarrow> addr option \<Rightarrow> 'a cache_scheme \<Rightarrow> int" where
  "next_gc_call now cand c =
     (case cand of
        None \<Rightarrow> seconds_max
      | Some a \<Rightarrow>
          let next_call = maximum_age_threshold c * 60 - tdiv (get_age now (objs c a)) 1000
          in if next_call > 0 then next_call else 1)"

definition gc ::
  "'a cache_scheme lru_callbacks \<Rightarrow> time_point \<Rightarrow> 'a cache_scheme \<Rightarrow> ('a cache_scheme \<times> int) option" where
  "gc cb now c0 =
     do {
       (c1, cand1) \<leftarrow> gc_expire cb now (oldest_object c0) (c0\<lparr>gc_running := True\<rparr>);
       (c2, cand2) \<leftarrow> (if over_soft c1 then gc_pressure cb cand1 c1 else Some (c1, cand1));
       if oldest_object c2 = None then Some (c2\<lparr>gc_running := False\<rparr>, seconds_max)
       else do {
         cand3 \<leftarrow> skip_pinned (objs c2) cand2;
         Some (c2\<lparr>gc_running := False\<rparr>, next_gc_call now cand3 c2)
       }
     }"

section \<open>Pinning\<close>

fun set_pin_path :: "bool \<Rightarrow> addr list \<Rightarrow> heap \<Rightarrow> heap" where
  "set_pin_path b [] h = h"
| "set_pin_path b (e # es) h = set_pin_path b es (set_pin_mode e b h)"

definition pin_or_unpin_objects_on_path_to_root ::
  "ctx_layout \<Rightarrow> list_id \<Rightarrow> bool \<Rightarrow> 'a cache_scheme \<Rightarrow> 'a cache_scheme \<times> bool" where
  "pin_or_unpin_objects_on_path_to_root L i pin_them c =
     (if \<not> id_is_valid L i then (c, False)
      else case lookup c i of
             None \<Rightarrow> (c, False)
           | Some e \<Rightarrow> (c\<lparr>objs := set_pin_path pin_them (chain (objs c) e) (objs c)\<rparr>, True))"

definition pin ::
  "ctx_layout \<Rightarrow> 'a cache_scheme lru_callbacks \<Rightarrow> time_point \<Rightarrow> list_id \<Rightarrow> 'a cache_scheme \<Rightarrow>
   ('a cache_scheme \<times> bool) option" where
  "pin L cb now i c =
     (if pinned_object_id c = i then Some (c, id_is_valid L (pinned_object_id c))
      else
        let need_gc = id_is_valid L (pinned_object_id c);
            c1 = (if need_gc
                  then fst (pin_or_unpin_objects_on_path_to_root L (pinned_object_id c) False c)
                  else c);
            c2 = c1\<lparr>pinned_object_id := i\<rparr>;
            (c3, result) = (if id_is_valid L i
                            then pin_or_unpin_objects_on_path_to_root L (pinned_object_id c2) True c2
                            else (c2, True));
            c4 = (if \<not> result then c3\<lparr>pinned_object_id := invalid_id\<rparr> else c3)
        in do {
             c5 \<leftarrow> (if \<not> gc_running c4 \<and> need_gc then map_option fst (gc cb now c4) else Some c4);
             Some (c5, id_is_valid L (pinned_object_id c5))
           })"

section \<open>Inserting objects\<close>

text \<open>The second half of \<^verbatim>\<open>insert\<close>, from the choice of the ID onwards.\<close>

definition insert_finish ::
  "ctx_layout \<Rightarrow> 'a cache_scheme lru_callbacks \<Rightarrow> addr \<Rightarrow> cache_mode \<Rightarrow> context_t \<Rightarrow> nat \<Rightarrow>
   'a cache_scheme \<Rightarrow> ('a cache_scheme \<times> list_id) option" where
  "insert_finish L cb e cmode ctx sz c =
     do {
       (i, g) \<leftarrow> generator_next L (\<lambda>i. smap_find (all_objects c) i = None) (id_gen c) cmode ctx;
       let h1 = set_id e i (objs c);
       let (h2, is_oldest) = insert_before e (parent (h1 e)) h1;
       let c1 = c\<lparr>id_gen := g,
                  all_objects := smap_insert i e (all_objects c),
                  minimum_required_creation_time := last_used (h1 e),
                  oldest_object := (if is_oldest then Some e else oldest_object c),
                  objs := set_size e sz h2,
                  total_size := total_size c + sz\<rparr>;
       c2 \<leftarrow> (if count_objects c1 = 1 then notify_first_object_inserted cb c1 else Some c1);
       c3 \<leftarrow> (if exceeds_soft (memory_limits c2) (total_size c2) \<or>
                  exceeds_soft (count_limits c2) (count_objects c2)
               then notify_garbage_collection_needed cb c2 else Some c2);
       Some (c3, i)
     }"

definition insert_entry ::
  "ctx_layout \<Rightarrow> 'a cache_scheme lru_callbacks \<Rightarrow> time_point \<Rightarrow> addr \<Rightarrow> cache_mode \<Rightarrow> context_t \<Rightarrow> nat \<Rightarrow>
   'a cache_scheme \<Rightarrow> ('a cache_scheme \<times> list_id) option" where
  "insert_entry L cb now e cmode ctx sz c =
     (if id_is_valid L (cache_id (objs c e)) then Some (c, invalid_id)
      else if last_used (objs c e) < minimum_required_creation_time c then Some (c, invalid_id)
      else case parent (objs c e) of
        Some p \<Rightarrow>
          if \<not> id_is_valid L (cache_id (objs c p)) then Some (c, invalid_id)
          else if last_used (objs c e) < last_used (objs c p) then Some (c, invalid_id)
          else
            let (c1, d) = use_entry now p c;
                c2 = (if d < 0 then c1\<lparr>deepest_youngest_object := Some p\<rparr> else c1);
                c3 = c2\<lparr>objs := add_child p (objs c2)\<rparr>;
                c4 = (if equal_age (objs c3 e) (objs c3 p)
                      then c3\<lparr>deepest_youngest_object := Some e\<rparr> else c3)
            in insert_finish L cb e cmode ctx sz c4
      | None \<Rightarrow>
          insert_finish L cb e cmode ctx sz
            (c\<lparr>root_object := Some e, deepest_youngest_object := Some e\<rparr>))"

definition insert_again ::
  "ctx_layout \<Rightarrow> addr option \<Rightarrow> 'a cache_scheme \<Rightarrow> ('a cache_scheme \<times> list_id) option" where
  "insert_again L entry c =
     (case entry of
        None \<Rightarrow> Some (c, invalid_id)
      | Some e \<Rightarrow>
          let old_id = cache_id (objs c e)
          in if smap_find (all_objects c) old_id = None then Some (c, invalid_id)
             else
               let objects = smap_erase old_id (all_objects c)
               in do {
                 (new_id, g) \<leftarrow> generator_next L (\<lambda>i. smap_find objects i = None) (id_gen c)
                                 (get_cache_mode L old_id) (get_context L old_id);
                 Some (c\<lparr>objs := set_id e new_id (objs c),
                         id_gen := g,
                         all_objects := smap_insert new_id e objects,
                         pinned_object_id := (if old_id = pinned_object_id c then new_id
                                              else pinned_object_id c)\<rparr>, new_id)
               })"

definition set_object_size ::
  "'a cache_scheme lru_callbacks \<Rightarrow> time_point \<Rightarrow> list_id \<Rightarrow> nat \<Rightarrow> 'a cache_scheme \<Rightarrow>
   ('a cache_scheme \<times> bool) option" where
  "set_object_size cb now i sz c =
     (case lookup c i of
        None \<Rightarrow> Some (c, False)
      | Some obj \<Rightarrow>
          let old_size = object_size (objs c obj);
              c1 = c\<lparr>objs := set_size obj sz (objs c), total_size := total_size c - old_size + sz\<rparr>;
              c2 = fst (use_entry now obj c1)
          in do {
               c3 \<leftarrow> (if sz > old_size \<and> exceeds_soft (memory_limits c2) (total_size c2)
                      then map_option fst (gc cb now c2) else Some c2);
               Some (c3, True)
             })"

section \<open>Removing subtrees\<close>

text \<open>
  \<^verbatim>\<open>toposort_for_purge\<close>. Its inner loop walks up from a leaf and raises the known
  distance of every internal node of the kill list, until it finds one that is already
  at least as far away. A look-up of an unknown ID would be a null pointer: \<open>None\<close>.
\<close>

fun raise_distances :: "heap \<Rightarrow> addr list \<Rightarrow> nat \<Rightarrow> (list_id, nat) smap \<Rightarrow> (list_id, nat) smap" where
  "raise_distances h [] dist d = d"
| "raise_distances h (e # es) dist d =
     (case smap_find d (cache_id (h e)) of
        None \<Rightarrow> raise_distances h es dist d
      | Some known \<Rightarrow>
          if known < dist + 1
          then raise_distances h es (dist + 1) (smap_update (cache_id (h e)) (\<lambda>_. dist + 1) d)
          else d)"

definition toposort_for_purge ::
  "'a cache_scheme \<Rightarrow> list_id list \<Rightarrow> (list_id list \<times> bool) option" where
  "toposort_for_purge c kill_list =
     (if \<exists>i \<in> set kill_list. lookup c i = None then None
      else
        let leaf = (\<lambda>i. is_leaf (objs c (the (lookup c i))));
            leaves = filter leaf kill_list;
            internal = filter (\<lambda>i. \<not> leaf i) kill_list
        in if internal = [] then Some (leaves, True)
           else if leaves = [] then Some (internal, False)
           else
             let start = fold (\<lambda>i d. smap_insert i 0 d) internal [];
                 dists = fold (\<lambda>i d. raise_distances (objs c) (tl (chain (objs c) (the (lookup c i)))) 0 d)
                           leaves start;
                 by_distance = sort (map (\<lambda>(i, n). (n, i)) dists)
             in if length by_distance \<noteq> length internal then Some (leaves @ internal, False)
                else Some (leaves @ map snd by_distance, True))"

fun purge_entries ::
  "ctx_layout \<Rightarrow> 'a cache_scheme lru_callbacks \<Rightarrow> time_point \<Rightarrow> list_id list \<Rightarrow> bool \<Rightarrow> 'a cache_scheme \<Rightarrow>
   'a cache_scheme option" where
  "purge_entries L cb now [] notify c = Some c"
| "purge_entries L cb now (i # ids) notify c =
     (case lookup c i of
        None \<Rightarrow> purge_entries L cb now ids notify c
      | Some obj \<Rightarrow>
          do {
            c1 \<leftarrow> (if pinned (objs c obj) then map_option fst (pin L cb now invalid_id c) else Some c);
            purge_entries L cb now ids notify (fst (discard cb obj notify c1))
          })"

section \<open>Iteration and the built-in consistency check\<close>

partial_function (option) iterate_younger :: "heap \<Rightarrow> addr option \<Rightarrow> addr list option" where
  "iterate_younger h cur =
     (case cur of
        None \<Rightarrow> Some []
      | Some a \<Rightarrow> do { xs \<leftarrow> iterate_younger h (younger (h a)); Some (a # xs) })"

partial_function (option) iterate_older :: "heap \<Rightarrow> addr option \<Rightarrow> addr list option" where
  "iterate_older h cur =
     (case cur of
        None \<Rightarrow> Some []
      | Some a \<Rightarrow> do { xs \<leftarrow> iterate_older h (older (h a)); Some (a # xs) })"

fun ages_never_grow :: "int \<Rightarrow> int list \<Rightarrow> bool" where
  "ages_never_grow prev [] = True"
| "ages_never_grow prev (a # as) = (\<not> a > prev \<and> ages_never_grow a as)"

fun ages_never_shrink :: "int \<Rightarrow> int list \<Rightarrow> bool" where
  "ages_never_shrink prev [] = True"
| "ages_never_shrink prev (a # as) = (\<not> a < prev \<and> ages_never_shrink a as)"

definition children_of :: "'a cache_scheme \<Rightarrow> addr \<Rightarrow> nat" where
  "children_of c a = length (filter (\<lambda>(_, b). parent (objs c b) = Some a) (all_objects c))"

definition check_object :: "'a cache_scheme \<Rightarrow> list_id \<times> addr \<Rightarrow> bool" where
  "check_object c io =
     (case io of (i, a) \<Rightarrow>
        (pinned (objs c a) \<longrightarrow> (\<forall>p \<in> set (tl (chain (objs c) a)). pinned (objs c p))) \<and>
        cache_id (objs c a) = i \<and> parent (objs c a) \<noteq> Some a \<and>
        children_of c a = children_count (objs c a) \<and>
        (children_of c a = 0 \<longleftrightarrow> is_leaf (objs c a)))"

definition check_special :: "'a cache_scheme \<Rightarrow> addr option \<Rightarrow> bool" where
  "check_special c p =
     (length (filter (\<lambda>(_, a). Some a = p) (all_objects c)) = (if p = None then 0 else 1))"

definition self_check :: "ctx_layout \<Rightarrow> time_point \<Rightarrow> 'a cache_scheme \<Rightarrow> bool option" where
  "self_check L now c =
     do {
       fwd \<leftarrow> iterate_younger (objs c) (oldest_object c);
       bwd \<leftarrow> iterate_older (objs c) (root_object c);
       let age = (\<lambda>a. get_age now (objs c a));
       Some (((root_object c = None \<and> oldest_object c = None \<and> deepest_youngest_object c = None) \<or>
              (root_object c \<noteq> None \<and> oldest_object c \<noteq> None \<and> deepest_youngest_object c \<noteq> None)) \<and>
             list_all (check_object c) (all_objects c) \<and>
             (let n = sum_list (map (\<lambda>(_, a). children_of c a) (all_objects c))
              in if root_object c = None then n = 0 else n + 1 = count_objects c) \<and>
             check_special c (root_object c) \<and> check_special c (oldest_object c) \<and>
             check_special c (deepest_youngest_object c) \<and>
             length (filter (\<lambda>(_, a). cache_id (objs c a) = pinned_object_id c) (all_objects c)) =
               (if id_is_valid L (pinned_object_id c) then 1 else 0) \<and>
             (case (root_object c, oldest_object c, deepest_youngest_object c) of
                (Some r, Some o', Some y) \<Rightarrow>
                  parent (objs c r) = None \<and> younger (objs c r) = None \<and> older (objs c o') = None \<and>
                  ages_never_grow (age o') (map age fwd) \<and>
                  ages_never_shrink (last (age o' # map age fwd)) (map age bwd) \<and>
                  (\<forall>p \<in> set (tl (chain (objs c) y)). age p = age y)
              | _ \<Rightarrow> True))
     }"

end
