(* ===== verification/Lru_Use.thy ===== *)
theory Lru_Use
  imports Lru_Cache
begin

text \<open>
  What \<^verbatim>\<open>LRU::Cache::use()\<close> does to the aging list: the two-phase pointer algorithm
  (unlink every object on the path to the root, find the object to reconnect to, link the
  path, append it) is shown to move the path, in its order, to the young end of the list.
\<close>

section \<open>Phase one: unlinking the path\<close>

lemma filter_notin_Cons:
  "filter (\<lambda>x. x \<notin> set (e # es)) xs = filter (\<lambda>x. x \<notin> set es) (removeAll e xs)"
  by (induction xs) auto

lemma unlink_from_list:
  assumes "dll h None xs None" and "distinct xs" and "e \<in> set xs"
  shows "dll (fst (unlink_from_aging_list e h)) None (removeAll e xs) None"
    and "younger (fst (unlink_from_aging_list e h) e) = None"
    and "older (fst (unlink_from_aging_list e h) e) = None"
    and "a \<notin> set xs \<Longrightarrow> fst (unlink_from_aging_list e h) a = h a"
proof -
  obtain ls rs where xs: "xs = ls @ e # rs" using assms(3) by (meson split_list)
  have "removeAll e xs = ls @ rs" using assms(2) xs by simp
  then show "dll (fst (unlink_from_aging_list e h)) None (removeAll e xs) None"
    using unlink_links [of h ls e rs] assms(1,2) xs by (simp add: unlink_from_aging_list_def Let_def)
  show "a \<notin> set xs \<Longrightarrow> fst (unlink_from_aging_list e h) a = h a"
    using unlink_frame [OF assms(1,3)] by (simp add: unlink_from_aging_list_def Let_def)
qed (simp_all add: unlink_from_aging_list_def Let_def unlink_self)

lemma snd_unlink_from_aging_list [simp]: "snd (unlink_from_aging_list e h) = younger (h e)"
  by (simp add: unlink_from_aging_list_def Let_def)

text \<open>One turn of the loop: the oldest object and the reconnect candidate step aside when
  the object that is unlinked is one of them.\<close>

lemma unlink_step_oldest:
  assumes "dll h None xs None" and "distinct xs" and "e \<in> set xs"
  shows "(if Some e = hd_opt xs then (if younger (h e) \<noteq> None then younger (h e) else Some entry) else hd_opt xs)
    = (if removeAll e xs = [] then Some entry else hd_opt (removeAll e xs))"
proof (cases xs)
  case (Cons x xs')
  with assms show ?thesis by (cases xs') auto
qed (use assms in simp)

lemma unlink_step_tail:
  assumes "dll h None (zs @ ws) None" and "distinct (zs @ ws)"
  shows "(if Some e = last_opt zs then older (h e) else last_opt zs) = last_opt (removeAll e zs)"
proof (cases zs rule: rev_cases)
  case (snoc zs' z)
  with assms have "older (h z) = last_opt zs'" by (simp add: dll_append)
  with snoc assms(2) show ?thesis by auto
qed simp

lemma unlink_path_spec:
  assumes "dll h None (zs @ ws) None" and "distinct (zs @ ws)"
    and "distinct es" and "set es \<subseteq> set (zs @ ws)"
    and "unlink_path entry es (h, (if zs @ ws = [] then old else hd_opt (zs @ ws)), last_opt zs) = (h', oldest', tail')"
    and "es = [] \<longrightarrow> zs @ ws = [] \<longrightarrow> old = Some entry"
  shows "dll h' None (filter (\<lambda>x. x \<notin> set es) (zs @ ws)) None"
    and "\<And>e. e \<in> set es \<Longrightarrow> younger (h' e) = None \<and> older (h' e) = None"
    and "oldest' = (if filter (\<lambda>x. x \<notin> set es) (zs @ ws) = [] then Some entry
                    else hd_opt (filter (\<lambda>x. x \<notin> set es) (zs @ ws)))"
    and "tail' = last_opt (filter (\<lambda>x. x \<notin> set es) zs)"
    and "\<And>a. nolinks (h' a) = nolinks (h a)"
    and "\<And>a. a \<notin> set (zs @ ws) \<Longrightarrow> h' a = h a"
proof -
  have "dll h' None (filter (\<lambda>x. x \<notin> set es) (zs @ ws)) None \<and>
    (\<forall>e \<in> set es. younger (h' e) = None \<and> older (h' e) = None) \<and>
    oldest' = (if filter (\<lambda>x. x \<notin> set es) (zs @ ws) = [] then Some entry
                    else hd_opt (filter (\<lambda>x. x \<notin> set es) (zs @ ws))) \<and>
    tail' = last_opt (filter (\<lambda>x. x \<notin> set es) zs) \<and>
    (\<forall>a. nolinks (h' a) = nolinks (h a)) \<and> (\<forall>a. a \<notin> set (zs @ ws) \<longrightarrow> h' a = h a)"
    using assms
  proof (induction es arbitrary: h zs ws old)
    case Nil
    then show ?case by auto
  next
    case (Cons e es)
    let ?h1 = "fst (unlink_from_aging_list e h)"
    have e: "e \<in> set (zs @ ws)" using Cons.prems(4) by simp
    note U = unlink_from_list [OF Cons.prems(1,2) e]
    let ?zs = "removeAll e zs" and ?ws = "removeAll e ws"
    have app: "removeAll e (zs @ ws) = ?zs @ ?ws" by simp
    have o: "(if zs @ ws = [] then old else hd_opt (zs @ ws)) = hd_opt (zs @ ws)"
      using e by auto
    have run: "unlink_path entry es (?h1, (if ?zs @ ?ws = [] then Some entry else hd_opt (?zs @ ?ws)),
        last_opt ?zs) = (h', oldest', tail')"
      using Cons.prems(5)
      unfolding o unlink_path.simps Let_def case_prod_beta snd_unlink_from_aging_list
        unlink_step_tail [OF Cons.prems(1,2)]
        unlink_step_oldest [OF Cons.prems(1,2) e, unfolded app] .
    have sub: "set es \<subseteq> set (?zs @ ?ws)" using Cons.prems(3,4) by auto
    have IH: "dll h' None (filter (\<lambda>x. x \<notin> set es) (?zs @ ?ws)) None \<and>
      (\<forall>e \<in> set es. younger (h' e) = None \<and> older (h' e) = None) \<and>
      oldest' = (if filter (\<lambda>x. x \<notin> set es) (?zs @ ?ws) = [] then Some entry
                 else hd_opt (filter (\<lambda>x. x \<notin> set es) (?zs @ ?ws))) \<and>
      tail' = last_opt (filter (\<lambda>x. x \<notin> set es) ?zs) \<and>
      (\<forall>a. nolinks (h' a) = nolinks (?h1 a)) \<and> (\<forall>a. a \<notin> set (?zs @ ?ws) \<longrightarrow> h' a = ?h1 a)"
      by (rule Cons.IH [OF _ _ _ sub run]) (use U(1) Cons.prems(2,3) app in \<open>auto simp: distinct_removeAll\<close>)
    have "h' e = ?h1 e" using IH by auto
    then have "younger (h' e) = None \<and> older (h' e) = None" using U(2,3) by simp
    moreover have "h' a = h a" if "a \<notin> set (zs @ ws)" for a
      using IH U(4) [OF that] that by auto
    moreover have "filter (\<lambda>x. x \<notin> set (e # es)) (zs @ ws) = filter (\<lambda>x. x \<notin> set es) (?zs @ ?ws)"
      "filter (\<lambda>x. x \<notin> set (e # es)) zs = filter (\<lambda>x. x \<notin> set es) ?zs"
      by (simp_all only: filter_notin_Cons app)
    ultimately show ?case using IH by (simp add: frame_simps)
  qed
  then show "dll h' None (filter (\<lambda>x. x \<notin> set es) (zs @ ws)) None"
    and "\<And>e. e \<in> set es \<Longrightarrow> younger (h' e) = None \<and> older (h' e) = None"
    and "oldest' = (if filter (\<lambda>x. x \<notin> set es) (zs @ ws) = [] then Some entry
                    else hd_opt (filter (\<lambda>x. x \<notin> set es) (zs @ ws)))"
    and "tail' = last_opt (filter (\<lambda>x. x \<notin> set es) zs)"
    and "\<And>a. nolinks (h' a) = nolinks (h a)"
    and "\<And>a. a \<notin> set (zs @ ws) \<Longrightarrow> h' a = h a" by blast+
qed

section \<open>Children before parents\<close>

text \<open>The aging list enumerates every object before its parent.\<close>

fun parents_after :: "heap \<Rightarrow> addr list \<Rightarrow> bool" where
  "parents_after h [] = True"
| "parents_after h (x # xs) = ((\<forall>p. parent (h x) = Some p \<longrightarrow> p \<in> set xs) \<and> parents_after h xs)"

lemma parents_after_append2: "parents_after h (xs @ ys) \<Longrightarrow> parents_after h ys"
  by (induction xs) auto

lemma parents_after_cong:
  assumes "\<And>a. a \<in> set xs \<Longrightarrow> parent (h' a) = parent (h a)" shows "parents_after h' xs = parents_after h xs"
  using assms by (induction xs) auto

lemma parents_after_split: "parents_after h (xs @ x # ys) \<Longrightarrow> parent (h x) = Some p \<Longrightarrow> p \<in> set ys"
  by (drule parents_after_append2) simp

lemma parents_after_member: "parents_after h xs \<Longrightarrow> x \<in> set xs \<Longrightarrow> parent (h x) = Some p \<Longrightarrow> p \<in> set xs"
  by (induction xs) auto

lemma chain_in_list: "parents_after h xs \<Longrightarrow> x \<in> set xs \<Longrightarrow> set (chain h x) \<subseteq> set xs"
proof (induction x rule: less_induct)
  case (less x)
  then show ?case
    by (cases "parent (h x)") (auto simp: chain.simps [of h x] dest: parents_after_member)
qed

lemma parents_after_chain: "parents_older h \<Longrightarrow> parents_after h (chain h e)"
proof (induction e rule: less_induct)
  case (less e)
  show ?case
  proof (cases "parent (h e)")
    case (Some p)
    moreover have "p < e" using Some less.prems by (simp add: parents_older_def)
    moreover have "p \<in> set (chain h p)" by (subst chain_Cons) simp
    ultimately show ?thesis using less by (simp add: chain_step)
  qed simp
qed

lemma parents_after_filter:
  "parents_after h xs \<Longrightarrow> (\<And>x p. x \<in> set xs \<Longrightarrow> parent (h x) = Some p \<Longrightarrow> p \<in> S \<or> p \<in> set ys) \<Longrightarrow>
   parents_after h ys \<Longrightarrow> (\<And>x. x \<in> S \<Longrightarrow> x \<notin> set ys \<Longrightarrow> P x) \<Longrightarrow> parents_after h (filter P xs @ ys)"
  by (induction xs) auto

lemma parents_after_move:
  assumes "parents_after h xs" and "parents_older h"
  shows "parents_after h (filter (\<lambda>x. x \<notin> set (chain h e)) xs @ chain h e)"
  by (rule parents_after_filter [where S = "set xs"])
    (use assms in \<open>auto intro: parents_after_chain dest: parents_after_member\<close>)

lemma filter_chain_takeWhile:
  assumes "parents_older h" and closed: "\<And>x p. x \<in> P \<Longrightarrow> parent (h x) = Some p \<Longrightarrow> p \<in> P"
  shows "filter (\<lambda>x. x \<notin> P) (chain h d) = takeWhile (\<lambda>x. x \<notin> P) (chain h d)"
proof (induction d rule: less_induct)
  case (less d)
  have inP: "set (chain h x) \<subseteq> P" if "x \<in> P" for x
    using that
  proof (induction x rule: less_induct)
    case (less x)
    then show ?case
      by (cases "parent (h x)") (auto simp: chain.simps [of h x] dest: closed)
  qed
  show ?case
  proof (cases "parent (h d)")
    case (Some p)
    then have "p < d" using assms(1) by (simp add: parents_older_def)
    show ?thesis
    proof (cases "d \<in> P")
      case True
      with inP have "filter (\<lambda>x. x \<notin> P) (chain h d) = []" by (auto simp: filter_empty_conv)
      moreover have "takeWhile (\<lambda>x. x \<notin> P) (chain h d) = []" using True by (subst chain_Cons) simp
      ultimately show ?thesis by simp
    qed (use less \<open>p < d\<close> Some in \<open>simp add: chain_step [OF assms(1)]\<close>)
  qed simp
qed

section \<open>Finding the object to reconnect to\<close>

lemma climb_linked_eq:
  "climb_linked h es t = last (t # takeWhile (\<lambda>e. younger (h e) \<noteq> None \<or> older (h e) \<noteq> None) es)"
  by (induction es arbitrary: t) auto

lemma dll_older_linked:
  assumes "dll h p (xs @ ys) n" and "xs \<noteq> []" and "y \<in> set ys"
  shows "older (h y) \<noteq> None"
proof -
  obtain as bs where ys: "ys = as @ y # bs" using assms(3) by (meson split_list)
  then have "older (h y) = last_or (xs @ as) p"
    using assms(1) dll_member_links(1) [of h p "xs @ as" y bs n] by simp
  with assms(2) show ?thesis by (cases "xs @ as" rule: rev_cases) auto
qed

lemma reconnect_tail:
  assumes xs: "xs = ys @ chain h d" and "parents_older h" and "parents_after h xs" and "distinct xs"
    and P: "P = set (chain h e)"
    and D: "dll h' None (filter (\<lambda>x. x \<notin> P) xs) None"
    and U: "\<And>a. a \<in> P \<Longrightarrow> younger (h' a) = None \<and> older (h' a) = None"
    and par: "\<And>a. parent (h' a) = parent (h a)"
  shows "map_option (\<lambda>t. climb_linked h' (tl (chain h' t)) t) (last_opt (filter (\<lambda>x. x \<notin> P) (ys @ [d])))
    = last_opt (filter (\<lambda>x. x \<notin> P) xs)"
proof -
  let ?F = "filter (\<lambda>x. x \<notin> P)"
  let ?linked = "\<lambda>e. younger (h' e) \<noteq> None \<or> older (h' e) \<noteq> None"
  have chain': "chain h' t = chain h t" for t using par by (rule chain_cong)
  have closed: "p \<in> P" if "x \<in> P" "parent (h x) = Some p" for x p
    using that chain_closed [OF assms(2), of x e p] by (simp add: P)
  have FT: "?F (chain h t) = takeWhile (\<lambda>x. x \<notin> P) (chain h t)" for t
    by (rule filter_chain_takeWhile [OF assms(2)]) (rule closed)
  show ?thesis
  proof (cases "d \<in> P")
    case True
    moreover obtain rest where "chain h d = d # rest" using chain_Cons by blast
    ultimately have "?F (chain h d) = []" using FT [of d] by simp
    then have Fxs: "?F xs = ?F ys" by (simp add: xs)
    show ?thesis
    proof (cases "?F ys" rule: rev_cases)
      case (snoc fs t)
      then obtain as bs where ab: "ys = as @ t # bs" "?F bs = []"
        using filter_snocD [OF snoc] by blast
      have "tl (chain h t) = [] \<or> \<not> ?linked (hd (tl (chain h t)))"
      proof (cases "parent (h t)")
        case (Some p)
        then have "p \<in> set (bs @ chain h d)"
          using parents_after_split [of h as t "bs @ chain h d"] assms(3) xs ab(1) by simp
        moreover have "?F (bs @ chain h d) = []" using ab(2) \<open>?F (chain h d) = []\<close> by simp
        ultimately have "p \<in> P" by (auto simp: filter_empty_conv)
        moreover have "hd (chain h p) = p" by (subst chain_Cons) simp
        ultimately show ?thesis using Some U by (simp add: chain_step [OF assms(2)])
      qed simp
      then have "climb_linked h' (tl (chain h' t)) t = t"
        by (cases "tl (chain h t)") (auto simp: climb_linked_eq chain')
      with snoc True Fxs show ?thesis by simp
    qed (use True Fxs in simp)
  next
    case False
    obtain rest where C: "chain h d = d # rest" using chain_Cons by blast
    have "?linked a \<longleftrightarrow> a \<notin> P" if a: "a \<in> set rest" for a
    proof
      assume "a \<notin> P"
      then have "older (h' a) \<noteq> None"
        using D False a
        by (intro dll_older_linked [of h' None "?F ys @ [d]" "?F rest" None]) (auto simp: xs C)
      then show "?linked a" by simp
    qed (use U in auto)
    then have "takeWhile ?linked rest = takeWhile (\<lambda>x. x \<notin> P) rest"
      by (intro takeWhile_cong) auto
    moreover have "d # takeWhile (\<lambda>x. x \<notin> P) rest = ?F (chain h d)"
      using FT [of d] False by (simp add: C)
    ultimately have "climb_linked h' (tl (chain h' d)) d = last (?F (chain h d))"
      by (simp add: climb_linked_eq chain' C)
    moreover have "?F (chain h d) \<noteq> []" using False by (simp add: C)
    ultimately show ?thesis
      using False by (cases "?F (chain h d)" rule: rev_cases) (auto simp: xs last_opt_append)
  qed
qed

section \<open>Phase two: linking the path and appending it\<close>

lemma insert_before_parent_frame:
  "a \<noteq> e \<Longrightarrow> parent (h e) \<noteq> Some a \<Longrightarrow> insert_before_parent e h a = h a"
  by (auto simp: insert_before_parent_def append_entry_def join_def heap_simps split: option.splits)

lemma insert_before_parent_data [frame_simps]: "nolinks (insert_before_parent e h a) = nolinks (h a)"
  by (auto simp: insert_before_parent_def append_entry_def frame_simps split: option.splits)

lemma insert_before_parent_parent [frame_simps]: "parent (insert_before_parent e h a) = parent (h a)"
  using insert_before_parent_data by (rule nolinks_eqD(1))

lemma set_last_use_parent [frame_simps]: "parent (set_last_use e now h a) = parent (h a)"
  by (simp add: heap_simps)

abbreviation link_one :: "time_point \<Rightarrow> addr \<Rightarrow> heap \<Rightarrow> heap" where
  "link_one now e h \<equiv> insert_before_parent e (set_last_use e now h)"

lemma link_one_chain [frame_simps]: "chain (link_one now e h) x = chain h x"
  by (rule chain_cong) (simp add: frame_simps)

lemma link_one_parents_older [frame_simps]: "parents_older (link_one now e h) = parents_older h"
  by (rule parents_older_cong) (simp add: frame_simps)

lemma link_path_chain_step:
  assumes "parents_older h" and "parent (h e) = Some p"
  shows "link_path now (chain h e) h = link_path now (chain (link_one now e h) p) (link_one now e h)"
  using assms by (simp add: chain_step frame_simps)

lemma link_path_frame:
  "parents_older h \<Longrightarrow> a \<notin> set (chain h e) \<Longrightarrow> link_path now (chain h e) h a = h a"
proof (induction e arbitrary: h rule: less_induct)
  case (less e)
  show ?case
  proof (cases "parent (h e)")
    case None
    with less.prems show ?thesis
      by (simp add: insert_before_parent_frame heap_simps)
  next
    case (Some p)
    have a: "a \<noteq> e" "a \<notin> set (chain h p)" "a \<noteq> p"
      using less.prems Some chain_Cons [of h p] by (auto simp: chain_step) (metis list.set_intros(1))
    have "p < e" using Some less.prems(1) by (simp add: parents_older_def)
    then have "link_path now (chain h e) h a = link_one now e h a"
      using less.IH [of p "link_one now e h"] less.prems Some a
      by (simp add: link_path_chain_step frame_simps)
    also have "\<dots> = h a"
      using a Some by (simp add: insert_before_parent_frame frame_simps) (simp add: heap_simps)
    finally show ?thesis .
  qed
qed

lemma nolinks_last_used: "nolinks (x\<lparr>last_used := t\<rparr>) = (nolinks x)\<lparr>last_used := t\<rparr>"
  by (simp add: nolinks_def)

lemma link_path_data:
  "parents_older h \<Longrightarrow> nolinks (link_path now (chain h e) h a) =
     nolinks (if a \<in> set (chain h e) then (h a)\<lparr>last_used := now\<rparr> else h a)"
proof (induction e arbitrary: h rule: less_induct)
  case (less e)
  have one: "nolinks (link_one now e h a) = nolinks (if a = e then (h a)\<lparr>last_used := now\<rparr> else h a)"
    by (simp add: frame_simps) (simp add: heap_simps)
  show ?case
  proof (cases "parent (h e)")
    case None
    then show ?thesis using one by simp
  next
    case (Some p)
    have p: "p < e" using Some less.prems by (simp add: parents_older_def)
    then have "e \<notin> set (chain h p)" using chain_le by fastforce
    moreover have "nolinks (link_path now (chain h e) h a) =
        nolinks (if a \<in> set (chain h p) then (link_one now e h a)\<lparr>last_used := now\<rparr> else link_one now e h a)"
      using less.IH [OF p, of "link_one now e h"] less.prems Some
      by (simp add: link_path_chain_step frame_simps)
    ultimately show ?thesis
      using one less.prems Some by (auto simp: chain_step nolinks_last_used)
  qed
qed

lemma link_path_links:
  assumes "parents_older h" and "older (h e) = q"
    and "\<And>a. a \<in> set (chain h e) \<Longrightarrow> younger (h a) = None"
    and "\<And>a. a \<in> set (tl (chain h e)) \<Longrightarrow> older (h a) = None"
  shows "dll (link_path now (chain h e) h) q (chain h e) None"
  using assms
proof (induction e arbitrary: h q rule: less_induct)
  case (less e)
  show ?case
  proof (cases "parent (h e)")
    case None
    with less.prems show ?thesis
      by (simp add: insert_before_parent_def heap_simps)
  next
    case (Some p)
    let ?h1 = "link_one now e h" and ?h' = "link_path now (chain h e) h"
    have p: "p < e" using Some less.prems(1) by (simp add: parents_older_def)
    have e: "e \<notin> set (chain h p)" using p chain_le by fastforce
    obtain rest where C: "chain h p = p # rest" using chain_Cons by blast
    have h1: "older (?h1 p) = Some e" "younger (?h1 e) = Some p" "older (?h1 e) = q"
      "\<And>a. a \<noteq> e \<Longrightarrow> younger (?h1 a) = younger (h a)" "\<And>a. a \<noteq> p \<Longrightarrow> older (?h1 a) = older (h a)"
      using Some p less.prems(2)
      by (auto simp: insert_before_parent_def append_entry_def join_def heap_simps)
    have "younger (?h1 a) = None" if "a \<in> set (chain h p)" for a
      using that e less.prems(3) [of a] h1(4) [of a] chain_step [OF less.prems(1) Some] by auto
    moreover have "older (?h1 a) = None" if "a \<in> set rest" for a
    proof -
      have "a \<noteq> p" using that distinct_chain [of h p] C by auto
      then show ?thesis
        using that C less.prems(4) [of a] h1(5) [of a] chain_step [OF less.prems(1) Some] by auto
    qed
    ultimately have "dll (link_path now (chain ?h1 p) ?h1) (Some e) (chain ?h1 p) None"
      using less.prems(1) h1(1) C by (intro less.IH [OF p]) (simp_all add: frame_simps)
    moreover have "?h' e = ?h1 e"
      using link_path_frame [of ?h1 e p now] less.prems(1) Some e
      by (simp add: link_path_chain_step frame_simps)
    ultimately show ?thesis
      using less.prems(1) Some h1 C by (simp add: link_path_chain_step frame_simps) (simp add: chain_step)
  qed
qed

section \<open>The whole operation\<close>

definition moved_to_end :: "heap \<Rightarrow> addr \<Rightarrow> addr list \<Rightarrow> addr list" where
  "moved_to_end h e xs = filter (\<lambda>x. x \<notin> set (chain h e)) xs @ chain h e"

definition touched :: "heap \<Rightarrow> addr \<Rightarrow> time_point \<Rightarrow> addr \<Rightarrow> entry" where
  "touched h e now a = (if a \<in> set (chain h e) then (h a)\<lparr>last_used := now\<rparr> else h a)"

text \<open>The aging list of a heap, with the path of the deepest youngest object at its end.\<close>

definition aging_list_of :: "heap \<Rightarrow> addr option \<Rightarrow> addr list \<Rightarrow> bool" where
  "aging_list_of h dy xs \<longleftrightarrow> dll h None xs None \<and> distinct xs \<and> parents_older h \<and> parents_after h xs \<and>
     (case dy of None \<Rightarrow> xs = [] | Some d \<Rightarrow> \<exists>ys. xs = ys @ chain h d)"

lemma use_pointers:
  fixes now :: time_point
  assumes A: "aging_list_of h (Some d) xs" and e: "e \<in> set xs"
    and U: "unlink_objects_on_path_to_root e (hd_opt xs) (Some d) h = (n, h1, oldest', tail)"
    and h2_def: "h2 = link_objects_on_path_to_root e now h1"
    and h3_def: "h3 = (case tail of None \<Rightarrow> h2 | Some t \<Rightarrow> append_entry t e h2)"
  shows "dll h3 None (moved_to_end h e xs) None"
    and "oldest' = hd_opt (moved_to_end h e xs)"
    and "n = int (length (chain h e)) - 1"
    and "\<And>a. nolinks (h3 a) = nolinks (touched h e now a)"
    and "\<And>a. a \<notin> set xs \<Longrightarrow> h3 a = h a"
proof -
  let ?P = "chain h e"
  let ?F = "filter (\<lambda>x. x \<notin> set ?P)"
  obtain ys where D: "dll h None xs None" "distinct xs" and po: "parents_older h"
    and pa: "parents_after h xs" and xs: "xs = ys @ chain h d"
    using A by (auto simp: aging_list_of_def)
  obtain rest where C: "chain h d = d # rest" using chain_Cons by blast
  obtain t1 where UP: "unlink_path e ?P (h, hd_opt xs, Some d) = (h1, oldest', t1)"
    and tail: "tail = map_option (\<lambda>t. climb_linked h1 (tl (chain h1 t)) t) t1" and n: "n = int (length ?P) - 1"
    using U by (auto simp: unlink_objects_on_path_to_root_def Let_def split: prod.splits)
  show "n = int (length ?P) - 1" by (rule n)
  have P: "set ?P \<subseteq> set xs" by (rule chain_in_list [OF pa e])
  have xs2: "xs = (ys @ [d]) @ rest" using xs C by simp
  obtain pr where C2: "?P = e # pr" using chain_Cons by blast
  have run: "unlink_path e ?P (h, (if (ys @ [d]) @ rest = [] then None else hd_opt ((ys @ [d]) @ rest)),
      last_opt (ys @ [d])) = (h1, oldest', t1)"
    using UP by (simp add: xs2)
  have "?P = [] \<longrightarrow> (ys @ [d]) @ rest = [] \<longrightarrow> None = Some e" using C2 by simp
  note S = unlink_path_spec [OF D [unfolded xs2] distinct_chain P [unfolded xs2] run this, folded xs2]
  have par: "parent (h1 a) = parent (h a)" for a using S(5) by (rule nolinks_eqD(1))
  have chain1: "chain h1 x = chain h x" for x by (rule chain_cong) (rule par)
  have po1: "parents_older h1" using po parents_older_cong [of h1 h] par by simp
  have t1: "t1 = last_opt (?F (ys @ [d]))" by (rule S(4))
  have tl: "tail = last_opt (?F xs)"
    unfolding tail t1 by (rule reconnect_tail [OF xs po pa D(2) refl S(1,2) par])
  have h2: "h2 = link_path now (chain h1 e) h1" by (simp add: h2_def link_objects_on_path_to_root_def)
  have L: "dll h2 None ?P None"
    unfolding h2 chain1 [symmetric] using S(2) chain1 C2 by (intro link_path_links [OF po1]) auto
  have f2: "h2 a = h1 a" if "a \<notin> set ?P" for a
    using that link_path_frame [OF po1, of a e now] by (simp add: h2 chain1)
  have F2: "dll h2 None (?F xs) None"
    by (rule dll_transfer [OF S(1)]) (auto simp: f2)
  have data2: "nolinks (h2 a) = nolinks (touched h e now a)" for a
    using link_path_data [OF po1, of now e a] S(5) [of a]
    by (auto simp: h2 chain1 touched_def nolinks_last_used)
  show "nolinks (h3 a) = nolinks (touched h e now a)" for a
    by (auto simp: h3_def append_entry_def frame_simps data2 split: option.splits)
  show "oldest' = hd_opt (moved_to_end h e xs)"
    using S(3) C2 by (simp add: moved_to_end_def hd_opt_append)
  show "dll h3 None (moved_to_end h e xs) None"
  proof (cases "?F xs" rule: rev_cases)
    case Nil
    with L tl show ?thesis by (simp add: h3_def moved_to_end_def)
  next
    case (snoc fs t)
    have "distinct (?F xs @ ?P)" using D(2) distinct_chain [of h e] by auto
    then have "distinct ((fs @ [t]) @ ?P)" unfolding snoc .
    then have "distinct (fs @ t # e # pr)" unfolding C2 by simp
    moreover have "dll h2 None (fs @ [t]) None" using F2 unfolding snoc .
    moreover have "dll h2 None (e # pr) None" using L unfolding C2 .
    ultimately have "dll (join t e h2) None (fs @ t # e # pr) None" by (intro join_links)
    with tl snoc C2 show ?thesis by (simp add: h3_def append_entry_def moved_to_end_def)
  qed
  show "h3 a = h a" if a: "a \<notin> set xs" for a
  proof -
    have "a \<notin> set ?P" "a \<noteq> e" using a P e by auto
    moreover have "tail \<noteq> Some a" using a last_opt_mem [of "?F xs" a] by (auto simp: tl)
    ultimately show ?thesis
      using f2 [of a] S(6) [OF a]
      by (auto simp: h3_def append_entry_def join_def heap_simps split: option.splits)
  qed
qed

lemma use_entry_spec:
  assumes A: "aging_list_of (objs c) (Some d) xs" and e: "e \<in> set xs"
    and "deepest_youngest_object c = Some d" and "oldest_object c = hd_opt xs"
    and "minimum_required_creation_time c < now"
  obtains h' where "use_entry now e c =
      (c\<lparr>objs := h', oldest_object := hd_opt (moved_to_end (objs c) e xs), deepest_youngest_object := Some e\<rparr>,
       int (length (chain (objs c) e)) - 1)"
    and "dll h' None (moved_to_end (objs c) e xs) None"
    and "\<And>a. nolinks (h' a) = nolinks (touched (objs c) e now a)"
    and "\<And>a. a \<notin> set xs \<Longrightarrow> h' a = objs c a"
proof -
  obtain n h1 oldest' tail where U: "unlink_objects_on_path_to_root e (hd_opt xs) (Some d) (objs c) = (n, h1, oldest', tail)"
    by (metis prod_cases4)
  note S = use_pointers [OF A e U refl refl]
  show ?thesis
    by (rule that [of "case tail of None \<Rightarrow> link_objects_on_path_to_root e now h1
            | Some t \<Rightarrow> append_entry t e (link_objects_on_path_to_root e now h1)"])
      (use assms(3-5) U S in \<open>simp_all add: use_entry_def Let_def\<close>)
qed

lemma aging_list_moved:
  assumes A: "aging_list_of h dy xs" and "dll h' None (moved_to_end h e xs) None"
    and data: "\<And>a. nolinks (h' a) = nolinks (touched h e now a)"
  shows "aging_list_of h' (Some e) (moved_to_end h e xs)"
proof -
  have par: "parent (h' a) = parent (h a)" for a
    using nolinks_eqD(1) [OF data [of a]] by (auto simp: touched_def)
  have chain': "chain h' x = chain h x" for x by (rule chain_cong) (rule par)
  have po: "parents_older h" and pa: "parents_after h xs" and d: "distinct xs"
    using A by (auto simp: aging_list_of_def)
  have "parents_older h'" using po parents_older_cong [of h' h] par by simp
  moreover have "parents_after h' (moved_to_end h e xs)"
    using parents_after_move [OF pa po] parents_after_cong [of _ h' h] par by (simp add: moved_to_end_def)
  moreover have "distinct (moved_to_end h e xs)"
    using d distinct_chain [of h e] by (auto simp: moved_to_end_def)
  ultimately show ?thesis using assms(2) by (auto simp: aging_list_of_def chain' moved_to_end_def)
qed

lemma set_moved_to_end: "set (chain h e) \<subseteq> set xs \<Longrightarrow> set (moved_to_end h e xs) = set xs"
  by (auto simp: moved_to_end_def)

end
