(* ===== verification/Lru_Inv.thy ===== *)
theory Lru_Inv
  imports Lru_Use
begin

text \<open>
  The consistency invariant of the object cache: one list \<open>xs\<close>, oldest object first,
  explains the links, the map of objects, the child counters, the total size, the ages
  and the pin flags. This theory shows that marking objects as used, pinning, resizing and
  re-keying keep it; removal and insertion follow in their own theories.
\<close>

section \<open>The invariant\<close>

definition roots_ok :: "heap \<Rightarrow> addr list \<Rightarrow> bool" where
  "roots_ok h xs \<longleftrightarrow> (\<forall>a \<in> set xs. parent (h a) = None \<longleftrightarrow> Some a = last_opt xs)"

definition ids_ok :: "ctx_layout \<Rightarrow> heap \<Rightarrow> (list_id, addr) smap \<Rightarrow> addr set \<Rightarrow> bool" where
  "ids_ok L h m X \<longleftrightarrow> smap_ok m \<and> snd ` set m = X \<and>
     (\<forall>(i, a) \<in> set m. cache_id (h a) = i \<and> id_is_valid L i)"

definition counts_ok :: "heap \<Rightarrow> addr set \<Rightarrow> nat \<Rightarrow> bool" where
  "counts_ok h X n \<longleftrightarrow> n = (\<Sum>a \<in> X. object_size (h a)) \<and>
     (\<forall>a \<in> X. children_count (h a) = card {b \<in> X. parent (h b) = Some a})"

definition pinned_path :: "ctx_layout \<Rightarrow> heap \<Rightarrow> (list_id, addr) smap \<Rightarrow> list_id \<Rightarrow> addr set" where
  "pinned_path L h m i =
     (if id_is_valid L i then (case smap_find m i of None \<Rightarrow> {} | Some e \<Rightarrow> set (chain h e)) else {})"

definition pins_ok :: "ctx_layout \<Rightarrow> heap \<Rightarrow> (list_id, addr) smap \<Rightarrow> addr set \<Rightarrow> list_id \<Rightarrow> bool" where
  "pins_ok L h m X i \<longleftrightarrow> {a \<in> X. pinned (h a)} = pinned_path L h m i \<and>
     (id_is_valid L i \<longrightarrow> smap_find m i \<noteq> None)"

definition ages_ok :: "heap \<Rightarrow> addr option \<Rightarrow> addr list \<Rightarrow> time_point \<Rightarrow> bool" where
  "ages_ok h dy xs mint \<longleftrightarrow> sorted (map (\<lambda>a. last_used (h a)) xs) \<and>
     (\<forall>r. last_opt xs = Some r \<longrightarrow> mint \<le> last_used (h r) \<and>
        (\<forall>d. dy = Some d \<longrightarrow> (\<forall>a \<in> set (chain h d). last_used (h a) = last_used (h r))))"

definition cache_inv :: "ctx_layout \<Rightarrow> 'a cache_scheme \<Rightarrow> addr list \<Rightarrow> bool" where
  "cache_inv L c xs \<longleftrightarrow>
     aging_list_of (objs c) (deepest_youngest_object c) xs \<and>
     oldest_object c = hd_opt xs \<and> root_object c = last_opt xs \<and>
     roots_ok (objs c) xs \<and>
     ids_ok L (objs c) (all_objects c) (set xs) \<and>
     counts_ok (objs c) (set xs) (total_size c) \<and>
     pins_ok L (objs c) (all_objects c) (set xs) (pinned_object_id c) \<and>
     ages_ok (objs c) (deepest_youngest_object c) xs (minimum_required_creation_time c) \<and>
     generator_ok L (id_gen c) \<and> ctx_layout_ok L"

lemmas inv_defs = cache_inv_def roots_ok_def ids_ok_def counts_ok_def pins_ok_def ages_ok_def

lemma cache_invD:
  assumes "cache_inv L c xs"
  shows "aging_list_of (objs c) (deepest_youngest_object c) xs"
    and "oldest_object c = hd_opt xs" and "root_object c = last_opt xs"
    and "roots_ok (objs c) xs"
    and "ids_ok L (objs c) (all_objects c) (set xs)"
    and "counts_ok (objs c) (set xs) (total_size c)"
    and "pins_ok L (objs c) (all_objects c) (set xs) (pinned_object_id c)"
    and "ages_ok (objs c) (deepest_youngest_object c) xs (minimum_required_creation_time c)"
    and "generator_ok L (id_gen c)" and "ctx_layout_ok L"
  using assms by (simp_all add: cache_inv_def)

lemma aging_list_ofD:
  assumes "aging_list_of h dy xs"
  shows "dll h None xs None" and "distinct xs" and "parents_older h" and "parents_after h xs"
    and "dy = None \<longleftrightarrow> xs = []"
  using assms by (auto simp: aging_list_of_def chain.simps split: option.splits)

text \<open>The facts one has about the objects of a consistent cache.\<close>

lemma lookup_member: "cache_inv L c xs \<Longrightarrow> lookup c i = Some e \<Longrightarrow> e \<in> set xs \<and> cache_id (objs c e) = i"
  by (force simp: lookup_def cache_inv_def ids_ok_def dest: smap_find_SomeD)

lemma member_lookup:
  assumes "cache_inv L c xs" and "e \<in> set xs"
  shows "lookup c (cache_id (objs c e)) = Some e" and "id_is_valid L (cache_id (objs c e))"
proof -
  obtain i where "(i, e) \<in> set (all_objects c)"
    using assms by (force simp: cache_inv_def ids_ok_def)
  moreover from this have "cache_id (objs c e) = i" "id_is_valid L i"
    using assms(1) by (auto simp: cache_inv_def ids_ok_def)
  moreover have "smap_ok (all_objects c)" using assms(1) by (simp add: cache_inv_def ids_ok_def)
  ultimately show "lookup c (cache_id (objs c e)) = Some e" "id_is_valid L (cache_id (objs c e))"
    by (simp_all add: lookup_def smap_find_iff)
qed

lemma ids_inj: "cache_inv L c xs \<Longrightarrow> a \<in> set xs \<Longrightarrow> b \<in> set xs \<Longrightarrow>
    cache_id (objs c a) = cache_id (objs c b) \<Longrightarrow> a = b"
  by (metis member_lookup(1) option.inject)

lemma objects_distinct:
  assumes I: "cache_inv L c xs" shows "distinct (map snd (all_objects c))"
proof -
  have M: "smap_ok (all_objects c)" "\<forall>(i, a) \<in> set (all_objects c). cache_id (objs c a) = i"
    using cache_invD(5) [OF I] by (auto simp: ids_ok_def)
  then have "inj_on snd (set (all_objects c))"
    by (intro inj_onI) (metis (mono_tags, lifting) case_prodE snd_conv case_prod_conv)
  moreover have "distinct (all_objects c)"
    using smap_ok_distinct [OF M(1)] by (simp add: distinct_map)
  ultimately show ?thesis by (simp add: distinct_map)
qed

lemma count_matching:
  assumes I: "cache_inv L c xs"
  shows "length (filter (\<lambda>x. P (snd x)) (all_objects c)) = card {a \<in> set xs. P a}"
proof -
  have "length (filter (\<lambda>x. P (snd x)) (all_objects c)) = length (filter P (map snd (all_objects c)))"
    by (simp add: filter_map comp_def)
  also have "\<dots> = card (set (filter P (map snd (all_objects c))))"
    using objects_distinct [OF I] by (simp only: distinct_card distinct_filter)
  also have "set (filter P (map snd (all_objects c))) = {a \<in> set xs. P a}"
    using cache_invD(5) [OF I] by (auto simp: ids_ok_def)
  finally show ?thesis .
qed

lemma count_members: "cache_inv L c xs \<Longrightarrow> count_objects c = length xs"
  using count_matching [of L c xs "\<lambda>_. True"] aging_list_ofD(2) [OF cache_invD(1), of L c xs]
  by (simp add: count_objects_def distinct_card)

lemma chain_members: "cache_inv L c xs \<Longrightarrow> e \<in> set xs \<Longrightarrow> set (chain (objs c) e) \<subseteq> set xs"
  using aging_list_ofD(4) cache_invD(1) chain_in_list by blast

lemma last_chain_root: "parents_older h \<Longrightarrow> parent (h (last (chain h e))) = None"
proof (induction e rule: less_induct)
  case (less e)
  show ?case
  proof (cases "parent (h e)")
    case (Some p)
    then have "p < e" using less.prems by (simp add: parents_older_def)
    moreover have "chain h p \<noteq> []" by (subst chain_Cons) simp
    ultimately show ?thesis using less Some by (simp add: chain_step)
  qed simp
qed

lemma chain_nonempty [simp]: "chain h e \<noteq> []"
  by (subst chain_Cons) simp

lemma chain_self [simp]: "e \<in> set (chain h e)"
  by (subst chain_Cons) simp

lemma last_chain:
  assumes "cache_inv L c xs" and "e \<in> set xs"
  shows "last_opt xs = Some (last (chain (objs c) e))"
proof -
  have "last (chain (objs c) e) \<in> set xs"
    using chain_members [OF assms] by (meson chain_nonempty last_in_set subsetD)
  moreover have "parent (objs c (last (chain (objs c) e))) = None"
    using aging_list_ofD(3) [OF cache_invD(1) [OF assms(1)]] by (rule last_chain_root)
  ultimately show ?thesis using cache_invD(4) [OF assms(1)] by (simp add: roots_ok_def)
qed

lemma last_opt_chain: "last_opt (chain h e) = Some (last (chain h e))"
  by (cases "chain h e" rule: rev_cases) (use chain_nonempty in auto)

text \<open>The recency order: nothing is younger than the root.\<close>

lemma youngest_time:
  "sorted (map f xs) \<Longrightarrow> last_opt xs = Some r \<Longrightarrow> a \<in> set xs \<Longrightarrow> f a \<le> (f r :: int)"
  by (cases xs rule: rev_cases) (auto simp: sorted_append)

lemma pinned_parent:
  assumes "cache_inv L c xs" and "a \<in> set xs" and "pinned (objs c a)" and "parent (objs c a) = Some p"
  shows "pinned (objs c p)"
proof -
  have "a \<in> pinned_path L (objs c) (all_objects c) (pinned_object_id c)"
    using assms(1-3) by (auto simp: cache_inv_def pins_ok_def)
  then have "p \<in> pinned_path L (objs c) (all_objects c) (pinned_object_id c)"
    using chain_closed aging_list_ofD(3) [OF cache_invD(1) [OF assms(1)]] assms(4)
    by (auto simp: pinned_path_def split: if_splits option.splits)
  then show ?thesis using assms(1) by (auto simp: cache_inv_def pins_ok_def)
qed

section \<open>The initial state\<close>

lemma one_le_VALUE_MASK: "ctx_layout_ok L \<Longrightarrow> 1 \<le> VALUE_MASK L"
proof -
  assume L: "ctx_layout_ok L"
  have "(2::nat) ^ 1 \<le> 2 ^ (context_id_shift L - 1)"
    using layout_shift [OF L] by (intro power_increasing) auto
  then show ?thesis by (simp add: word_le_nat_alt unat_VALUE_MASK [OF L])
qed

lemma cache_inv_mk_cache:
  assumes "ctx_layout_ok L" and "parents_older h"
  shows "cache_inv L (mk_cache L now mh ch age mhi mlo chi clo h) []"
  using assms generator_ok_initial [OF _ one_le_VALUE_MASK order_refl]
  by (simp add: mk_cache_def cache_inv_def aging_list_of_def roots_ok_def ids_ok_def counts_ok_def
      pins_ok_def pinned_path_def ages_ok_def)

section \<open>What the parts of the invariant depend on\<close>

lemma roots_ok_cong:
  assumes "\<And>a. a \<in> set xs \<Longrightarrow> parent (h' a) = parent (h a)" and "set xs' = set xs"
    and "last_opt xs' = last_opt xs"
  shows "roots_ok h' xs' = roots_ok h xs"
  using assms by (simp add: roots_ok_def)

lemma ids_ok_cong:
  assumes "\<And>a. a \<in> X \<Longrightarrow> cache_id (h' a) = cache_id (h a)"
  shows "ids_ok L h' m X = ids_ok L h m X"
proof -
  have "cache_id (h' a) = cache_id (h a)" if "(i, a) \<in> set m" "snd ` set m = X" for i a
    using that by (intro assms) force
  then show ?thesis unfolding ids_ok_def by fastforce
qed

lemma counts_ok_cong:
  assumes "\<And>a. a \<in> X \<Longrightarrow> object_size (h' a) = object_size (h a)"
    and "\<And>a. a \<in> X \<Longrightarrow> children_count (h' a) = children_count (h a)"
    and "\<And>a. a \<in> X \<Longrightarrow> parent (h' a) = parent (h a)"
  shows "counts_ok h' X n = counts_ok h X n"
proof -
  have "{b \<in> X. parent (h' b) = Some a} = {b \<in> X. parent (h b) = Some a}" for a
    using assms(3) by auto
  moreover have "(\<Sum>a \<in> X. object_size (h' a)) = (\<Sum>a \<in> X. object_size (h a))"
    using assms(1) by (rule sum.cong [OF refl])
  ultimately show ?thesis using assms(2) by (simp add: counts_ok_def)
qed

lemma pins_ok_cong:
  assumes "\<And>a. a \<in> X \<Longrightarrow> pinned (h' a) = pinned (h a)" and "\<And>a. parent (h' a) = parent (h a)"
  shows "pins_ok L h' m X i = pins_ok L h m X i"
proof -
  have "{a \<in> X. pinned (h' a)} = {a \<in> X. pinned (h a)}" using assms(1) by auto
  moreover have "pinned_path L h' m i = pinned_path L h m i"
    by (simp add: pinned_path_def chain_cong [OF assms(2)] split: option.splits)
  ultimately show ?thesis by (simp add: pins_ok_def)
qed

lemma ages_ok_cong:
  assumes "\<And>a. a \<in> set xs \<Longrightarrow> last_used (h' a) = last_used (h a)" and "\<And>a. parent (h' a) = parent (h a)"
    and "\<And>d. dy = Some d \<Longrightarrow> set (chain h d) \<subseteq> set xs"
  shows "ages_ok h' dy xs t = ages_ok h dy xs t"
proof -
  have "map (\<lambda>a. last_used (h' a)) xs = map (\<lambda>a. last_used (h a)) xs"
    by (rule map_cong) (simp_all add: assms(1))
  moreover have "last_used (h' r) = last_used (h r)" if "last_opt xs = Some r" for r
    by (rule assms(1)) (rule last_opt_mem [OF that])
  moreover have "last_used (h' a) = last_used (h a)" if "dy = Some d" "a \<in> set (chain h d)" for d a
    using that assms(1) [of a] assms(3) [of d] by blast
  ultimately show ?thesis
    unfolding ages_ok_def chain_cong [OF assms(2)] by (simp cong: map_cong)
qed

lemma aging_list_of_cong:
  assumes "\<And>a. a \<in> set xs \<Longrightarrow> older (h' a) = older (h a) \<and> younger (h' a) = younger (h a)"
    and "\<And>a. parent (h' a) = parent (h a)"
  shows "aging_list_of h' dy xs = aging_list_of h dy xs"
proof -
  have "dll h' None xs None = dll h None xs None" using assms(1) by (intro dll_cong) simp
  moreover have "parents_after h' xs = parents_after h xs" by (rule parents_after_cong) (rule assms(2))
  ultimately show ?thesis
    by (simp add: aging_list_of_def chain_cong [OF assms(2)] parents_older_cong [OF assms(2)] split: option.splits)
qed

lemma deepest_path_members:
  "aging_list_of h dy xs \<Longrightarrow> dy = Some d \<Longrightarrow> set (chain h d) \<subseteq> set xs"
  by (auto simp: aging_list_of_def)

section \<open>Marking objects as used keeps the invariant\<close>

lemma touched_fields:
  assumes "nolinks (h' a) = nolinks (touched h e now a)"
  shows "parent (h' a) = parent (h a)" and "children_count (h' a) = children_count (h a)"
    and "cache_id (h' a) = cache_id (h a)" and "object_size (h' a) = object_size (h a)"
    and "pinned (h' a) = pinned (h a)"
    and "last_used (h' a) = (if a \<in> set (chain h e) then now else last_used (h a))"
  using nolinks_eqD [OF assms] by (auto simp: touched_def)

lemma sorted_moved:
  assumes "sorted (map f xs)" and "\<And>a. a \<in> set P \<Longrightarrow> g a = (now :: int)"
    and "\<And>a. a \<in> set xs \<Longrightarrow> a \<notin> set P \<Longrightarrow> g a = f a \<and> f a \<le> now"
  shows "sorted (map g (filter (\<lambda>x. x \<notin> set P) xs @ P))"
proof -
  have "map g (filter (\<lambda>x. x \<notin> set P) xs) = map f (filter (\<lambda>x. x \<notin> set P) xs)"
    using assms(3) by simp
  moreover have "sorted (map f (filter (\<lambda>x. x \<notin> set P) xs))" by (rule sorted_filter [OF assms(1)])
  moreover have "sorted (map (\<lambda>_. now) P)" by (induction P) auto
  moreover have "map g P = map (\<lambda>_. now) P" using assms(2) by simp
  ultimately have "sorted (map g (filter (\<lambda>x. x \<notin> set P) xs))" "sorted (map g P)" by (simp_all only:)
  then show ?thesis using assms(2,3) by (simp add: sorted_append)
qed

text \<open>No object was used after time \<open>now\<close>.\<close>

definition used_before :: "'a cache_scheme \<Rightarrow> time_point \<Rightarrow> bool" where
  "used_before c now \<longleftrightarrow> (\<forall>(_, a) \<in> set (all_objects c). last_used (objs c a) \<le> now)"

lemma used_before_iff: "cache_inv L c xs \<Longrightarrow> used_before c now \<longleftrightarrow> (\<forall>a \<in> set xs. last_used (objs c a) \<le> now)"
  by (force simp: used_before_def cache_inv_def ids_ok_def)

lemma use_entry_inv:
  assumes I: "cache_inv L c xs" and e: "e \<in> set xs" and "minimum_required_creation_time c < now"
    and T: "used_before c now"
  obtains h' where "use_entry now e c =
      (c\<lparr>objs := h', oldest_object := hd_opt (moved_to_end (objs c) e xs), deepest_youngest_object := Some e\<rparr>,
       int (length (chain (objs c) e)) - 1)"
    and "\<And>a. nolinks (h' a) = nolinks (touched (objs c) e now a)"
    and "\<And>a. a \<notin> set xs \<Longrightarrow> h' a = objs c a"
    and "cache_inv L (fst (use_entry now e c)) (moved_to_end (objs c) e xs)"
proof -
  let ?h = "objs c" and ?xs = "moved_to_end (objs c) e xs"
  note A = cache_invD(1) [OF I]
  obtain d where d: "deepest_youngest_object c = Some d" using aging_list_ofD(5) [OF A] e by fastforce
  obtain h' where U: "use_entry now e c =
      (c\<lparr>objs := h', oldest_object := hd_opt ?xs, deepest_youngest_object := Some e\<rparr>,
       int (length (chain ?h e)) - 1)"
    and D: "dll h' None ?xs None" and N: "\<And>a. nolinks (h' a) = nolinks (touched ?h e now a)"
    and fr: "\<And>a. a \<notin> set xs \<Longrightarrow> h' a = ?h a"
    using use_entry_spec [OF A [unfolded d] e d cache_invD(2) [OF I] assms(3)] by blast
  note F = touched_fields [of h' _ ?h e now, OF N]
  have S: "set ?xs = set xs" using set_moved_to_end [OF chain_members [OF I e]] .
  have R: "last_opt ?xs = last_opt xs"
    using last_chain [OF I e] by (simp add: moved_to_end_def last_opt_append last_opt_chain)
  have "ages_ok h' (Some e) ?xs (minimum_required_creation_time c)"
  proof -
    have "sorted (map (\<lambda>a. last_used (h' a)) ?xs)" unfolding moved_to_end_def
      by (rule sorted_moved [where f = "\<lambda>a. last_used (?h a)" and now = now])
        (use cache_invD(8) [OF I] T used_before_iff [OF I] in \<open>auto simp: ages_ok_def F(6)\<close>)
    then show ?thesis
      using assms(3) last_chain [OF I e] R by (auto simp: ages_ok_def F(6) chain_cong [OF F(1)])
  qed
  moreover have "aging_list_of h' (Some e) ?xs" by (rule aging_list_moved [OF A D N])
  moreover have "roots_ok h' ?xs" using roots_ok_cong [OF _ S R] F(1) cache_invD(4) [OF I] by blast
  moreover have "ids_ok L h' (all_objects c) (set ?xs)"
    using ids_ok_cong [of "set xs" h' ?h] F(3) cache_invD(5) [OF I] by (simp add: S)
  moreover have "counts_ok h' (set ?xs) (total_size c)"
    using counts_ok_cong [of "set xs" h' ?h] F cache_invD(6) [OF I] by (simp add: S)
  moreover have "pins_ok L h' (all_objects c) (set ?xs) (pinned_object_id c)"
    using pins_ok_cong [of "set xs" h' ?h] F cache_invD(7) [OF I] by (simp add: S)
  ultimately have "cache_inv L (fst (use_entry now e c)) ?xs"
    using cache_invD [OF I] R by (simp add: U cache_inv_def)
  with U N fr that show ?thesis by blast
qed

section \<open>Pinning\<close>

lemma set_pin_path_eq: "set_pin_path b es h a = (if a \<in> set es then (h a)\<lparr>pinned := b\<rparr> else h a)"
  by (induction es arbitrary: h) (auto simp: heap_simps)

text \<open>A change of pin flags touches nothing but the flags.\<close>

lemma repin_inv:
  assumes I: "cache_inv L c xs"
    and "\<And>a. h' a = (objs c a)\<lparr>pinned := pinned (h' a)\<rparr>"
    and "{a \<in> set xs. pinned (h' a)} = pinned_path L (objs c) (all_objects c) i"
    and "id_is_valid L i \<Longrightarrow> lookup c i \<noteq> None"
  shows "cache_inv L (c\<lparr>objs := h', pinned_object_id := i\<rparr>) xs"
proof -
  have F: "parent (h' a) = parent (objs c a)" "children_count (h' a) = children_count (objs c a)"
    "cache_id (h' a) = cache_id (objs c a)" "object_size (h' a) = object_size (objs c a)"
    "last_used (h' a) = last_used (objs c a)"
    "older (h' a) = older (objs c a)" "younger (h' a) = younger (objs c a)" for a
    by (subst assms(2), simp)+
  have "pinned_path L h' (all_objects c) i = pinned_path L (objs c) (all_objects c) i"
    by (simp add: pinned_path_def chain_cong [of h' "objs c", OF F(1)] split: option.splits)
  then have "pins_ok L h' (all_objects c) (set xs) i"
    using assms(3,4) by (simp add: pins_ok_def lookup_def)
  moreover have "aging_list_of h' (deepest_youngest_object c) xs"
    using aging_list_of_cong [of xs h' "objs c"] F cache_invD(1) [OF I] by simp
  moreover have "ages_ok h' (deepest_youngest_object c) xs (minimum_required_creation_time c)"
    using ages_ok_cong [of xs h' "objs c"] deepest_path_members [OF cache_invD(1) [OF I]] F cache_invD(8) [OF I]
    by simp
  moreover have "roots_ok h' xs" "ids_ok L h' (all_objects c) (set xs)" "counts_ok h' (set xs) (total_size c)"
    using roots_ok_cong [of xs h' "objs c"] ids_ok_cong [of "set xs" h' "objs c"]
      counts_ok_cong [of "set xs" h' "objs c"] F cache_invD(4-6) [OF I] by simp_all
  ultimately show ?thesis using cache_invD(2,3,9,10) [OF I] by (simp add: cache_inv_def)
qed

lemma unpin_inv:
  assumes I: "cache_inv L c xs" and "id_is_valid L (pinned_object_id c)"
  shows "cache_inv L (fst (pin_or_unpin_objects_on_path_to_root L (pinned_object_id c) False c)
    \<lparr>pinned_object_id := invalid_id\<rparr>) xs"
proof -
  obtain e where e: "lookup c (pinned_object_id c) = Some e"
    using assms cache_invD(7) [OF I] by (auto simp: pins_ok_def lookup_def)
  have "{a \<in> set xs. pinned (objs c a)} = set (chain (objs c) e)"
    using cache_invD(7) [OF I] assms(2) e by (simp add: pins_ok_def pinned_path_def lookup_def)
  then have "cache_inv L (c\<lparr>objs := set_pin_path False (chain (objs c) e) (objs c), pinned_object_id := invalid_id\<rparr>) xs"
    by (intro repin_inv [OF I]) (auto simp: set_pin_path_eq pinned_path_def)
  then show ?thesis using e assms(2) by (simp add: pin_or_unpin_objects_on_path_to_root_def)
qed

lemma pin_path_inv:
  assumes I: "cache_inv L c xs" and "\<not> id_is_valid L (pinned_object_id c)"
    and "id_is_valid L i" and "lookup c i = Some e"
  shows "cache_inv L (c\<lparr>objs := set_pin_path True (chain (objs c) e) (objs c), pinned_object_id := i\<rparr>) xs"
proof -
  have e: "e \<in> set xs" using lookup_member [OF I assms(4)] by simp
  have "{a \<in> set xs. pinned (objs c a)} = {}"
    using cache_invD(7) [OF I] assms(2) by (simp add: pins_ok_def pinned_path_def)
  then show ?thesis
    using chain_members [OF I e] assms(3,4)
    by (intro repin_inv [OF I]) (auto simp: set_pin_path_eq pinned_path_def lookup_def)
qed

end
