(* ===== verification/Lru_Gc.thy ===== *)
theory Lru_Gc
  imports Lru_Inv
begin

text \<open>
  Removal of objects: discarding a leaf keeps the invariant, and the garbage collector ends,
  keeps the invariant, removes exactly the expired objects that are not pinned, and then
  works towards the watermarks without touching pinned objects.
\<close>

section \<open>What the cache expects of the functions it calls on removal\<close>

locale lru_client =
  fixes cb :: "'a cache_scheme lru_callbacks"
  assumes removed_frame: "cache.truncate (notify_object_removed cb i c) = cache.truncate c"
    and last_removed_frame: "cache.truncate (notify_last_object_removed cb c) = cache.truncate c"
    and obliviate_frame: "cache.truncate (obliviate_child cb p i e c) = cache.truncate c"

lemma truncate_eqD:
  assumes "cache.truncate c = cache.truncate c'"
  shows "objs c = objs c'" and "id_gen c = id_gen c'" and "memory_limits c = memory_limits c'"
    and "count_limits c = count_limits c'" and "maximum_age_threshold c = maximum_age_threshold c'"
    and "all_objects c = all_objects c'" and "root_object c = root_object c'"
    and "oldest_object c = oldest_object c'"
    and "deepest_youngest_object c = deepest_youngest_object c'"
    and "pinned_object_id c = pinned_object_id c'"
    and "minimum_required_creation_time c = minimum_required_creation_time c'"
    and "total_size c = total_size c'" and "gc_running c = gc_running c'"
  using assms by (simp_all add: cache.defs)

lemma truncate_eqI:
  assumes "objs c = objs c'" and "id_gen c = id_gen c'" and "memory_limits c = memory_limits c'"
    and "count_limits c = count_limits c'" and "maximum_age_threshold c = maximum_age_threshold c'"
    and "all_objects c = all_objects c'" and "root_object c = root_object c'"
    and "oldest_object c = oldest_object c'"
    and "deepest_youngest_object c = deepest_youngest_object c'"
    and "pinned_object_id c = pinned_object_id c'"
    and "minimum_required_creation_time c = minimum_required_creation_time c'"
    and "total_size c = total_size c'" and "gc_running c = gc_running c'"
  shows "cache.truncate c = cache.truncate c'"
  using assms by (simp add: cache.defs)

lemma cache_inv_truncate:
  "cache.truncate c = cache.truncate c' \<Longrightarrow> cache_inv L c xs = cache_inv L c' xs"
  unfolding cache_inv_def by (simp add: truncate_eqD [of c c'])

section \<open>Leaves\<close>

lemma is_leaf_iff:
  assumes "counts_ok h X n" and "a \<in> X" and "finite X"
  shows "is_leaf (h a) \<longleftrightarrow> (\<forall>b \<in> X. parent (h b) \<noteq> Some a)"
  using assms by (auto simp: is_leaf_def counts_ok_def)

lemma chain_child:
  "a \<in> set (chain h y) \<Longrightarrow> a \<noteq> y \<Longrightarrow> \<exists>b \<in> set (chain h y). parent (h b) = Some a"
proof (induction y rule: less_induct)
  case (less y)
  then obtain p where p: "parent (h y) = Some p" "p < y" "a \<in> set (chain h p)"
    by (cases "parent (h y)") (auto simp: chain.simps [of h y] split: if_splits)
  show ?case
  proof (cases "a = p")
    case True
    then show ?thesis using p by (auto intro!: bexI [of _ y])
  next
    case False
    then obtain b where "b \<in> set (chain h p)" "parent (h b) = Some a" using less.IH p by blast
    then show ?thesis using p by (auto simp: chain.simps [of h y])
  qed
qed

lemma leaf_not_above:
  assumes "counts_ok h X n" and "finite X" and "set (chain h y) \<subseteq> X" and "is_leaf (h a)"
    and "a \<in> set (chain h y)"
  shows "a = y"
proof (rule ccontr)
  assume "a \<noteq> y"
  then obtain b where "b \<in> set (chain h y)" "parent (h b) = Some a" using chain_child assms(5) by blast
  then show False using is_leaf_iff [OF assms(1) _ assms(2), of a] assms(3-5) by blast
qed

lemma leaf_root:
  assumes I: "cache_inv L c xs" and "a \<in> set xs" and "is_leaf (objs c a)" and "last_opt xs = Some a"
  shows "xs = [a]"
proof -
  have all: "y = a" if y: "y \<in> set xs" for y
  proof -
    have "last (chain (objs c) y) = a" using last_chain [OF I y] assms(4) by simp
    then have "a \<in> set (chain (objs c) y)" using last_in_set [OF chain_nonempty] by blast
    then have "a = y" by (rule leaf_not_above [OF cache_invD(6) [OF I] finite_set chain_members [OF I y] assms(3)])
    then show ?thesis by (rule sym)
  qed
  then have X: "set xs = {a}" using assms(2) by blast
  have "distinct xs" by (rule aging_list_ofD(2) [OF cache_invD(1) [OF I]])
  then have "length xs = 1" using X distinct_card [of xs] by simp
  then obtain x where "xs = [x]" by (auto simp: length_Suc_conv)
  with X show ?thesis by simp
qed

text \<open>The oldest object is always a leaf, and so is an object that is not pinned while
  everything older is: its children would be older, hence pinned, hence it would be pinned.\<close>

lemma child_is_older:
  assumes "parents_after h (ys @ a # zs)" and "distinct (ys @ a # zs)"
    and "b \<in> set (ys @ a # zs)" and "parent (h b) = Some a"
  shows "b \<in> set ys"
proof (rule ccontr)
  assume "b \<notin> set ys"
  then have "b \<in> set (a # zs)" using assms(3) by auto
  then obtain us vs where "a # zs = us @ b # vs" by (meson split_list)
  then have "ys @ a # zs = (ys @ us) @ b # vs" by simp
  then have "a \<in> set vs" using parents_after_split [of h "ys @ us" b vs a] assms(1,4) by simp
  with \<open>a # zs = us @ b # vs\<close> assms(2) show False by (cases us) auto
qed

lemma candidate_is_leaf:
  assumes I: "cache_inv L c (ys @ a # zs)" and "\<forall>y \<in> set ys. pinned (objs c y)" and "\<not> pinned (objs c a)"
  shows "is_leaf (objs c a)"
proof -
  note A = aging_list_ofD [OF cache_invD(1) [OF I]]
  have "parent (objs c b) \<noteq> Some a" if b: "b \<in> set (ys @ a # zs)" for b
    using child_is_older [OF A(4,2) b] pinned_parent [OF I b] assms(2,3) by blast
  then show ?thesis using is_leaf_iff [OF cache_invD(6) [OF I]] by simp
qed

section \<open>Discarding a leaf\<close>

text \<open>The heap after an object has been taken out of the list and of its parent's counter.\<close>

definition unhooked :: "addr \<Rightarrow> heap \<Rightarrow> heap" where
  "unhooked a h = (let h1 = fst (unlink_from_aging_list a h)
     in case parent (h a) of None \<Rightarrow> h1 | Some p \<Rightarrow> del_child p h1)"

lemma unhooked_fields:
  "parent (unhooked a h b) = parent (h b)" "cache_id (unhooked a h b) = cache_id (h b)"
  "object_size (unhooked a h b) = object_size (h b)" "pinned (unhooked a h b) = pinned (h b)"
  "last_used (unhooked a h b) = last_used (h b)"
  "children_count (unhooked a h b) = children_count (h b) - (if parent (h a) = Some b then 1 else 0)"
  using nolinks_eqD [OF nolinks_unlink_from [of a h b]]
  by (auto simp: unhooked_def Let_def heap_simps split: option.splits)

lemma unhooked_links:
  assumes "dll h None xs None" and "distinct xs" and "a \<in> set xs"
  shows "dll (unhooked a h) None (removeAll a xs) None"
  by (rule dll_transfer [OF unlink_from_list(1) [OF assms]])
    (auto simp: unhooked_def Let_def heap_simps split: option.splits)

lemma parents_after_removeAll:
  assumes "parents_after h xs" and "\<And>b. b \<in> set xs \<Longrightarrow> parent (h b) \<noteq> Some a"
  shows "parents_after h (removeAll a xs)"
  using parents_after_filter [of h xs "set xs - {a}" "[]" "\<lambda>x. x \<noteq> a"] assms
    parents_after_member [OF assms(1)]
  by (auto simp: removeAll_filter_not_eq eq_commute)

lemma unhooked_aging_list:
  assumes I: "cache_inv L c xs" and a: "a \<in> set xs" and leaf: "is_leaf (objs c a)"
    and dy: "dy = (if deepest_youngest_object c = Some a then parent (objs c a) else deepest_youngest_object c)"
  shows "aging_list_of (unhooked a (objs c)) dy (removeAll a xs)"
    and "\<And>d. dy = Some d \<Longrightarrow> \<exists>d0. deepest_youngest_object c = Some d0 \<and>
           set (chain (objs c) d) \<subseteq> set (chain (objs c) d0) \<and> (removeAll a xs \<noteq> [])"
proof -
  let ?h = "objs c"
  note A = aging_list_ofD [OF cache_invD(1) [OF I]]
  have nochild: "parent (?h b) \<noteq> Some a" if "b \<in> set xs" for b
    using is_leaf_iff [OF cache_invD(6) [OF I] a] leaf that by simp
  have chain': "chain (unhooked a ?h) d = chain ?h d" for d by (rule chain_cong) (simp add: unhooked_fields)
  obtain d ys where d: "deepest_youngest_object c = Some d" and xs: "xs = ys @ chain ?h d"
    using cache_invD(1) [OF I] a by (auto simp: aging_list_of_def split: option.splits)
  have "(case dy of None \<Rightarrow> removeAll a xs = [] | Some d' \<Rightarrow> \<exists>zs. removeAll a xs = zs @ chain ?h d') \<and>
    (\<forall>d'. dy = Some d' \<longrightarrow> set (chain ?h d') \<subseteq> set (chain ?h d))"
  proof (cases "d = a")
    case True
    show ?thesis
    proof (cases "parent (?h a)")
      case None
      then have "Some a = last_opt xs" using cache_invD(4) [OF I] a by (simp add: roots_ok_def)
      then have "xs = [a]" using leaf_root [OF I a leaf] by simp
      then show ?thesis using None True d dy by simp
    next
      case (Some p)
      have C: "chain ?h a = a # chain ?h p" by (rule chain_step [OF A(3) Some])
      then have "a \<notin> set ys" "a \<notin> set (chain ?h p)" using A(2) xs True by auto
      then have "removeAll a xs = ys @ chain ?h p" using xs True C by simp
      then show ?thesis using Some True d dy C by auto
    qed
  next
    case False
    then have "a \<notin> set (chain ?h d)"
      using leaf_not_above [OF cache_invD(6) [OF I] finite_set _ leaf] deepest_path_members [OF cache_invD(1) [OF I] d]
      by blast
    then have "removeAll a xs = removeAll a ys @ chain ?h d" using xs by simp
    then show ?thesis using False d dy by auto
  qed
  moreover have "dll (unhooked a ?h) None (removeAll a xs) None" by (rule unhooked_links [OF A(1,2) a])
  moreover have "parents_after (unhooked a ?h) (removeAll a xs)"
    using parents_after_removeAll [OF A(4) nochild] parents_after_cong [of "removeAll a xs" "unhooked a ?h" ?h]
    by (simp add: unhooked_fields)
  moreover have "parents_older (unhooked a ?h)"
    using A(3) parents_older_cong [of "unhooked a ?h" ?h] by (simp add: unhooked_fields)
  ultimately show "aging_list_of (unhooked a ?h) dy (removeAll a xs)"
    and "\<And>d. dy = Some d \<Longrightarrow> \<exists>d0. deepest_youngest_object c = Some d0 \<and>
           set (chain (objs c) d) \<subseteq> set (chain (objs c) d0) \<and> (removeAll a xs \<noteq> [])"
    using A(2) d by (auto simp: aging_list_of_def chain' distinct_removeAll split: option.splits)
qed

lemma set_smap_erase: "smap_ok m \<Longrightarrow> set (smap_erase k m) = {x \<in> set m. fst x \<noteq> k}"
proof (induction m)
  case (Cons x m)
  then have "\<forall>y \<in> set m. fst x < fst y" by (auto simp: smap_keys_def)
  with Cons show ?case by (cases x) auto
qed simp

lemma last_opt_removeAll:
  assumes "distinct xs" and "last_opt xs \<noteq> Some a" shows "last_opt (removeAll a xs) = last_opt xs"
  using assms by (cases xs rule: rev_cases) auto

lemma unhooked_root:
  assumes I: "cache_inv L c xs" and a: "a \<in> set xs" and leaf: "is_leaf (objs c a)"
  shows "last_opt (removeAll a xs) = (if removeAll a xs = [] then None else last_opt xs)"
    and "roots_ok (unhooked a (objs c)) (removeAll a xs)"
proof -
  show R: "last_opt (removeAll a xs) = (if removeAll a xs = [] then None else last_opt xs)"
  proof (cases "last_opt xs = Some a")
    case True
    with leaf_root [OF I a leaf] show ?thesis by simp
  next
    case False
    then have "last_opt (removeAll a xs) = last_opt xs"
      by (rule last_opt_removeAll [OF aging_list_ofD(2) [OF cache_invD(1) [OF I]]])
    then show ?thesis by (metis last_opt_None_iff)
  qed
  have "roots_ok (objs c) (removeAll a xs)"
    using cache_invD(4) [OF I] R by (cases "removeAll a xs = []") (auto simp: roots_ok_def)
  then show "roots_ok (unhooked a (objs c)) (removeAll a xs)"
    by (simp add: roots_ok_def unhooked_fields)
qed

lemma unhooked_ids:
  assumes "ids_ok L h m X" and "a \<in> X"
  shows "ids_ok L (unhooked a h) (smap_erase (cache_id (h a)) m) (X - {a})"
proof -
  have M: "smap_ok m" "snd ` set m = X" "\<And>i b. (i, b) \<in> set m \<Longrightarrow> cache_id (h b) = i \<and> id_is_valid L i"
    using assms(1) by (auto simp: ids_ok_def)
  have ida: "(cache_id (h a), a) \<in> set m" using M(2,3) assms(2) by force
  have "snd x = a \<longleftrightarrow> fst x = cache_id (h a)" if "x \<in> set m" for x
    using M(3) [of "fst x" "snd x"] ida smap_ok_distinct [OF M(1)] that
    by (cases x) (auto dest: eq_key_imp_eq_value)
  then have "set (smap_erase (cache_id (h a)) m) = {x \<in> set m. snd x \<noteq> a}"
    unfolding set_smap_erase [OF M(1)] by blast
  then show ?thesis using M by (force simp: ids_ok_def unhooked_fields)
qed

lemma unhooked_counts:
  assumes C: "counts_ok h X n" and a: "a \<in> X" and "finite X" and leaf: "is_leaf (h a)"
  shows "counts_ok (unhooked a h) (X - {a}) (n - object_size (h a))"
proof -
  have "n - object_size (h a) = (\<Sum>b \<in> X - {a}. object_size (unhooked a h b))"
    using C a assms(3) by (simp add: counts_ok_def unhooked_fields sum.remove [of X a])
  moreover have "children_count (unhooked a h b) = card {x \<in> X - {a}. parent (unhooked a h x) = Some b}"
    if "b \<in> X - {a}" for b
  proof -
    let ?K = "{x \<in> X. parent (h x) = Some b}"
    have "{x \<in> X - {a}. parent (h x) = Some b} = ?K - {a}" by auto
    moreover have "children_count (h b) = card ?K" using C that by (simp add: counts_ok_def)
    moreover have "card (?K - {a}) = card ?K - (if parent (h a) = Some b then 1 else 0)"
      using a by (auto simp: card_Diff_singleton_if)
    ultimately show ?thesis by (simp add: unhooked_fields)
  qed
  ultimately show ?thesis by (simp add: counts_ok_def)
qed

lemma unhooked_pins:
  assumes P: "pins_ok L h m X i" and M: "ids_ok L h m X" and a: "a \<in> X" and unpinned: "\<not> pinned (h a)"
  shows "pins_ok L (unhooked a h) (smap_erase (cache_id (h a)) m) (X - {a}) i"
proof -
  have "smap_find (smap_erase (cache_id (h a)) m) i = smap_find m i" if v: "id_is_valid L i"
  proof -
    obtain e where e: "smap_find m i = Some e" using P v by (auto simp: pins_ok_def)
    then have "e \<in> {a \<in> X. pinned (h a)}" using P v by (auto simp: pins_ok_def pinned_path_def)
    moreover have "cache_id (h e) = i" using M smap_find_SomeD [OF e] by (auto simp: ids_ok_def)
    moreover have "(cache_id (h a), a) \<in> set m" using M a by (force simp: ids_ok_def)
    ultimately have "i \<noteq> cache_id (h a)"
      using e unpinned M by (metis (no_types, lifting) ids_ok_def mem_Collect_eq option.inject smap_find_iff)
    then show ?thesis using M by (simp add: smap_find_erase ids_ok_def)
  qed
  then have "pinned_path L (unhooked a h) (smap_erase (cache_id (h a)) m) i = pinned_path L h m i"
    by (simp add: pinned_path_def chain_cong [of "unhooked a h" h, OF unhooked_fields(1)] split: option.splits)
  moreover have "{b \<in> X - {a}. pinned (unhooked a h b)} = {b \<in> X. pinned (h b)}"
    using unpinned by (auto simp: unhooked_fields)
  moreover have "id_is_valid L i \<longrightarrow> smap_find (smap_erase (cache_id (h a)) m) i \<noteq> None"
    using P \<open>id_is_valid L i \<Longrightarrow> _\<close> by (simp add: pins_ok_def)
  ultimately show ?thesis using P by (simp add: pins_ok_def)
qed

lemma unhooked_ages:
  assumes I: "cache_inv L c xs" and a: "a \<in> set xs" and leaf: "is_leaf (objs c a)"
    and dy: "dy = (if deepest_youngest_object c = Some a then parent (objs c a) else deepest_youngest_object c)"
  shows "ages_ok (unhooked a (objs c)) dy (removeAll a xs) (minimum_required_creation_time c)"
proof -
  have chain': "chain (unhooked a (objs c)) d = chain (objs c) d" for d
    by (rule chain_cong) (simp add: unhooked_fields)
  note G = cache_invD(8) [OF I, unfolded ages_ok_def]
  have "sorted (map (\<lambda>x. last_used (objs c x)) (removeAll a xs))"
    unfolding removeAll_filter_not_eq by (rule sorted_filter) (use G in simp)
  moreover have "last_opt xs = Some r" if "last_opt (removeAll a xs) = Some r" for r
    using that unhooked_root(1) [OF I a leaf] by (auto split: if_splits)
  moreover have "\<exists>d0. deepest_youngest_object c = Some d0 \<and> set (chain (objs c) d) \<subseteq> set (chain (objs c) d0)"
    if "dy = Some d" for d
    using unhooked_aging_list(2) [OF I a leaf dy that] by blast
  ultimately show ?thesis using G unfolding ages_ok_def chain' unhooked_fields by blast
qed

text \<open>What is left of the core state once \<open>a\<close> has been discarded.\<close>

definition discarded :: "addr \<Rightarrow> 'a cache_scheme \<Rightarrow> 'a cache_scheme" where
  "discarded a c =
     (let next = younger (objs c a); old' = (if oldest_object c = Some a then next else oldest_object c)
      in c\<lparr>objs := unhooked a (objs c), oldest_object := old',
           deepest_youngest_object :=
             (if deepest_youngest_object c = Some a then parent (objs c a) else deepest_youngest_object c),
           total_size := total_size c - object_size (objs c a),
           all_objects := smap_erase (cache_id (objs c a)) (all_objects c),
           root_object := (if old' = None then None else root_object c)\<rparr>)"

lemma discarded_simps [simp]:
  "objs (discarded a c) = unhooked a (objs c)"
  "pinned_object_id (discarded a c) = pinned_object_id c"
  "maximum_age_threshold (discarded a c) = maximum_age_threshold c"
  "memory_limits (discarded a c) = memory_limits c" "count_limits (discarded a c) = count_limits c"
  "gc_running (discarded a c) = gc_running c"
  "total_size (discarded a c) = total_size c - object_size (objs c a)"
  "minimum_required_creation_time (discarded a c) = minimum_required_creation_time c"
  "deepest_youngest_object (discarded a c) =
     (if deepest_youngest_object c = Some a then parent (objs c a) else deepest_youngest_object c)"
  by (simp_all add: discarded_def Let_def)

lemma discarded_inv:
  assumes I: "cache_inv L c xs" and a: "a \<in> set xs" and leaf: "is_leaf (objs c a)"
    and "\<not> pinned (objs c a)"
  shows "cache_inv L (discarded a c) (removeAll a xs)"
proof -
  note A = aging_list_ofD [OF cache_invD(1) [OF I]]
  have next_hd: "(if hd_opt xs = Some a then younger (objs c a) else hd_opt xs) = hd_opt (removeAll a xs)"
    using A(1,2) by (cases xs; cases "tl xs") auto
  have X: "set (removeAll a xs) = set xs - {a}" by simp
  have "root_object (discarded a c) = last_opt (removeAll a xs)"
    unfolding unhooked_root(1) [OF I a leaf] discarded_def Let_def cache_invD(2) [OF I] next_hd
    using cache_invD(3) [OF I] by simp
  moreover have "oldest_object (discarded a c) = hd_opt (removeAll a xs)"
    unfolding discarded_def Let_def cache_invD(2) [OF I] next_hd by simp
  moreover note unhooked_aging_list(1) [OF I a leaf refl] unhooked_root(2) [OF I a leaf]
    unhooked_ages [OF I a leaf refl]
    unhooked_ids [OF cache_invD(5) [OF I] a] unhooked_counts [OF cache_invD(6) [OF I] a finite_set leaf]
    unhooked_pins [OF cache_invD(7,5) [OF I] a assms(4)]
  ultimately show ?thesis
    using cache_invD(9,10) [OF I] unfolding cache_inv_def X by (simp add: discarded_def Let_def)
qed

context lru_client
begin

lemma discard_core:
  "cache.truncate (fst (discard cb a n c)) = cache.truncate (discarded a c)"
  "snd (discard cb a n c) = younger (objs c a)"
proof -
  define h1 where "h1 = fst (unlink_from_aging_list a (objs c))"
  have par: "parent (h1 a) = parent (objs c a)" "object_size (h1 a) = object_size (objs c a)"
      "cache_id (h1 a) = cache_id (objs c a)"
    unfolding h1_def using nolinks_eqD [OF nolinks_unlink_from [of a "objs c" a]] by simp_all
  have u: "unlink_from_aging_list a (objs c) = (h1, younger (objs c a))"
    by (simp add: h1_def prod_eq_iff)
  have h2: "unhooked a (objs c) = (case parent (objs c a) of None \<Rightarrow> h1 | Some p \<Rightarrow> del_child p h1)"
    unfolding unhooked_def h1_def Let_def ..
  show "snd (discard cb a n c) = younger (objs c a)"
    by (simp add: discard_def u Let_def)
  show "cache.truncate (fst (discard cb a n c)) = cache.truncate (discarded a c)"
    unfolding discard_def u Let_def case_prod_conv par fst_conv h2 [symmetric] unhooked_fields
    by (rule truncate_eqI)
      (simp_all add: discarded_def Let_def truncate_eqD [OF removed_frame]
        truncate_eqD [OF last_removed_frame] truncate_eqD [OF obliviate_frame] split: option.splits, auto)
qed

lemma discard_inv:
  assumes "cache_inv L c xs" and "a \<in> set xs" and "is_leaf (objs c a)" and "\<not> pinned (objs c a)"
  shows "cache_inv L (fst (discard cb a n c)) (removeAll a xs)"
  using discarded_inv [OF assms] cache_inv_truncate [OF discard_core(1)] by blast

end

section \<open>The garbage collector\<close>

text \<open>What the collector leaves alone.\<close>

definition gc_frame :: "'a cache_scheme \<Rightarrow> 'a cache_scheme \<Rightarrow> bool" where
  "gc_frame c c' \<longleftrightarrow>
     (\<forall>b. parent (objs c' b) = parent (objs c b) \<and> cache_id (objs c' b) = cache_id (objs c b) \<and>
          object_size (objs c' b) = object_size (objs c b) \<and> pinned (objs c' b) = pinned (objs c b) \<and>
          last_used (objs c' b) = last_used (objs c b)) \<and>
     maximum_age_threshold c' = maximum_age_threshold c \<and> memory_limits c' = memory_limits c \<and>
     count_limits c' = count_limits c \<and> pinned_object_id c' = pinned_object_id c \<and>
     gc_running c' = gc_running c \<and> id_gen c' = id_gen c \<and>
     minimum_required_creation_time c' = minimum_required_creation_time c"

lemma gc_frame_refl [simp]: "gc_frame c c"
  by (simp add: gc_frame_def)

lemma gc_frame_trans: "gc_frame a b \<Longrightarrow> gc_frame b c \<Longrightarrow> gc_frame a c"
  by (simp add: gc_frame_def)

lemma gc_frameD:
  assumes "gc_frame c c'"
  shows "parent (objs c' b) = parent (objs c b)" and "cache_id (objs c' b) = cache_id (objs c b)"
    and "object_size (objs c' b) = object_size (objs c b)" and "pinned (objs c' b) = pinned (objs c b)"
    and "last_used (objs c' b) = last_used (objs c b)"
    and "maximum_age_threshold c' = maximum_age_threshold c" and "memory_limits c' = memory_limits c"
    and "count_limits c' = count_limits c" and "pinned_object_id c' = pinned_object_id c"
    and "gc_running c' = gc_running c" and "id_gen c' = id_gen c"
    and "minimum_required_creation_time c' = minimum_required_creation_time c"
  using assms by (simp_all add: gc_frame_def)

definition expired :: "time_point \<Rightarrow> 'a cache_scheme \<Rightarrow> addr \<Rightarrow> bool" where
  "expired now c a \<longleftrightarrow> get_age now (objs c a) \<ge> max_age_ms c"

lemma expired_frame: "gc_frame c c' \<Longrightarrow> expired now c' = expired now c"
  by (rule ext) (simp add: expired_def get_age_def max_age_ms_def gc_frameD)

lemma gc_frame_discarded: "cache.truncate c' = cache.truncate (discarded a c) \<Longrightarrow> gc_frame c c'"
  using truncate_eqD [of c' "discarded a c"]
  by (simp add: gc_frame_def unhooked_fields discarded_def Let_def)

lemma next_in_list:
  assumes "cache_inv L c (ys @ a # zs)" shows "younger (objs c a) = hd_opt zs"
  using dll_member_links(2) aging_list_ofD(1) [OF cache_invD(1) [OF assms]] by fastforce

context lru_client
begin

lemma discard_frame: "gc_frame c (fst (discard cb a n c))"
  using discard_core(1) by (rule gc_frame_discarded)

lemma discard_candidate:
  assumes I: "cache_inv L c (ys @ a # zs)" and "\<forall>y \<in> set ys. pinned (objs c y)" and "\<not> pinned (objs c a)"
  shows "snd (discard cb a n c) = hd_opt zs"
    and "cache_inv L (fst (discard cb a n c)) (ys @ zs)"
    and "\<forall>y \<in> set ys. pinned (objs (fst (discard cb a n c)) y)"
proof -
  have leaf: "is_leaf (objs c a)" by (rule candidate_is_leaf [OF assms])
  have "a \<notin> set ys" "a \<notin> set zs" using aging_list_ofD(2) [OF cache_invD(1) [OF I]] by auto
  then show "cache_inv L (fst (discard cb a n c)) (ys @ zs)"
    using discard_inv [OF I _ leaf assms(3)] by simp
  show "snd (discard cb a n c) = hd_opt zs"
    using next_in_list [OF I] discard_core(2) [of a n c] by simp
  show "\<forall>y \<in> set ys. pinned (objs (fst (discard cb a n c)) y)"
    using assms(2) gc_frameD(4) [OF discard_frame] by simp
qed

text \<open>A property of the state and of the objects in the cache that every removal of a leaf keeps.\<close>

definition discard_keeps :: "ctx_layout \<Rightarrow> bool \<Rightarrow> ('a cache_scheme \<Rightarrow> addr list \<Rightarrow> bool) \<Rightarrow> bool" where
  "discard_keeps L n Q \<longleftrightarrow> (\<forall>c xs a. cache_inv L c xs \<longrightarrow> a \<in> set xs \<longrightarrow> is_leaf (objs c a) \<longrightarrow> \<not> pinned (objs c a) \<longrightarrow>
     Q c xs \<longrightarrow> Q (fst (discard cb a n c)) (removeAll a xs))"

lemma discard_candidate_keeps:
  assumes "discard_keeps L True Q" and I: "cache_inv L c (ys @ a # zs)" and "\<forall>y \<in> set ys. pinned (objs c y)"
    and "\<not> pinned (objs c a)" and "Q c (ys @ a # zs)"
  shows "Q (fst (discard cb a True c)) (ys @ zs)"
proof -
  have "a \<notin> set ys" "a \<notin> set zs" using aging_list_ofD(2) [OF cache_invD(1) [OF I]] by auto
  then have "removeAll a (ys @ a # zs) = ys @ zs" by simp
  moreover have "Q (fst (discard cb a True c)) (removeAll a (ys @ a # zs))"
    using assms(1) [unfolded discard_keeps_def, rule_format, OF I _ candidate_is_leaf [OF I assms(3,4)] assms(4,5)]
    by (simp del: removeAll.simps removeAll_append)
  ultimately show ?thesis by simp
qed

lemma gc_expire_spec:
  assumes "cache_inv L c (ys @ zs)" and "\<forall>y \<in> set ys. pinned (objs c y)" and "Q c (ys @ zs)" and Q: "discard_keeps L True Q"
  shows "\<exists>c'. gc_expire cb now (hd_opt zs) c = Some (c', hd_opt (dropWhile (expired now c) zs)) \<and>
    gc_frame c c' \<and>
    cache_inv L c' (ys @ filter (\<lambda>a. pinned (objs c a)) (takeWhile (expired now c) zs) @ dropWhile (expired now c) zs) \<and>
    Q c' (ys @ filter (\<lambda>a. pinned (objs c a)) (takeWhile (expired now c) zs) @ dropWhile (expired now c) zs)"
  using assms(1-3)
proof (induction zs arbitrary: ys c)
  case Nil
  then show ?case by (simp add: gc_expire.simps)
next
  case (Cons a zs)
  show ?case
  proof (cases "expired now c a")
    case False
    then have "gc_expire cb now (Some a) c = Some (c, Some a)"
      by (subst gc_expire.simps) (simp add: expired_def)
    with False Cons.prems show ?thesis by simp
  next
    case exp: True
    show ?thesis
    proof (cases "pinned (objs c a)")
      case True
      then have "gc_expire cb now (Some a) c = gc_expire cb now (hd_opt zs) c"
        using exp next_in_list [OF Cons.prems(1)] by (subst gc_expire.simps) (simp add: expired_def)
      moreover have "cache_inv L c ((ys @ [a]) @ zs)" "\<forall>y \<in> set (ys @ [a]). pinned (objs c y)" "Q c ((ys @ [a]) @ zs)"
        using Cons.prems True by simp_all
      ultimately show ?thesis using Cons.IH [of c "ys @ [a]"] exp True by simp
    next
      case False
      let ?c = "fst (discard cb a True c)"
      note D = discard_candidate [OF Cons.prems(1,2) False, of True]
      have "gc_expire cb now (Some a) c = gc_expire cb now (hd_opt zs) ?c"
        using exp False by (subst gc_expire.simps) (simp add: expired_def case_prod_beta D(1))
      moreover have "expired now ?c = expired now c" by (rule expired_frame [OF discard_frame])
      moreover have "(\<lambda>b. pinned (objs ?c b)) = (\<lambda>b. pinned (objs c b))"
        using gc_frameD(4) [OF discard_frame] by blast
      ultimately show ?thesis
        using Cons.IH [OF D(2,3) discard_candidate_keeps [OF Q Cons.prems(1,2) False Cons.prems(3)]] exp False gc_frame_trans [OF discard_frame] by auto
    qed
  qed
qed

lemma discard_shrinks:
  assumes "cache_inv L c (ys @ a # zs)" and "cache_inv L (fst (discard cb a n c)) (ys @ zs)"
  shows "over_hard (fst (discard cb a n c)) \<Longrightarrow> over_hard c"
    and "total_size (fst (discard cb a n c)) \<le> total_size c"
proof -
  have "total_size (fst (discard cb a n c)) \<le> total_size c"
    using truncate_eqD(12) [OF discard_core(1)] by simp
  moreover have "count_objects (fst (discard cb a n c)) \<le> count_objects c"
    using count_members [OF assms(1)] count_members [OF assms(2)] by simp
  ultimately show "total_size (fst (discard cb a n c)) \<le> total_size c"
    "over_hard (fst (discard cb a n c)) \<Longrightarrow> over_hard c"
    by (auto simp: over_hard_def exceeds_hard_def gc_frameD [OF discard_frame])
qed

lemma gc_pressure_spec:
  assumes "cache_inv L c (ys @ zs)" and "\<forall>y \<in> set ys. pinned (objs c y)" and "Q c (ys @ zs)" and Q: "discard_keeps L True Q"
  shows "\<exists>c' us rs. gc_pressure cb (hd_opt zs) c = Some (c', hd_opt rs) \<and> zs = us @ rs \<and> gc_frame c c' \<and>
    cache_inv L c' (ys @ filter (\<lambda>a. pinned (objs c a)) us @ rs) \<and>
    Q c' (ys @ filter (\<lambda>a. pinned (objs c a)) us @ rs) \<and>
    (rs = [] \<or> low_enough c' \<or>
      \<not> over_hard c' \<and> \<not> pinned (objs c (hd rs)) \<and> deepest_youngest_object c' = Some (hd rs)) \<and>
    (over_hard c \<or> deepest_youngest_object c' = deepest_youngest_object c)"
  using assms(1-3)
proof (induction zs arbitrary: ys c)
  case Nil
  then show ?case
    by (intro exI [of _ c] exI [of _ "[]"]) (simp add: gc_pressure.simps)
next
  case (Cons a zs)
  let ?c = "fst (discard cb a True c)"
  consider (low) "low_enough c" | (pinned) "\<not> low_enough c" "pinned (objs c a)"
    | (kill) "\<not> low_enough c" "\<not> pinned (objs c a)" "Some a \<noteq> deepest_youngest_object c \<or> over_hard c"
    | (hot) "\<not> low_enough c" "\<not> pinned (objs c a)" "deepest_youngest_object c = Some a" "\<not> over_hard c"
    by metis
  then show ?case
  proof cases
    case low
    then have "gc_pressure cb (Some a) c = Some (c, Some a)" by (subst gc_pressure.simps) simp
    then show ?thesis
      using low Cons.prems by (intro exI [of _ c] exI [of _ "[]"] exI [of _ "a # zs"]) simp
  next
    case pinned
    then have "gc_pressure cb (Some a) c = gc_pressure cb (hd_opt zs) c"
      using next_in_list [OF Cons.prems(1)] by (subst gc_pressure.simps) simp
    moreover have "cache_inv L c ((ys @ [a]) @ zs)" "\<forall>y \<in> set (ys @ [a]). pinned (objs c y)" "Q c ((ys @ [a]) @ zs)"
      using Cons.prems pinned by simp_all
    ultimately obtain c' us rs where
      "gc_pressure cb (hd_opt (a # zs)) c = Some (c', hd_opt rs)" "zs = us @ rs" "gc_frame c c'"
      "cache_inv L c' ((ys @ [a]) @ filter (\<lambda>a. pinned (objs c a)) us @ rs)"
      "Q c' ((ys @ [a]) @ filter (\<lambda>a. pinned (objs c a)) us @ rs)"
      "rs = [] \<or> low_enough c' \<or>
        \<not> over_hard c' \<and> \<not> pinned (objs c (hd rs)) \<and> deepest_youngest_object c' = Some (hd rs)"
      "over_hard c \<or> deepest_youngest_object c' = deepest_youngest_object c"
      using Cons.IH [of c "ys @ [a]"] by auto
    then show ?thesis
      using pinned(2) by (intro exI [of _ c'] exI [of _ "a # us"] exI [of _ rs]) simp
  next
    case kill
    note D = discard_candidate [OF Cons.prems(1,2) kill(2), of True]
    have run: "gc_pressure cb (hd_opt (a # zs)) c = gc_pressure cb (hd_opt zs) ?c"
      using kill by (subst gc_pressure.simps) (auto simp: case_prod_beta D(1))
    have pin: "pinned (objs ?c b) = pinned (objs c b)" for b by (rule gc_frameD(4) [OF discard_frame])
    obtain c' us rs where *: "gc_pressure cb (hd_opt zs) ?c = Some (c', hd_opt rs)" "zs = us @ rs" "gc_frame ?c c'"
      "cache_inv L c' (ys @ filter (\<lambda>a. pinned (objs c a)) us @ rs)"
      "Q c' (ys @ filter (\<lambda>a. pinned (objs c a)) us @ rs)"
      "rs = [] \<or> low_enough c' \<or>
        \<not> over_hard c' \<and> \<not> pinned (objs c (hd rs)) \<and> deepest_youngest_object c' = Some (hd rs)"
      "over_hard ?c \<or> deepest_youngest_object c' = deepest_youngest_object ?c"
      using Cons.IH [OF D(2,3) discard_candidate_keeps [OF Q Cons.prems(1,2) kill(2) Cons.prems(3)]] unfolding pin by blast
    have "over_hard c \<or> deepest_youngest_object c' = deepest_youngest_object c"
      using *(7) kill(3) discard_shrinks(1) [OF Cons.prems(1) D(2)] truncate_eqD(9) [OF discard_core(1) [of a True c]]
      by auto
    with * run kill(2) gc_frame_trans [OF discard_frame *(3)] show ?thesis
      by (intro exI [of _ c'] exI [of _ "a # us"] exI [of _ rs]) simp
  next
    case hot
    then have "gc_pressure cb (Some a) c = Some (c, Some a)" by (subst gc_pressure.simps) simp
    then show ?thesis
      using hot Cons.prems by (intro exI [of _ c] exI [of _ "[]"] exI [of _ "a # zs"]) simp
  qed
qed

end

lemma skip_pinned_spec:
  "cache_inv L c (ys @ zs) \<Longrightarrow> skip_pinned (objs c) (hd_opt zs) = Some (hd_opt (dropWhile (\<lambda>a. pinned (objs c a)) zs))"
proof (induction zs arbitrary: ys)
  case (Cons a zs)
  then show ?case
    using next_in_list [OF Cons.prems] Cons.IH [of "ys @ [a]"] by (subst skip_pinned.simps) simp
qed (simp add: skip_pinned.simps)

lemma tdiv_mono': "a \<le> a' \<Longrightarrow> 0 < b \<Longrightarrow> tdiv a b \<le> tdiv a' b"
proof (cases "0 \<le> a \<or> a' \<le> 0")
  case True
  assume "a \<le> a'" "0 < b"
  then have "a' \<le> 0 \<Longrightarrow> - a' div b \<le> - a div b" by (intro zdiv_mono1) auto
  with True \<open>a \<le> a'\<close> \<open>0 < b\<close> show ?thesis
    by (cases "a' = 0"; cases "a = 0") (auto simp: tdiv_def sgn_if zdiv_mono1 pos_imp_zdiv_nonneg_iff)
next
  case False
  assume "0 < b"
  with False have "0 \<le> a' div b" "0 \<le> - a div b" by (simp_all add: pos_imp_zdiv_nonneg_iff)
  with False show ?thesis by (simp add: tdiv_def sgn_if)
qed

lemma expired_mono:
  "last_used (objs c a) \<le> last_used (objs c b) \<Longrightarrow> expired now c b \<Longrightarrow> expired now c a"
  using tdiv_mono' [of "now - last_used (objs c b)" "now - last_used (objs c a)" 1000000]
  by (simp add: expired_def get_age_def)

lemma dropWhile_sorted:
  assumes "sorted (map f xs)" and "\<And>a b. f a \<le> f b \<Longrightarrow> P b \<Longrightarrow> P a" and "x \<in> set (dropWhile P xs)"
  shows "\<not> P x"
  using assms(1,3)
proof (induction xs)
  case (Cons y xs)
  then show ?case using assms(2) [of y x] by (cases "P y") auto
qed simp

lemma cache_inv_gc_running [simp]: "cache_inv L (c\<lparr>gc_running := b\<rparr>) xs = cache_inv L c xs"
  by (simp add: cache_inv_def)

definition limits_ok :: "'a cache_scheme \<Rightarrow> bool" where
  "limits_ok c \<longleftrightarrow>
     low_watermark (memory_limits c) \<le> high_watermark (memory_limits c) \<and>
     high_watermark (memory_limits c) \<le> hard_upper_limit (memory_limits c) \<and>
     low_watermark (count_limits c) \<le> high_watermark (count_limits c) \<and>
     high_watermark (count_limits c) \<le> hard_upper_limit (count_limits c)"

lemma limits_order:
  assumes "limits_ok c" shows "low_enough c \<Longrightarrow> \<not> over_soft c" and "over_hard c \<Longrightarrow> over_soft c"
  using assms by (auto simp: limits_ok_def low_enough_def over_soft_def over_hard_def
      is_low_enough_def exceeds_soft_def exceeds_hard_def)

lemma watermark_le: "p \<le> 1000 \<Longrightarrow> watermark m p \<le> m"
proof -
  assume "p \<le> 1000"
  then have "m * p + 500 \<le> m * 1000 + 500" by (simp add: mult_le_mono2)
  then have "(m * p + 500) mod 2 ^ 64 \<le> m * 1000 + 500" by (rule order_trans [OF mod_less_eq_dividend])
  then have "((m * p + 500) mod 2 ^ 64) div 1000 \<le> (m * 1000 + 500) div 1000" by (rule div_le_mono)
  then show ?thesis by (simp add: watermark_def)
qed

lemma watermark_mono:
  "p \<le> q \<Longrightarrow> m * q + 500 < 2 ^ 64 \<Longrightarrow> watermark m p \<le> watermark m q"
proof -
  assume pq: "p \<le> q" and q: "m * q + 500 < 2 ^ 64"
  have le: "m * p + 500 \<le> m * q + 500" using pq by simp
  then have "m * p + 500 < 2 ^ 64" using q by linarith
  with q le show ?thesis unfolding watermark_def by (simp only: mod_less div_le_mono)
qed

text \<open>What a run of the collector has achieved, for the list before and after it.\<close>

definition gc_post :: "time_point \<Rightarrow> 'a cache_scheme \<Rightarrow> addr list \<Rightarrow> 'a cache_scheme \<Rightarrow> addr list \<Rightarrow> int \<Rightarrow> bool" where
  "gc_post now c xs c' xs' t \<longleftrightarrow>
     (\<exists>us rs. xs = us @ rs \<and> xs' = filter (\<lambda>a. pinned (objs c a)) us @ rs) \<and>
     (\<forall>a \<in> set xs'. expired now c' a \<longrightarrow> pinned (objs c' a)) \<and>
     (limits_ok c \<longrightarrow>
        (over_hard c' \<longrightarrow> (\<forall>a \<in> set xs'. pinned (objs c' a))) \<and>
        (over_soft c' \<longrightarrow>
          (\<forall>a \<in> set xs'. \<not> pinned (objs c' a) \<longrightarrow>
             (\<exists>d. deepest_youngest_object c' = Some d \<and> a \<in> set (chain (objs c') d))))) \<and>
     t = (case dropWhile (\<lambda>a. pinned (objs c' a)) xs' of
            [] \<Rightarrow> seconds_max
          | a # _ \<Rightarrow> max 1 (maximum_age_threshold c' * 60 - tdiv (get_age now (objs c' a)) 1000))"

lemma dropWhile_pinned_prefix:
  "\<forall>x \<in> set us. P x \<Longrightarrow> dropWhile P (us @ rs) = dropWhile P rs"
  by (simp add: dropWhile_append)

text \<open>The state after the second phase, whichever way it went.\<close>

lemma gc_limits:
  assumes I: "cache_inv L c' (ps @ rs)" and "\<forall>a \<in> set ps. pinned (objs c' a)" and "limits_ok c'"
    and "\<not> over_soft c' \<or> rs = [] \<or> low_enough c' \<or>
      \<not> over_hard c' \<and> deepest_youngest_object c' = Some (hd rs)"
  shows "over_hard c' \<Longrightarrow> a \<in> set (ps @ rs) \<Longrightarrow> pinned (objs c' a)"
    and "over_soft c' \<Longrightarrow> a \<in> set (ps @ rs) \<Longrightarrow> \<not> pinned (objs c' a) \<Longrightarrow>
      \<exists>d. deepest_youngest_object c' = Some d \<and> a \<in> set (chain (objs c') d)"
proof -
  show "over_hard c' \<Longrightarrow> a \<in> set (ps @ rs) \<Longrightarrow> pinned (objs c' a)"
    using assms(2,4) limits_order [OF assms(3)] by auto
  assume "over_soft c'" and a: "a \<in> set (ps @ rs)" and np: "\<not> pinned (objs c' a)"
  then have "rs \<noteq> []" "a \<in> set rs" using assms(2) by auto
  then have d: "deepest_youngest_object c' = Some (hd rs)"
    using assms(4) limits_order [OF assms(3)] \<open>over_soft c'\<close> by blast
  obtain ys where "ps @ rs = ys @ chain (objs c') (hd rs)"
    using cache_invD(1) [OF I] d by (auto simp: aging_list_of_def)
  moreover obtain r1 where "chain (objs c') (hd rs) = hd rs # r1" using chain_Cons by blast
  moreover obtain r2 where "rs = hd rs # r2" using \<open>rs \<noteq> []\<close> by (cases rs) auto
  ultimately have "ps = ys"
    using aging_list_ofD(2) [OF cache_invD(1) [OF I]]
    by (metis append_Cons_eq_iff distinct.simps(2) distinct_append not_distinct_conv_prefix)
  then show "\<exists>d. deepest_youngest_object c' = Some d \<and> a \<in> set (chain (objs c') d)"
    using \<open>ps @ rs = ys @ chain (objs c') (hd rs)\<close> \<open>a \<in> set rs\<close> d by auto
qed

lemma next_gc_call_eq:
  "next_gc_call now (hd_opt zs) c = (case zs of [] \<Rightarrow> seconds_max
     | a # _ \<Rightarrow> max 1 (maximum_age_threshold c * 60 - tdiv (get_age now (objs c a)) 1000))"
  by (cases zs) (auto simp: next_gc_call_def Let_def)

lemma gc_post_intro:
  assumes I: "cache_inv L c2 (ps @ rs)" and F: "gc_frame (c\<lparr>gc_running := True\<rparr>) c2" and xs: "xs = us @ rs"
    and ps: "ps = filter (\<lambda>a. pinned (objs c a)) us"
    and fresh: "\<And>a. a \<in> set rs \<Longrightarrow> \<not> expired now c a"
    and stop: "\<not> over_soft c2 \<or> rs = [] \<or> low_enough c2 \<or>
      \<not> over_hard c2 \<and> deepest_youngest_object c2 = Some (hd rs)"
  shows "gc_post now c xs (c2\<lparr>gc_running := False\<rparr>) (ps @ rs)
    (next_gc_call now (hd_opt (dropWhile (\<lambda>a. pinned (objs c2 a)) rs)) c2)"
proof -
  have pin: "pinned (objs c2 a) = pinned (objs c a)" for a using gc_frameD(4) [OF F] by simp
  have P: "\<forall>a \<in> set ps. pinned (objs c2 a)" by (simp add: ps pin)
  have "expired now c2 a = expired now c a" for a
    using fun_cong [OF expired_frame [OF F]] by (simp add: expired_def max_age_ms_def)
  then have old: "expired now c2 a \<longrightarrow> pinned (objs c2 a)" if "a \<in> set (ps @ rs)" for a
    using that fresh P by auto
  have lim: "limits_ok c \<longleftrightarrow> limits_ok c2" using gc_frameD(7,8) [OF F] by (simp add: limits_ok_def)
  have flag: "over_hard (c2\<lparr>gc_running := False\<rparr>) = over_hard c2" "over_soft (c2\<lparr>gc_running := False\<rparr>) = over_soft c2"
    "expired now (c2\<lparr>gc_running := False\<rparr>) = expired now c2"
    by (auto simp: over_hard_def over_soft_def count_objects_def expired_def max_age_ms_def fun_eq_iff)
  have fields: "objs (c2\<lparr>gc_running := False\<rparr>) = objs c2"
    "maximum_age_threshold (c2\<lparr>gc_running := False\<rparr>) = maximum_age_threshold c2" by simp_all
  have time: "next_gc_call now (hd_opt (dropWhile (\<lambda>a. pinned (objs c2 a)) rs)) c2 =
      (case dropWhile (\<lambda>a. pinned (objs (c2\<lparr>gc_running := False\<rparr>) a)) (ps @ rs) of [] \<Rightarrow> seconds_max
       | a # _ \<Rightarrow> max 1 (maximum_age_threshold (c2\<lparr>gc_running := False\<rparr>) * 60 -
                    tdiv (get_age now (objs (c2\<lparr>gc_running := False\<rparr>) a)) 1000))"
    unfolding fields dropWhile_pinned_prefix [OF P] next_gc_call_eq ..
  show ?thesis
    unfolding gc_post_def flag lim
  proof (intro conjI)
    show "\<exists>us rs'. xs = us @ rs' \<and> ps @ rs = filter (\<lambda>a. pinned (objs c a)) us @ rs'"
      using xs ps by blast
  qed (rule time | use old gc_limits [OF I P _ stop] in force)+
qed

context lru_client
begin

text \<open>The first phase removes exactly the expired objects that are not pinned.\<close>

lemma gc_expire_all:
  assumes I: "cache_inv L c xs" and "Q c xs" and Q: "discard_keeps L True Q"
  obtains c' where
    "gc_expire cb now (oldest_object c) c = Some (c', hd_opt (dropWhile (expired now c) xs))"
    and "gc_frame c c'"
    and "cache_inv L c' (filter (\<lambda>a. pinned (objs c a)) (takeWhile (expired now c) xs) @ dropWhile (expired now c) xs)"
    and "Q c' (filter (\<lambda>a. pinned (objs c a)) (takeWhile (expired now c) xs) @ dropWhile (expired now c) xs)"
    and "\<And>a. a \<in> set (dropWhile (expired now c) xs) \<Longrightarrow> \<not> expired now c a"
proof -
  have "\<not> expired now c a" if "a \<in> set (dropWhile (expired now c) xs)" for a
    by (rule dropWhile_sorted [OF _ _ that, of "\<lambda>a. last_used (objs c a)"])
      (use cache_invD(8) [OF I] in \<open>auto simp: ages_ok_def dest: expired_mono\<close>)
  moreover obtain c' where "gc_expire cb now (hd_opt xs) c = Some (c', hd_opt (dropWhile (expired now c) xs)) \<and>
    gc_frame c c' \<and>
    cache_inv L c' ([] @ filter (\<lambda>a. pinned (objs c a)) (takeWhile (expired now c) xs) @ dropWhile (expired now c) xs) \<and>
    Q c' ([] @ filter (\<lambda>a. pinned (objs c a)) (takeWhile (expired now c) xs) @ dropWhile (expired now c) xs)"
    using gc_expire_spec [of L c "[]" xs Q now, OF _ _ _ Q] I assms(2) by auto
  ultimately show ?thesis using that cache_invD(2) [OF I] by simp
qed

theorem gc_keeps:
  assumes I: "cache_inv L c xs" and "Q c xs" and Q: "discard_keeps L True Q" and flag: "\<And>c xs b. Q c xs \<Longrightarrow> Q (c\<lparr>gc_running := b\<rparr>) xs"
  shows "\<exists>c' xs' t. gc cb now c = Some (c', t) \<and> cache_inv L c' xs' \<and>
    gc_frame (c\<lparr>gc_running := False\<rparr>) c' \<and> gc_post now c xs c' xs' t \<and> Q c' xs'"
proof -
  let ?c0 = "c\<lparr>gc_running := True\<rparr>"
  let ?fin = "\<lambda>c2 cand2. if oldest_object c2 = None then Some (c2\<lparr>gc_running := False\<rparr>, seconds_max)
       else do {
         cand3 \<leftarrow> skip_pinned (objs c2) cand2;
         Some (c2\<lparr>gc_running := False\<rparr>, next_gc_call now cand3 c2)
       }"
  have e0: "expired now ?c0 = expired now c" by (simp add: expired_def max_age_ms_def fun_eq_iff)
  obtain c1 where G: "gc_expire cb now (oldest_object c) ?c0 = Some (c1, hd_opt (dropWhile (expired now c) xs))"
    and F1: "gc_frame ?c0 c1"
    and I1: "cache_inv L c1 (filter (\<lambda>a. pinned (objs c a)) (takeWhile (expired now c) xs) @ dropWhile (expired now c) xs)"
    and Q1: "Q c1 (filter (\<lambda>a. pinned (objs c a)) (takeWhile (expired now c) xs) @ dropWhile (expired now c) xs)"
    and fresh: "\<And>a. a \<in> set (dropWhile (expired now c) xs) \<Longrightarrow> \<not> expired now c a"
    using gc_expire_all [of L ?c0 xs Q now thesis, OF _ flag [OF assms(2)] Q] I unfolding e0 by simp
  let ?ps = "filter (\<lambda>a. pinned (objs c a)) (takeWhile (expired now c) xs)" and ?zs = "dropWhile (expired now c) xs"
  have pin1: "pinned (objs c1 a) = pinned (objs c a)" for a using gc_frameD(4) [OF F1] by simp
  obtain c2 us rs where Q: "(if over_soft c1 then gc_pressure cb (hd_opt ?zs) c1 else Some (c1, hd_opt ?zs)) = Some (c2, hd_opt rs)"
    and zs: "?zs = us @ rs" and F2: "gc_frame c1 c2"
    and I2: "cache_inv L c2 (?ps @ filter (\<lambda>a. pinned (objs c a)) us @ rs)"
    and Q2: "Q c2 (?ps @ filter (\<lambda>a. pinned (objs c a)) us @ rs)"
    and stop: "\<not> over_soft c2 \<or> rs = [] \<or> low_enough c2 \<or>
      \<not> over_hard c2 \<and> deepest_youngest_object c2 = Some (hd rs)"
  proof (cases "over_soft c1")
    case True
    have "\<forall>y \<in> set ?ps. pinned (objs c1 y)" by (simp add: pin1)
    then obtain c' us rs where
      *: "gc_pressure cb (hd_opt ?zs) c1 = Some (c', hd_opt rs)" "?zs = us @ rs" "gc_frame c1 c'"
        "cache_inv L c' (?ps @ filter (\<lambda>a. pinned (objs c a)) us @ rs)"
        "Q c' (?ps @ filter (\<lambda>a. pinned (objs c a)) us @ rs)"
        "rs = [] \<or> low_enough c' \<or> \<not> over_hard c' \<and> deepest_youngest_object c' = Some (hd rs)"
      using gc_pressure_spec [OF I1 _ Q1 Q] unfolding pin1 by blast
    show thesis by (rule that [OF _ *(2-5)]) (use True *(1,6) in simp_all)
  next
    case False
    then show thesis using that [of c1 "?zs" "[]"] I1 Q1 by simp
  qed
  let ?xs = "(?ps @ filter (\<lambda>a. pinned (objs c a)) us) @ rs"
  let ?t = "next_gc_call now (hd_opt (dropWhile (\<lambda>a. pinned (objs c2 a)) rs)) c2"
  have xs: "xs = (takeWhile (expired now c) xs @ us) @ rs" using zs by (simp flip: zs)
  have "?fin c2 (hd_opt rs) = Some (c2\<lparr>gc_running := False\<rparr>, ?t)"
  proof (cases "?xs = []")
    case True
    then show ?thesis using cache_invD(2) [OF I2] by (simp add: next_gc_call_def)
  next
    case False
    then show ?thesis using cache_invD(2) [OF I2] skip_pinned_spec [of L c2 "?ps @ filter (\<lambda>a. pinned (objs c a)) us" rs] I2
      by (auto simp: Let_def)
  qed
  then have "gc cb now c = Some (c2\<lparr>gc_running := False\<rparr>, ?t)"
    using G Q by (simp add: gc_def)
  moreover have "gc_post now c xs (c2\<lparr>gc_running := False\<rparr>) ?xs ?t"
    by (rule gc_post_intro [OF _ gc_frame_trans [OF F1 F2] xs _ _ stop]) (use I2 fresh zs in auto)
  moreover have "gc_frame (c\<lparr>gc_running := False\<rparr>) (c2\<lparr>gc_running := False\<rparr>)"
    using gc_frame_trans [OF F1 F2] by (simp add: gc_frame_def)
  moreover have "Q (c2\<lparr>gc_running := False\<rparr>) ?xs" using flag [OF Q2] by simp
  ultimately show ?thesis using I2 by (intro exI [of _ "c2\<lparr>gc_running := False\<rparr>"] exI [of _ ?xs]) simp
qed

lemma gc_spec:
  assumes "cache_inv L c xs"
  shows "\<exists>c' xs' t. gc cb now c = Some (c', t) \<and> cache_inv L c' xs' \<and>
    gc_frame (c\<lparr>gc_running := False\<rparr>) c' \<and> gc_post now c xs c' xs' t"
  using gc_keeps [OF assms, of "\<lambda>_ _. True"] by (auto simp: discard_keeps_def)

end

section \<open>What discarding keeps, the collector keeps\<close>

lemma gc_expire_preserves:
  fixes P :: "'a cache_scheme \<Rightarrow> bool"
  assumes "\<And>a c. P c \<Longrightarrow> P (fst (discard cb a True c))"
  shows "gc_expire cb now cand c = Some r \<Longrightarrow> P c \<Longrightarrow> P (fst r)"
proof -
  have "(\<forall>a c. P c \<longrightarrow> P (fst (discard cb' a True c))) \<longrightarrow> P c \<longrightarrow> P (fst r)"
    if "gc_expire cb' now cand c = Some r" for cb'
  proof (rule gc_expire.raw_induct [of "\<lambda>cb' now cand c r.
      (\<forall>a c. P c \<longrightarrow> P (fst (discard cb' a True c))) \<longrightarrow> P c \<longrightarrow> P (fst r)", OF _ that])
    fix f now cand r and cb' :: "'a cache_scheme lru_callbacks" and c :: "'a cache_scheme"
    assume 1: "\<And>cb' now cand c r. f cb' now cand c = Some r \<Longrightarrow>
        (\<forall>a c. P c \<longrightarrow> P (fst (discard cb' a True c))) \<longrightarrow> P c \<longrightarrow> P (fst r)"
      "(case cand of None \<Rightarrow> Some (c, None)
        | Some a \<Rightarrow> if max_age_ms c \<le> get_age now (objs c a)
            then if \<not> pinned (objs c a)
              then case discard cb' a True c of (c', next) \<Rightarrow> f cb' now next c'
              else f cb' now (younger (objs c a)) c
            else Some (c, Some a)) = Some r"
    show "(\<forall>a c. P c \<longrightarrow> P (fst (discard cb' a True c))) \<longrightarrow> P c \<longrightarrow> P (fst r)"
    proof (cases cand)
      case None
      then have "r = (c, None)" using 1(2) by simp
      then show ?thesis by simp
    next
      case (Some a)
      consider "r = (c, Some a)" | "f cb' now (younger (objs c a)) c = Some r"
        | "f cb' now (snd (discard cb' a True c)) (fst (discard cb' a True c)) = Some r"
        using 1(2) [unfolded Some option.case case_prod_beta] by (metis (no_types, lifting) option.inject)
      then show ?thesis
      proof cases
        case 2
        from 1(1) [OF this] show ?thesis .
      next
        case 3
        from 1(1) [OF this] show ?thesis by blast
      qed simp
    qed
  qed
  then show "gc_expire cb now cand c = Some r \<Longrightarrow> P c \<Longrightarrow> P (fst r)" using assms by blast
qed

lemma gc_pressure_preserves:
  fixes P :: "'a cache_scheme \<Rightarrow> bool"
  assumes "\<And>a c. P c \<Longrightarrow> P (fst (discard cb a True c))"
  shows "gc_pressure cb cand c = Some r \<Longrightarrow> P c \<Longrightarrow> P (fst r)"
proof -
  have "(\<forall>a c. P c \<longrightarrow> P (fst (discard cb' a True c))) \<longrightarrow> P c \<longrightarrow> P (fst r)"
    if "gc_pressure cb' cand c = Some r" for cb'
  proof (rule gc_pressure.raw_induct [of "\<lambda>cb' cand c r.
      (\<forall>a c. P c \<longrightarrow> P (fst (discard cb' a True c))) \<longrightarrow> P c \<longrightarrow> P (fst r)", OF _ that])
    fix f cand r and cb' :: "'a cache_scheme lru_callbacks" and c :: "'a cache_scheme"
    assume 1: "\<And>cb' cand c r. f cb' cand c = Some r \<Longrightarrow>
        (\<forall>a c. P c \<longrightarrow> P (fst (discard cb' a True c))) \<longrightarrow> P c \<longrightarrow> P (fst r)"
      "(case cand of None \<Rightarrow> Some (c, None)
        | Some a \<Rightarrow> if low_enough c then Some (c, Some a)
            else if pinned (objs c a) then f cb' (younger (objs c a)) c
            else if Some a \<noteq> deepest_youngest_object c \<or> over_hard c
              then case discard cb' a True c of (c', next) \<Rightarrow> f cb' next c'
            else Some (c, Some a)) = Some r"
    show "(\<forall>a c. P c \<longrightarrow> P (fst (discard cb' a True c))) \<longrightarrow> P c \<longrightarrow> P (fst r)"
    proof (cases cand)
      case None
      then have "r = (c, None)" using 1(2) by simp
      then show ?thesis by simp
    next
      case (Some a)
      consider "r = (c, Some a)" | "f cb' (younger (objs c a)) c = Some r"
        | "f cb' (snd (discard cb' a True c)) (fst (discard cb' a True c)) = Some r"
        using 1(2) [unfolded Some option.case case_prod_beta] by (metis (no_types, lifting) option.inject)
      then show ?thesis
      proof cases
        case 2
        from 1(1) [OF this] show ?thesis .
      next
        case 3
        from 1(1) [OF this] show ?thesis by blast
      qed simp
    qed
  qed
  then show "gc_pressure cb cand c = Some r \<Longrightarrow> P c \<Longrightarrow> P (fst r)" using assms by blast
qed

lemma gc_preserves:
  assumes run: "gc cb now c = Some (c', t)" and "P c" and step: "\<And>a c. P c \<Longrightarrow> P (fst (discard cb a True c))"
    and flag: "\<And>c b. P c \<Longrightarrow> P (c\<lparr>gc_running := b\<rparr>)"
  shows "P c'"
proof -
  obtain r1 where r1: "gc_expire cb now (oldest_object c) (c\<lparr>gc_running := True\<rparr>) = Some r1"
    using run by (auto simp: gc_def split: Option.bind_splits)
  have P1: "P (fst r1)" by (rule gc_expire_preserves [of P cb now _ _ r1, OF _ r1 flag [OF assms(2)]]) (rule step)
  obtain r2 where r2: "(if over_soft (fst r1) then gc_pressure cb (snd r1) (fst r1) else Some r1) = Some r2"
    "c' = (fst r2)\<lparr>gc_running := False\<rparr>"
    using run r1 by (auto simp: gc_def case_prod_beta split: Option.bind_splits if_splits)
  have "P (fst r2)"
    using r2(1) P1 gc_pressure_preserves [of P cb "snd r1" "fst r1" r2] step by (auto split: if_splits)
  then show ?thesis unfolding r2(2) by (rule flag)
qed

end
