(* ===== verification/Lru_Insert.thy ===== *)
theory Lru_Insert
  imports Lru_Gc
begin

text \<open>
  Insertion of objects (\<^verbatim>\<open>LRU::Cache::insert()\<close> and \<^verbatim>\<open>insert_again()\<close>), changes of
  object sizes, and pinning: each ends, keeps the invariant and does what it promises.
\<close>

section \<open>Hooking a new object into list, map and counters\<close>

text \<open>The heap after \<open>e\<close> got its ID and its size and was put in front of its parent.\<close>

definition hooked :: "addr \<Rightarrow> list_id \<Rightarrow> nat \<Rightarrow> addr \<Rightarrow> heap \<Rightarrow> heap" where
  "hooked e i sz p h = set_size e sz (fst (insert_before e (Some p) (set_id e i (add_child p h))))"

lemma hooked_fields:
  assumes "e \<noteq> p"
  shows "parent (hooked e i sz p h a) = parent (h a)"
    and "cache_id (hooked e i sz p h a) = (if a = e then i else cache_id (h a))"
    and "object_size (hooked e i sz p h a) = (if a = e then sz else object_size (h a))"
    and "pinned (hooked e i sz p h a) = pinned (h a)"
    and "last_used (hooked e i sz p h a) = last_used (h a)"
    and "children_count (hooked e i sz p h a) = children_count (h a) + (if a = p then 1 else 0)"
  using assms nolinks_eqD [OF nolinks_insert_before [of e "Some p" "set_id e i (add_child p h)" a]]
  by (auto simp: hooked_def set_size_def) (auto simp: heap_simps split: if_splits)

lemma hooked_links:
  assumes "dll h None (us @ p # vs) None" and "distinct (us @ p # vs)" and "e \<notin> set (us @ p # vs)"
  shows "dll (hooked e i sz p h) None (us @ e # p # vs) None"
    and "snd (insert_before e (Some p) (set_id e i (add_child p h))) \<longleftrightarrow> us = []"
proof -
  have D: "dll (set_id e i (add_child p h)) None (us @ p # vs) None"
    by (rule dll_transfer [OF assms(1)]) (auto simp: heap_simps)
  show "dll (hooked e i sz p h) None (us @ e # p # vs) None"
    by (rule dll_transfer [OF insert_before_links(1) [OF D assms(2,3)]])
      (auto simp: hooked_def set_size_def)
  show "snd (insert_before e (Some p) (set_id e i (add_child p h))) \<longleftrightarrow> us = []"
    by (rule insert_before_links(2) [OF D assms(2,3)])
qed

lemma parents_after_insert:
  "parents_after h (us @ vs) \<Longrightarrow> (\<And>p. parent (h e) = Some p \<Longrightarrow> p \<in> set vs) \<Longrightarrow>
   parents_after h (us @ e # vs)"
  by (induction us) auto

lemma set_smap_insert:
  "smap_ok m \<Longrightarrow> smap_find m k = None \<Longrightarrow> set (smap_insert k v m) = insert (k, v) (set m)"
  by (induction m) (auto split: if_splits)

lemma hooked_ids:
  assumes "ids_ok L h m X" and "e \<notin> X" and "smap_find m i = None" and "id_is_valid L i" and "e \<noteq> p"
  shows "ids_ok L (hooked e i sz p h) (smap_insert i e m) (insert e X)"
proof -
  have M: "smap_ok m" "snd ` set m = X" "\<And>j b. (j, b) \<in> set m \<Longrightarrow> cache_id (h b) = j \<and> id_is_valid L j"
    using assms(1) by (auto simp: ids_ok_def)
  have "b \<noteq> e" if "(j, b) \<in> set m" for j b using that M(2) assms(2) by force
  then show ?thesis
    using M assms(4) by (auto simp: ids_ok_def set_smap_insert [OF M(1) assms(3)] hooked_fields [OF assms(5)])
qed

lemma hooked_counts:
  assumes C: "counts_ok h X n" and "finite X" and "e \<notin> X" and "p \<in> X" and "parent (h e) = Some p"
    and "children_count (h e) = 0" and closed: "\<And>b. b \<in> X \<Longrightarrow> parent (h b) \<noteq> Some e"
  shows "counts_ok (hooked e i sz p h) (insert e X) (n + sz)"
proof -
  have ep: "e \<noteq> p" using assms(3,4) by blast
  have "(\<Sum>a \<in> X. object_size (hooked e i sz p h a)) = (\<Sum>a \<in> X. object_size (h a))"
    by (rule sum.cong) (use assms(3) in \<open>auto simp: hooked_fields [OF ep]\<close>)
  then have "n + sz = (\<Sum>a \<in> insert e X. object_size (hooked e i sz p h a))"
    using C assms(2,3) by (simp add: counts_ok_def hooked_fields [OF ep])
  moreover have "children_count (hooked e i sz p h a) = card {b \<in> insert e X. parent (hooked e i sz p h b) = Some a}"
    if a: "a \<in> insert e X" for a
  proof -
    let ?K = "{b \<in> X. parent (h b) = Some a}"
    have K: "{b \<in> insert e X. parent (h b) = Some a} = (if a = p then insert e ?K else ?K)"
      using assms(5) by auto
    have "children_count (h a) = card ?K"
    proof (cases "a = e")
      case True
      then have "?K = {}" using closed by auto
      then show ?thesis using True assms(6) by (simp only: card.empty)
    qed (use C a in \<open>simp add: counts_ok_def\<close>)
    then show ?thesis using assms(2,3) unfolding hooked_fields [OF ep] K by simp
  qed
  ultimately show ?thesis by (simp add: counts_ok_def)
qed

lemma hooked_pins:
  assumes P: "pins_ok L h m X j" and "smap_ok m" and "e \<notin> X" and "smap_find m i = None"
    and "\<not> pinned (h e)" and ep: "e \<noteq> p"
  shows "pins_ok L (hooked e i sz p h) (smap_insert i e m) (insert e X) j"
proof -
  have find: "smap_find (smap_insert i e m) j = smap_find m j" if "id_is_valid L j"
    using P that assms(2,4) by (auto simp: smap_find_insert pins_ok_def)
  then have "pinned_path L (hooked e i sz p h) (smap_insert i e m) j = pinned_path L h m j"
    by (simp add: pinned_path_def chain_cong [of "hooked e i sz p h" h, OF hooked_fields(1) [OF ep]]
        split: option.splits)
  moreover have "{a \<in> insert e X. pinned (hooked e i sz p h a)} = {a \<in> X. pinned (h a)}"
    using assms(5) by (auto simp: hooked_fields [OF ep])
  ultimately show ?thesis using P find by (simp add: pins_ok_def)
qed

text \<open>The state once the new object is in, before anybody is notified.\<close>

definition inserted :: "addr \<Rightarrow> list_id \<Rightarrow> id_generator \<Rightarrow> nat \<Rightarrow> addr \<Rightarrow> 'a cache_scheme \<Rightarrow> 'a cache_scheme" where
  "inserted e i g sz p c =
     c\<lparr>id_gen := g, all_objects := smap_insert i e (all_objects c),
       minimum_required_creation_time := last_used (objs c e),
       oldest_object := (if snd (insert_before e (Some p) (set_id e i (add_child p (objs c))))
                         then Some e else oldest_object c),
       deepest_youngest_object := Some (if last_used (objs c e) = last_used (objs c p) then e else p),
       objs := hooked e i sz p (objs c), total_size := total_size c + sz\<rparr>"

lemma sorted_const: "sorted (map (\<lambda>_. now :: int) xs)"
  by (induction xs) auto

lemma hooked_ages:
  assumes "sorted (map (\<lambda>a. last_used (h a)) us)" and "\<And>a. a \<in> set us \<Longrightarrow> last_used (h a) \<le> last_used (h e)"
    and "\<And>a. a \<in> set (chain h p) \<Longrightarrow> last_used (h a) = now" and "last_used (h e) \<le> now"
    and po: "parents_older h" and par: "parent (h e) = Some p"
  shows "ages_ok (hooked e i sz p h) (Some (if last_used (h e) = last_used (h p) then e else p))
    (us @ e # chain h p) (last_used (h e))"
proof -
  have "p < e" using po par by (simp add: parents_older_def)
  then have ep: "e \<noteq> p" by simp
  have "map (\<lambda>a. last_used (h a)) (chain h p) = map (\<lambda>_. now) (chain h p)" using assms(3) by simp
  moreover have "sorted (map (\<lambda>_. now) (chain h p))" by (rule sorted_const)
  ultimately have "sorted (map (\<lambda>a. last_used (h a)) (chain h p))" by (simp only:)
  then have S: "sorted (map (\<lambda>a. last_used (h a)) (us @ e # chain h p))"
    using assms(1-4) by (force simp: sorted_append)
  have R: "last_opt (us @ e # chain h p) = Some (last (chain h p))"
    using last_opt_append [of "us @ [e]" "chain h p"] by (simp add: last_opt_chain)
  have P: "last_used (h (last (chain h p))) = now" "last_used (h p) = now"
    using assms(3) last_in_set [OF chain_nonempty] chain_self by blast+
  have C: "set (chain h e) = insert e (set (chain h p))" by (simp add: chain_step [OF po par])
  show ?thesis
    unfolding ages_ok_def hooked_fields [OF ep] chain_cong [of "hooked e i sz p h" h, OF hooked_fields(1) [OF ep]] R
    using S P C assms(3,4) by auto
qed

lemma inserted_inv:
  assumes I: "cache_inv L c xs" and xs: "xs = us @ chain (objs c) p" and e: "e \<notin> set xs"
    and new: "objs c e = mk_entry (Some p) t"
    and "smap_find (all_objects c) i = None" and "id_is_valid L i" and "generator_ok L g"
    and "\<And>a. a \<in> set us \<Longrightarrow> last_used (objs c a) \<le> t"
    and "\<And>a. a \<in> set (chain (objs c) p) \<Longrightarrow> last_used (objs c a) = now" and "t \<le> now"
  shows "cache_inv L (inserted e i g sz p c) (us @ e # chain (objs c) p)"
proof -
  let ?h = "objs c" and ?h' = "hooked e i sz p (objs c)"
  note A = aging_list_ofD [OF cache_invD(1) [OF I]]
  have N: "parent (?h e) = Some p" "children_count (?h e) = 0" "\<not> pinned (?h e)" "last_used (?h e) = t"
    by (simp_all add: new mk_entry_def)
  have pe: "p < e" using A(3) N(1) by (simp add: parents_older_def)
  then have ep: "e \<noteq> p" by simp
  have p: "p \<in> set xs" using xs by simp
  obtain vs where vs: "chain ?h p = p # vs" using chain_Cons by blast
  have chain': "chain ?h' a = chain ?h a" for a by (rule chain_cong) (rule hooked_fields(1) [OF ep])
  have ins: "set (us @ e # chain ?h p) = insert e (set xs)" using xs by auto
  have L: "dll ?h' None (us @ e # chain ?h p) None"
    "snd (insert_before e (Some p) (set_id e i (add_child p ?h))) \<longleftrightarrow> us = []"
    using hooked_links [of ?h us p vs e i] A(1,2) e xs vs by simp_all
  have "parents_after ?h (us @ e # chain ?h p)"
    using parents_after_insert [of ?h us "chain ?h p" e] A(4) xs N(1) by simp
  then have "parents_after ?h' (us @ e # chain ?h p)"
    using parents_after_cong [of _ ?h' ?h] hooked_fields(1) [OF ep] by blast
  moreover have "parents_older ?h'" using parents_older_cong [of ?h' ?h] hooked_fields(1) [OF ep] A(3) by blast
  moreover have "\<exists>ys. us @ e # chain ?h p = ys @ chain ?h (if b then e else p)" for b
    by (cases b) (auto simp: chain_step [OF A(3) N(1)] intro: exI [of _ "us @ [e]"])
  ultimately have "aging_list_of ?h' (deepest_youngest_object (inserted e i g sz p c)) (us @ e # chain ?h p)"
    using L A(2) e xs by (simp add: aging_list_of_def chain' inserted_def)
  moreover have "roots_ok ?h' (us @ e # chain ?h p)"
  proof -
    have last: "last_opt (us @ e # chain ?h p) = last_opt xs"
      using last_opt_append [of "us @ [e]" "chain ?h p"] last_opt_append [of us "chain ?h p"] xs by simp
    have "last_opt xs \<noteq> Some e" using e last_opt_mem by fast
    then show ?thesis
      using cache_invD(4) [OF I] N(1) unfolding roots_ok_def hooked_fields [OF ep] ins last by simp
  qed
  moreover have "ids_ok L ?h' (smap_insert i e (all_objects c)) (insert e (set xs))"
    by (rule hooked_ids [OF cache_invD(5) [OF I] e assms(5,6) ep])
  moreover have "counts_ok ?h' (insert e (set xs)) (total_size c + sz)"
    by (rule hooked_counts [OF cache_invD(6) [OF I] finite_set e p N(1,2)])
      (use e parents_after_member [OF A(4)] in blast)
  moreover have "pins_ok L ?h' (smap_insert i e (all_objects c)) (insert e (set xs)) (pinned_object_id c)"
    by (rule hooked_pins [OF cache_invD(7) [OF I] _ e assms(5) N(3) ep])
      (use cache_invD(5) [OF I] in \<open>simp add: ids_ok_def\<close>)
  moreover have "ages_ok ?h' (Some (if last_used (?h e) = last_used (?h p) then e else p))
      (us @ e # chain ?h p) (last_used (?h e))"
    by (rule hooked_ages [OF _ _ assms(9) _ A(3) N(1)])
      (use cache_invD(8) [OF I] assms(8,10) N(4) xs in \<open>auto simp: ages_ok_def sorted_append\<close>)
  moreover have "root_object c = last_opt (us @ e # chain ?h p)"
    using cache_invD(3) [OF I] xs last_opt_append [of us "chain ?h p"] last_opt_append [of "us @ [e]" "chain ?h p"] by simp
  moreover have "(if us = [] then Some e else oldest_object c) = hd_opt (us @ e # chain ?h p)"
    using cache_invD(2) [OF I] xs by (simp add: hd_opt_append)
  ultimately show ?thesis
    using assms(7) cache_invD(10) [OF I] L(2) unfolding cache_inv_def ins by (simp add: inserted_def)
qed

section \<open>Notifications that may start the garbage collector\<close>

text \<open>What the objects of a cache may have suffered when a collector may have run.\<close>

definition evicts :: "'a cache_scheme \<Rightarrow> addr list \<Rightarrow> 'a cache_scheme \<Rightarrow> addr list \<Rightarrow> bool" where
  "evicts c xs c' xs' \<longleftrightarrow> gc_frame c c' \<and> set xs' \<subseteq> set xs \<and>
     (\<forall>a \<in> set xs. pinned (objs c a) \<longrightarrow> a \<in> set xs')"

lemma evicts_refl [simp]: "evicts c xs c xs"
  by (simp add: evicts_def)

lemma evicts_trans: "evicts a xs b ys \<Longrightarrow> evicts b ys c zs \<Longrightarrow> evicts a xs c zs"
  using gc_frame_trans gc_frameD(4) unfolding evicts_def by (metis subset_trans)

locale lru_user = lru_client cb for cb :: "'a cache_scheme lru_callbacks" +
  fixes L :: ctx_layout
  assumes first_inserted_ok:
      "cache_inv L c xs \<Longrightarrow> \<not> gc_running c \<Longrightarrow>
       \<exists>c' xs'. notify_first_object_inserted cb c = Some c' \<and> cache_inv L c' xs' \<and> evicts c xs c' xs'"
    and gc_needed_ok:
      "cache_inv L c xs \<Longrightarrow> \<not> gc_running c \<Longrightarrow>
       \<exists>c' xs'. notify_garbage_collection_needed cb c = Some c' \<and> cache_inv L c' xs' \<and> evicts c xs c' xs'"

lemma gc_post_evicts:
  assumes "gc_post now c xs c' xs' t" and "gc_frame (c\<lparr>gc_running := False\<rparr>) c'" and "\<not> gc_running c"
  shows "evicts c xs c' xs'"
proof -
  obtain us rs where "xs = us @ rs" "xs' = filter (\<lambda>a. pinned (objs c a)) us @ rs"
    using assms(1) by (auto simp: gc_post_def)
  moreover have "gc_frame c c'" using assms(2,3) by (simp add: gc_frame_def)
  ultimately show ?thesis by (auto simp: evicts_def)
qed

context lru_client
begin

lemma gc_evicts:
  assumes "cache_inv L c xs" and "\<not> gc_running c"
  shows "\<exists>c' xs' t. gc cb now c = Some (c', t) \<and> cache_inv L c' xs' \<and> evicts c xs c' xs'"
  using gc_spec [OF assms(1)] gc_post_evicts assms(2) by blast

end

context lru_user
begin

lemma insert_notify:
  assumes I: "cache_inv L c xs" and "\<not> gc_running c"
  obtains c' xs' where "do {
       c2 \<leftarrow> (if count_objects c = 1 then notify_first_object_inserted cb c else Some c);
       c3 \<leftarrow> (if exceeds_soft (memory_limits c2) (total_size c2) \<or>
                  exceeds_soft (count_limits c2) (count_objects c2)
               then notify_garbage_collection_needed cb c2 else Some c2);
       Some (c3, i :: list_id)
     } = Some (c', i)"
    and "cache_inv L c' xs'" and "evicts c xs c' xs'"
    and "count_objects c \<noteq> 1 \<Longrightarrow> \<not> over_soft c \<Longrightarrow> c' = c \<and> xs' = xs"
proof -
  obtain c2 ys where c2: "(if count_objects c = 1 then notify_first_object_inserted cb c else Some c) = Some c2"
    "cache_inv L c2 ys" "evicts c xs c2 ys" "count_objects c \<noteq> 1 \<Longrightarrow> c2 = c \<and> ys = xs"
    using first_inserted_ok [OF assms] I by (cases "count_objects c = 1") auto
  then have run: "\<not> gc_running c2" using assms(2) by (simp add: evicts_def gc_frame_def)
  obtain c3 zs where c3: "(if over_soft c2 then notify_garbage_collection_needed cb c2 else Some c2) = Some c3"
    "cache_inv L c3 zs" "evicts c2 ys c3 zs" "\<not> over_soft c2 \<Longrightarrow> c3 = c2 \<and> zs = ys"
    using gc_needed_ok [OF c2(2) run] c2(2) by (cases "over_soft c2") auto
  show ?thesis
    by (rule that [of c3 zs]) (use c2 c3 evicts_trans [OF c2(3) c3(3)] in \<open>auto simp: over_soft_def\<close>)
qed

end

section \<open>Inserting below a cached parent\<close>

lemma insert_finish_eq:
  assumes "generator_next L (\<lambda>i. smap_find (all_objects c) i = None) (id_gen c) cmode ctx = Some (i, g)"
    and "parent (objs c e) = Some p" and "e \<noteq> p"
    and "c4 = c\<lparr>objs := add_child p (objs c),
      deepest_youngest_object := Some (if last_used (objs c e) = last_used (objs c p) then e else p)\<rparr>"
    and "c1 = inserted e i g sz p c"
  shows "insert_finish L cb e cmode ctx sz c4 = do {
       c2 \<leftarrow> (if count_objects c1 = 1 then notify_first_object_inserted cb c1 else Some c1);
       c3 \<leftarrow> (if exceeds_soft (memory_limits c2) (total_size c2) \<or>
                  exceeds_soft (count_limits c2) (count_objects c2)
               then notify_garbage_collection_needed cb c2 else Some c2);
       Some (c3, i)
     }"
proof -
  let ?h1 = "set_id e i (add_child p (objs c))"
  have h1: "parent (?h1 e) = Some p" "last_used (?h1 e) = last_used (objs c e)"
    using assms(2,3) by (auto simp: heap_simps)
  have g: "generator_next L (\<lambda>i. smap_find (all_objects c4) i = None) (id_gen c4) cmode ctx = Some (i, g)"
    using assms(1,4) by simp
  have "c4\<lparr>id_gen := g, all_objects := smap_insert i e (all_objects c4),
       minimum_required_creation_time := last_used (set_id e i (objs c4) e),
       oldest_object := (if snd (insert_before e (parent (set_id e i (objs c4) e)) (set_id e i (objs c4)))
                         then Some e else oldest_object c4),
       objs := set_size e sz (fst (insert_before e (parent (set_id e i (objs c4) e)) (set_id e i (objs c4)))),
       total_size := total_size c4 + sz\<rparr> = c1"
    using h1 assms(4,5) by (simp add: inserted_def hooked_def)
  then show ?thesis unfolding insert_finish_def g by (simp add: Let_def case_prod_beta)
qed

lemma new_id:
  assumes "generator_ok L g" and "ctx_layout_ok L" and "some_free L free g mode ctx"
  obtains i g' where "generator_next L free g mode ctx = Some (i, g')" and "free i"
    and "id_is_valid L i" and "generator_ok L g'"
    and "\<exists>r. i = make_list_id L r mode ctx \<and> r \<le> VALUE_MASK L"
proof (cases rule: generator_next_cases [OF assms(1), of free mode ctx])
  case (1 r g')
  have "r \<le> VALUE_MASK L" using 1(4) generator_okD(3) [OF assms(1)] by (rule order_trans)
  moreover have "0 < r" using generator_okD(1) [OF assms(1)] 1(3) by (rule less_le_trans)
  ultimately have "id_is_valid L (make_list_id L r mode ctx)" by (intro make_list_id_valid [OF assms(2)])
  with 1 \<open>r \<le> VALUE_MASK L\<close> that show ?thesis by blast
next
  case 2
  with assms(3) show ?thesis by blast
qed

context lru_user
begin

lemma insert_child_spec:
  assumes I: "cache_inv L c xs" and p: "p \<in> set xs" and e: "e \<notin> set xs"
    and new: "objs c e = mk_entry (Some p) t"
    and T: "minimum_required_creation_time c < now" "used_before c t" "t \<le> now"
    and free: "some_free L (\<lambda>i. smap_find (all_objects c) i = None) (id_gen c) cmode ctx"
    and run: "\<not> gc_running c"
  defines "ys \<equiv> filter (\<lambda>a. a \<notin> set (chain (objs c) p)) xs @ e # chain (objs c) p"
  obtains c1 i c' xs' where "insert_entry L cb now e cmode ctx sz c = Some (c', i)"
    and "id_is_valid L i" and "lookup c i = None" and "lookup c1 i = Some e" and "cache_inv L c1 ys"
    and "cache_inv L c' xs'" and "evicts c1 ys c' xs'"
    and "count_objects c1 \<noteq> 1 \<Longrightarrow> \<not> over_soft c1 \<Longrightarrow> c' = c1"
    and "total_size c1 = total_size c + sz" and "\<not> pinned (objs c1 e)" and "parent (objs c1 e) = Some p"
    and "\<And>a. a \<noteq> e \<Longrightarrow> cache_id (objs c1 a) = cache_id (objs c a) \<and> pinned (objs c1 a) = pinned (objs c a)"
    and "used_before c1 now" and "minimum_required_creation_time c1 = t" and "\<not> gc_running c1"
proof -
  let ?h = "objs c"
  note A = aging_list_ofD [OF cache_invD(1) [OF I]]
  have pe: "p < e" using A(3) new by (auto simp: parents_older_def mk_entry_def)
  have Tn: "used_before c now" using T(2,3) by (fastforce simp: used_before_def)
  have Tt: "last_used (?h a) \<le> t" if "a \<in> set xs" for a using T(2) used_before_iff [OF I] that by blast
  obtain h' where U: "use_entry now p c =
      (c\<lparr>objs := h', oldest_object := hd_opt (moved_to_end ?h p xs), deepest_youngest_object := Some p\<rparr>,
       int (length (chain ?h p)) - 1)"
    and N: "\<And>a. nolinks (h' a) = nolinks (touched ?h p now a)"
    and fr: "\<And>a. a \<notin> set xs \<Longrightarrow> h' a = ?h a"
    and I1: "cache_inv L (fst (use_entry now p c)) (moved_to_end ?h p xs)"
    using use_entry_inv [OF I p T(1) Tn] by metis
  define cu where "cu = fst (use_entry now p c)"
  have cu: "cu = c\<lparr>objs := h', oldest_object := hd_opt (moved_to_end ?h p xs), deepest_youngest_object := Some p\<rparr>"
    by (simp add: cu_def U)
  note F = touched_fields [of h' _ ?h p now, OF N]
  have chain': "chain h' a = chain ?h a" for a by (rule chain_cong) (rule F(1))
  obtain i g where G: "generator_next L (\<lambda>i. smap_find (all_objects c) i = None) (id_gen c) cmode ctx = Some (i, g)"
      "smap_find (all_objects c) i = None" "id_is_valid L i" "generator_ok L g"
    using new_id [OF cache_invD(9,10) [OF I] free] by metis
  have e': "h' e = mk_entry (Some p) t" using fr [OF e] new by simp
  have lu: "last_used (h' a) \<le> t" if "a \<in> set (filter (\<lambda>a. a \<notin> set (chain ?h p)) xs)" for a
    using that Tt by (simp add: F(6))
  define c1 where "c1 = inserted e i g sz p cu"
  have "e \<notin> set (chain ?h p)" using chain_members [OF I p] e by blast
  then have I2: "cache_inv L c1 ys"
    using inserted_inv [OF I1 [folded cu_def], of "filter (\<lambda>a. a \<notin> set (chain ?h p)) xs" p e t i g now sz]
      e e' G lu T(3) F(6) set_moved_to_end [OF chain_members [OF I p]]
    by (simp add: cu chain' moved_to_end_def ys_def c1_def)
  let ?c4 = "cu\<lparr>objs := add_child p h', deepest_youngest_object := Some (if last_used (h' e) = last_used (h' p) then e else p)\<rparr>"
  have "equal_age (add_child p h' e) (add_child p h' p) \<longleftrightarrow> last_used (h' e) = last_used (h' p)"
    using pe by (simp add: equal_age_def heap_simps)
  moreover have "\<not> last_used (?h e) < minimum_required_creation_time c"
  proof -
    obtain r where r: "last_opt xs = Some r" using p by (cases "last_opt xs") auto
    then have "minimum_required_creation_time c \<le> last_used (?h r)" using cache_invD(8) [OF I] by (simp add: ages_ok_def)
    also have "\<dots> \<le> t" by (rule Tt [OF last_opt_mem [OF r]])
    finally show ?thesis by (simp add: new mk_entry_def)
  qed
  moreover have "\<not> last_used (?h e) < last_used (?h p)" using Tt [OF p] by (simp add: new mk_entry_def)
  ultimately have run1: "insert_entry L cb now e cmode ctx sz c = insert_finish L cb e cmode ctx sz ?c4"
    using member_lookup(2) [OF I p] U new chain_nonempty [of ?h p]
    by (cases "chain ?h p") (auto simp: insert_entry_def mk_entry_def Let_def cu
        intro!: arg_cong [where f = "insert_finish L cb e cmode ctx sz"] cache.equality)
  have run_c1: "\<not> gc_running c1" using run by (simp add: c1_def inserted_def cu)
  have fin: "insert_finish L cb e cmode ctx sz ?c4 = do {
       c2 \<leftarrow> (if count_objects c1 = 1 then notify_first_object_inserted cb c1 else Some c1);
       c3 \<leftarrow> (if exceeds_soft (memory_limits c2) (total_size c2) \<or>
                  exceeds_soft (count_limits c2) (count_objects c2)
               then notify_garbage_collection_needed cb c2 else Some c2);
       Some (c3, i)
     }"
    by (rule insert_finish_eq [of L cu cmode ctx i g e p _ _ sz]) (use G(1) e' pe in \<open>simp_all add: cu mk_entry_def c1_def\<close>)
  obtain c' xs' where run2: "insert_finish L cb e cmode ctx sz ?c4 = Some (c', i)"
    and R: "cache_inv L c' xs'" "evicts c1 ys c' xs'" "count_objects c1 \<noteq> 1 \<Longrightarrow> \<not> over_soft c1 \<Longrightarrow> c' = c1 \<and> xs' = ys"
    unfolding fin by (rule insert_notify [OF I2 run_c1]) blast
  have "lookup c1 i = Some e"
    using G(2) cache_invD(5) [OF I] by (simp add: lookup_def c1_def inserted_def cu smap_find_insert ids_ok_def)
  moreover have "cache_id (objs c1 a) = cache_id (?h a) \<and> pinned (objs c1 a) = pinned (?h a)" if "a \<noteq> e" for a
    using that pe by (simp add: c1_def inserted_def cu hooked_fields F)
  moreover have "\<not> pinned (objs c1 e)" "parent (objs c1 e) = Some p" "total_size c1 = total_size c + sz"
    using pe e' by (simp_all add: c1_def inserted_def cu hooked_fields mk_entry_def)
  moreover have "used_before c1 now" "minimum_required_creation_time c1 = t"
  proof -
    have "last_used (objs c1 a) \<le> now" if "a \<in> set ys" for a
    proof -
      have "a \<in> set xs \<or> a = e" using that chain_members [OF I p] by (auto simp: ys_def)
      then show ?thesis
        using e' new T(3) Tn used_before_iff [OF I] pe by (auto simp: c1_def inserted_def cu hooked_fields F mk_entry_def)
    qed
    then show "used_before c1 now" using used_before_iff [OF I2] by blast
    show "minimum_required_creation_time c1 = t" using e' by (simp add: c1_def inserted_def cu mk_entry_def)
  qed
  ultimately show ?thesis
    using that [of c' i c1 xs'] run1 run2 R G(2,3) I2 run_c1 by (simp add: lookup_def)
qed

end

section \<open>Inserting the root\<close>

definition inserted_root :: "addr \<Rightarrow> list_id \<Rightarrow> id_generator \<Rightarrow> nat \<Rightarrow> 'a cache_scheme \<Rightarrow> 'a cache_scheme" where
  "inserted_root e i g sz c =
     c\<lparr>id_gen := g, all_objects := smap_insert i e (all_objects c),
       minimum_required_creation_time := last_used (objs c e),
       root_object := Some e, oldest_object := Some e, deepest_youngest_object := Some e,
       objs := set_size e sz (set_id e i (objs c)), total_size := total_size c + sz\<rparr>"

lemma inserted_root_inv:
  assumes I: "cache_inv L c []" and new: "objs c e = mk_entry None t"
    and "id_is_valid L i" and "generator_ok L g"
  shows "cache_inv L (inserted_root e i g sz c) [e]"
proof -
  let ?h = "set_size e sz (set_id e i (objs c))"
  have m: "all_objects c = []" using cache_invD(5) [OF I] by (simp add: ids_ok_def)
  have par: "parent (?h a) = parent (objs c a)" for a by (simp add: heap_simps)
  have f: "?h e = (mk_entry None t)\<lparr>cache_id := i, object_size := sz\<rparr>" by (simp add: heap_simps new mk_entry_def)
  have "parents_older ?h" using aging_list_ofD(3) [OF cache_invD(1) [OF I]] parents_older_cong [of ?h "objs c"] par by simp
  then have "aging_list_of ?h (Some e) [e]" by (auto simp: aging_list_of_def f mk_entry_def)
  moreover have "pins_ok L ?h [(i, e)] {e} (pinned_object_id c)"
    using cache_invD(7) [OF I] m by (auto simp: pins_ok_def pinned_path_def f mk_entry_def)
  moreover have "roots_ok ?h [e]" "ages_ok ?h (Some e) [e] t"
    by (simp_all add: roots_ok_def ages_ok_def f mk_entry_def)
  moreover have "{b. b = e \<and> parent (?h b) = Some e} = {}" by (auto simp: f mk_entry_def)
  then have "counts_ok ?h {e} (total_size c + sz)"
    using cache_invD(6) [OF I] by (simp add: counts_ok_def f mk_entry_def)
  moreover have "ids_ok L ?h [(i, e)] {e}" using assms(3) by (simp add: ids_ok_def f mk_entry_def)
  ultimately show ?thesis
    using assms(4) cache_invD(10) [OF I] m by (simp add: cache_inv_def inserted_root_def new mk_entry_def)
qed

context lru_user
begin

lemma insert_root_spec:
  assumes I: "cache_inv L c []" and new: "objs c e = mk_entry None t"
    and T: "minimum_required_creation_time c \<le> t"
    and free: "some_free L (\<lambda>i. smap_find (all_objects c) i = None) (id_gen c) cmode ctx"
    and run: "\<not> gc_running c"
  obtains c1 i c' xs' where "insert_entry L cb now e cmode ctx sz c = Some (c', i)"
    and "id_is_valid L i" and "lookup c1 i = Some e" and "cache_inv L c1 [e]"
    and "cache_inv L c' xs'" and "evicts c1 [e] c' xs'"
    and "last_used (objs c1 e) = t" and "minimum_required_creation_time c1 = t" and "\<not> gc_running c1"
proof -
  obtain i g where G: "generator_next L (\<lambda>i. smap_find (all_objects c) i = None) (id_gen c) cmode ctx = Some (i, g)"
      "id_is_valid L i" "generator_ok L g"
    using new_id [OF cache_invD(9,10) [OF I] free] by metis
  define c1 where "c1 = inserted_root e i g sz c"
  have I1: "cache_inv L c1 [e]" unfolding c1_def by (rule inserted_root_inv [OF I new G(2,3)])
  have n: "parent (objs c e) = None" "last_used (objs c e) = t" "cache_id (objs c e) = invalid_id"
    by (simp_all add: new mk_entry_def)
  have fin: "insert_entry L cb now e cmode ctx sz c = do {
       c2 \<leftarrow> (if count_objects c1 = 1 then notify_first_object_inserted cb c1 else Some c1);
       c3 \<leftarrow> (if exceeds_soft (memory_limits c2) (total_size c2) \<or>
                  exceeds_soft (count_limits c2) (count_objects c2)
               then notify_garbage_collection_needed cb c2 else Some c2);
       Some (c3, i)
     }"
  proof -
    have "c\<lparr>root_object := Some e, deepest_youngest_object := Some e, id_gen := g,
        all_objects := smap_insert i e (all_objects c), minimum_required_creation_time := t,
        oldest_object := Some e, objs := set_size e sz (set_id e i (objs c)), total_size := total_size c + sz\<rparr> = c1"
      by (simp add: c1_def inserted_root_def n)
    then show ?thesis
      using G(1) n T by (simp add: insert_entry_def insert_finish_def Let_def insert_before_def set_id_def)
  qed
  have run1: "\<not> gc_running c1" using run by (simp add: c1_def inserted_root_def)
  then obtain c' xs' where "insert_entry L cb now e cmode ctx sz c = Some (c', i)" "cache_inv L c' xs'" "evicts c1 [e] c' xs'"
    unfolding fin by (rule insert_notify [OF I1]) blast
  moreover have "lookup c1 i = Some e"
    using cache_invD(5) [OF I] by (simp add: lookup_def c1_def inserted_root_def ids_ok_def)
  moreover have "last_used (objs c1 e) = t" "minimum_required_creation_time c1 = t"
    using n by (simp_all add: c1_def inserted_root_def heap_simps)
  ultimately show ?thesis using that [OF _ G(2) _ I1 _ _ _ _ run1] by blast
qed

end

end
