(* ===== verification/Lru_Ops.thy ===== *)
theory Lru_Ops
  imports Lru_Insert
begin

text \<open>
  The remaining operations of the object cache: resizing, re-keying, pinning and purging
  objects; walking over the aging list; the built-in consistency check.
\<close>

section \<open>Resizing\<close>

lemma resized_inv:
  assumes I: "cache_inv L c xs" and a: "a \<in> set xs"
  shows "cache_inv L (c\<lparr>objs := set_size a sz (objs c),
    total_size := total_size c - object_size (objs c a) + sz\<rparr>) xs"
proof -
  let ?h = "set_size a sz (objs c)"
  have F: "parent (?h b) = parent (objs c b)" "children_count (?h b) = children_count (objs c b)"
    "cache_id (?h b) = cache_id (objs c b)" "pinned (?h b) = pinned (objs c b)"
    "last_used (?h b) = last_used (objs c b)" "older (?h b) = older (objs c b)" "younger (?h b) = younger (objs c b)"
    "object_size (?h b) = (if b = a then sz else object_size (objs c b))" for b
    by (simp_all add: set_size_def)
  have "aging_list_of ?h (deepest_youngest_object c) xs"
    using aging_list_of_cong [of xs ?h "objs c"] F cache_invD(1) [OF I] by simp
  moreover have "ages_ok ?h (deepest_youngest_object c) xs (minimum_required_creation_time c)"
    using ages_ok_cong [of xs ?h "objs c"] deepest_path_members [OF cache_invD(1) [OF I]] F cache_invD(8) [OF I] by simp
  moreover have "roots_ok ?h xs" "ids_ok L ?h (all_objects c) (set xs)" "pins_ok L ?h (all_objects c) (set xs) (pinned_object_id c)"
    using roots_ok_cong [of xs ?h "objs c"] ids_ok_cong [of "set xs" ?h "objs c"]
      pins_ok_cong [of "set xs" ?h "objs c"] F cache_invD(4,5,7) [OF I] by simp_all
  moreover have "counts_ok ?h (set xs) (total_size c - object_size (objs c a) + sz)"
  proof -
    have "(\<Sum>b \<in> set xs - {a}. object_size (?h b)) = (\<Sum>b \<in> set xs - {a}. object_size (objs c b))"
      by (rule sum.cong) (simp_all add: F(8))
    then show ?thesis
      using cache_invD(6) [OF I] a unfolding counts_ok_def F(1,2)
      by (simp add: sum.remove [of "set xs" a] F(8))
  qed
  ultimately show ?thesis using cache_invD(2,3,9,10) [OF I] by (simp add: cache_inv_def)
qed

context lru_client
begin

lemma maybe_gc:
  assumes I: "cache_inv L c xs" and "\<not> gc_running c"
  obtains c' xs' where "(if b then map_option fst (gc cb now c) else Some c) = Some c'"
    and "cache_inv L c' xs'" and "evicts c xs c' xs'" and "\<not> b \<Longrightarrow> c' = c \<and> xs' = xs"
proof (cases b)
  case True
  then show ?thesis using gc_evicts [OF assms, of now] that by fastforce
next
  case False
  then show ?thesis using that [of c xs] I by simp
qed

lemma set_object_size_spec:
  assumes I: "cache_inv L c xs" and i: "lookup c i = Some a" and T: "minimum_required_creation_time c < now" "used_before c now"
    and run: "\<not> gc_running c"
  obtains c2 c' xs' where "set_object_size cb now i sz c = Some (c', True)"
    and "cache_inv L c2 (moved_to_end (objs c) a xs)" and "cache_inv L c' xs'"
    and "evicts c2 (moved_to_end (objs c) a xs) c' xs'"
    and "sz \<le> object_size (objs c a) \<or> \<not> exceeds_soft (memory_limits c) (total_size c2) \<Longrightarrow> c' = c2"
    and "object_size (objs c2 a) = sz" and "total_size c2 + object_size (objs c a) = total_size c + sz"
    and "last_used (objs c2 a) = now"
    and "used_before c2 now" and "minimum_required_creation_time c2 = minimum_required_creation_time c" and "\<not> gc_running c2"
proof -
  let ?c1 = "c\<lparr>objs := set_size a sz (objs c), total_size := total_size c - object_size (objs c a) + sz\<rparr>"
  have a: "a \<in> set xs" using lookup_member [OF I i] by simp
  have I1: "cache_inv L ?c1 xs" by (rule resized_inv [OF I a])
  have ch: "chain (objs ?c1) b = chain (objs c) b" for b by (rule chain_cong) (simp add: set_size_def)
  then have mv: "moved_to_end (objs ?c1) a xs = moved_to_end (objs c) a xs" by (simp add: moved_to_end_def)
  have T1: "minimum_required_creation_time ?c1 < now" "used_before ?c1 now"
    using T by (auto simp: used_before_def set_size_def)
  define c2 where "c2 = fst (use_entry now a ?c1)"
  obtain h' where U: "use_entry now a ?c1 = (?c1\<lparr>objs := h', oldest_object := hd_opt (moved_to_end (objs c) a xs),
        deepest_youngest_object := Some a\<rparr>, int (length (chain (objs ?c1) a)) - 1)"
    and N: "\<And>b. nolinks (h' b) = nolinks (touched (objs ?c1) a now b)"
    and I2: "cache_inv L c2 (moved_to_end (objs c) a xs)"
    using use_entry_inv [OF I1 a T1] unfolding mv c2_def by metis
  note F = touched_fields [of h' _ "objs ?c1" a now, OF N]
  have c2: "c2 = ?c1\<lparr>objs := h', oldest_object := hd_opt (moved_to_end (objs c) a xs), deepest_youngest_object := Some a\<rparr>"
    by (simp add: c2_def U)
  have run2: "\<not> gc_running c2" using run by (simp add: c2)
  then obtain c' xs' where R: "(if sz > object_size (objs c a) \<and> exceeds_soft (memory_limits c2) (total_size c2)
      then map_option fst (gc cb now c2) else Some c2) = Some c'"
    "cache_inv L c' xs'" "evicts c2 (moved_to_end (objs c) a xs) c' xs'"
    "\<not> (sz > object_size (objs c a) \<and> exceeds_soft (memory_limits c2) (total_size c2)) \<Longrightarrow> c' = c2 \<and> xs' = moved_to_end (objs c) a xs"
    using maybe_gc [OF I2] by blast
  have run: "set_object_size cb now i sz c = Some (c', True)"
    using i R(1) by (auto simp: set_object_size_def Let_def c2_def [symmetric] split: if_splits)
  have "object_size (objs c a) \<le> total_size c"
    using cache_invD(6) [OF I] member_le_sum [OF a, of "\<lambda>a. object_size (objs c a)"] by (simp add: counts_ok_def)
  moreover have "last_used (objs c2 b) \<le> now" if "b \<in> set xs" for b
    using that T(2) used_before_iff [OF I] by (auto simp: c2 F(6) set_size_def)
  then have "used_before c2 now"
    using used_before_iff [OF I2] set_moved_to_end [OF chain_members [OF I a]] by simp
  ultimately show ?thesis
    by (intro that [OF run I2 R(2,3)]) (use R(4) F(4,6) run2 \<open>object_size (objs c a) \<le> total_size c\<close> in \<open>auto simp: c2 ch set_size_def\<close>)
qed

end

lemma set_object_size_unknown: "lookup c i = None \<Longrightarrow> set_object_size cb now i sz c = Some (c, False)"
  by (simp add: set_object_size_def)

section \<open>Pinning\<close>

text \<open>The state after the flags have moved, before the collector runs.\<close>

definition repinned :: "ctx_layout \<Rightarrow> list_id \<Rightarrow> 'a cache_scheme \<Rightarrow> 'a cache_scheme" where
  "repinned L i c =
     (let c1 = (if id_is_valid L (pinned_object_id c)
                then fst (pin_or_unpin_objects_on_path_to_root L (pinned_object_id c) False c) else c);
          c2 = c1\<lparr>pinned_object_id := i\<rparr>;
          (c3, result) = (if id_is_valid L i
                          then pin_or_unpin_objects_on_path_to_root L i True c2 else (c2, True))
      in if \<not> result then c3\<lparr>pinned_object_id := invalid_id\<rparr> else c3)"

lemma pin_eq:
  "pinned_object_id c \<noteq> i \<Longrightarrow> pin L cb now i c =
     do {
       c5 \<leftarrow> (if \<not> gc_running (repinned L i c) \<and> id_is_valid L (pinned_object_id c)
              then map_option fst (gc cb now (repinned L i c)) else Some (repinned L i c));
       Some (c5, id_is_valid L (pinned_object_id c5))
     }"
  by (simp add: pin_def repinned_def Let_def case_prod_beta)

lemma repinned_inv:
  assumes I: "cache_inv L c xs"
  shows "cache_inv L (repinned L i c) xs"
    and "pinned_object_id (repinned L i c) = (if id_is_valid L i \<and> lookup c i = None then invalid_id else i)"
    and "gc_running (repinned L i c) = gc_running c" and "all_objects (repinned L i c) = all_objects c"
    and "\<And>a. chain (objs (repinned L i c)) a = chain (objs c) a"
    and "\<And>a. last_used (objs (repinned L i c) a) = last_used (objs c a)"
    and "minimum_required_creation_time (repinned L i c) = minimum_required_creation_time c"
proof -
  define c1 where "c1 = (if id_is_valid L (pinned_object_id c)
      then fst (pin_or_unpin_objects_on_path_to_root L (pinned_object_id c) False c) else c)"
  let ?u = "c1\<lparr>pinned_object_id := invalid_id\<rparr>"
  have u: "cache_inv L ?u xs"
  proof (cases "id_is_valid L (pinned_object_id c)")
    case True
    then show ?thesis using unpin_inv [OF I] by (simp add: c1_def)
  next
    case False
    then have "{a \<in> set xs. pinned (objs c a)} = pinned_path L (objs c) (all_objects c) invalid_id"
      using cache_invD(7) [OF I] by (simp add: pins_ok_def pinned_path_def)
    then have "cache_inv L (c\<lparr>objs := objs c, pinned_object_id := invalid_id\<rparr>) xs"
      by (intro repin_inv [OF I]) simp_all
    with False show ?thesis by (simp add: c1_def)
  qed
  have core: "all_objects c1 = all_objects c" "gc_running c1 = gc_running c"
    by (auto simp: c1_def pin_or_unpin_objects_on_path_to_root_def split: option.splits)
  have par1: "parent (objs c1 a) = parent (objs c a)" for a
    by (auto simp: c1_def pin_or_unpin_objects_on_path_to_root_def set_pin_path_eq split: option.splits)
  have ch1: "chain (objs c1) a = chain (objs c) a" for a by (rule chain_cong) (rule par1)
  have look: "lookup c1 i = lookup c i" "lookup (c1\<lparr>pinned_object_id := i\<rparr>) i = lookup c i" "lookup ?u i = lookup c i"
    by (simp_all add: lookup_def core)
  have eq: "repinned L i c =
      (if \<not> id_is_valid L i then c1\<lparr>pinned_object_id := i\<rparr>
       else case lookup c i of None \<Rightarrow> ?u
            | Some e \<Rightarrow> c1\<lparr>objs := set_pin_path True (chain (objs c1) e) (objs c1), pinned_object_id := i\<rparr>)"
    by (auto simp: repinned_def c1_def [symmetric] Let_def pin_or_unpin_objects_on_path_to_root_def look
        split: option.splits)
  show "cache_inv L (repinned L i c) xs"
  proof (cases "id_is_valid L i")
    case False
    then have "cache_inv L (?u\<lparr>objs := objs ?u, pinned_object_id := i\<rparr>) xs"
      using cache_invD(7) [OF u] by (intro repin_inv [OF u]) (simp_all add: pins_ok_def pinned_path_def)
    with False show ?thesis by (simp add: eq)
  next
    case True
    then show ?thesis
      using u pin_path_inv [OF u _ True] look by (cases "lookup c i") (simp_all add: eq)
  qed
  have "parent (objs (repinned L i c) a) = parent (objs c a)" for a
    by (auto simp: eq par1 set_pin_path_eq split: option.splits)
  then show "chain (objs (repinned L i c)) a = chain (objs c) a" for a by (rule chain_cong)
qed (auto simp: repinned_def pin_or_unpin_objects_on_path_to_root_def Let_def lookup_def set_pin_path_eq split: option.splits)

context lru_client
begin

lemma pin_spec:
  assumes I: "cache_inv L c xs" and run: "\<not> gc_running c"
  obtains c' xs' where "pin L cb now i c = Some (c', id_is_valid L i \<and> lookup c i \<noteq> None)"
    and "cache_inv L c' xs'" and "set xs' \<subseteq> set xs" and "\<not> gc_running c'"
    and "\<And>e. id_is_valid L i \<Longrightarrow> lookup c i = Some e \<Longrightarrow>
           lookup c' i = Some e \<and> {a \<in> set xs'. pinned (objs c' a)} = set (chain (objs c') e)"
    and "\<not> (id_is_valid L i \<and> lookup c i \<noteq> None) \<Longrightarrow> \<forall>a \<in> set xs'. \<not> pinned (objs c' a)"
    and "\<And>a. last_used (objs c' a) = last_used (objs c a)"
    and "minimum_required_creation_time c' = minimum_required_creation_time c"
proof (cases "pinned_object_id c = i")
  case True
  note P = cache_invD(7) [OF I, unfolded pins_ok_def True, folded lookup_def]
  have "pin L cb now i c = Some (c, id_is_valid L i \<and> lookup c i \<noteq> None)"
    using True P by (auto simp: pin_def)
  then show ?thesis
    by (rule that [OF _ I]) (use run P in \<open>auto simp: pinned_path_def lookup_def split: if_splits option.splits\<close>)
next
  case False
  note R = repinned_inv [OF I, of i]
  have "\<not> gc_running (repinned L i c)" using R(3) run by simp
  then obtain c' xs' where G: "(if \<not> gc_running (repinned L i c) \<and> id_is_valid L (pinned_object_id c)
              then map_option fst (gc cb now (repinned L i c)) else Some (repinned L i c)) = Some c'"
    and I': "cache_inv L c' xs'" and ev: "evicts (repinned L i c) xs c' xs'"
    using maybe_gc [OF R(1)] by blast
  note F = gc_frameD [of "repinned L i c" c'] ev [unfolded evicts_def]
  have pid: "pinned_object_id c' = (if id_is_valid L i \<and> lookup c i = None then invalid_id else i)"
    using F(9,13) R(2) by simp
  have run': "pin L cb now i c = Some (c', id_is_valid L i \<and> lookup c i \<noteq> None)"
    using G unfolding pin_eq [OF False] by (auto simp: pid split: if_splits)
  note P = cache_invD(7) [OF I', unfolded pins_ok_def pid]
  show ?thesis
  proof (rule that [OF run' I'])
    show "set xs' \<subseteq> set xs" "\<not> gc_running c'" using F(10,13) R(3) run by auto
    fix e assume v: "id_is_valid L i" "lookup c i = Some e"
    have "smap_find (all_objects c') i \<noteq> None" using P v by simp
    then obtain e' where e': "lookup c' i = Some e'" by (auto simp: lookup_def)
    have "e' = e"
    proof -
      have in_xs: "e' \<in> set xs" "cache_id (objs c' e') = i" using lookup_member [OF I' e'] F(13) by auto
      then have "cache_id (objs (repinned L i c) e') = i" using F(2,13) by simp
      moreover have "lookup (repinned L i c) i = Some e" using v(2) R(4) by (simp add: lookup_def)
      ultimately show ?thesis using ids_inj [OF R(1) in_xs(1)] lookup_member [OF R(1)] by metis
    qed
    then show "lookup c' i = Some e \<and> {a \<in> set xs'. pinned (objs c' a)} = set (chain (objs c') e)"
      using P v e' by (simp add: pinned_path_def lookup_def)
  qed (use P F(5,12,13) R(6,7) in \<open>auto simp: pinned_path_def split: if_splits\<close>)
qed

end

section \<open>Re-keying an object\<close>

lemma rekeyed_inv:
  assumes I: "cache_inv L c xs" and e: "e \<in> set xs" and "smap_find m i = None"
    and m: "m = smap_erase (cache_id (objs c e)) (all_objects c)" and "id_is_valid L i" and "generator_ok L g"
  shows "cache_inv L (c\<lparr>objs := set_id e i (objs c), id_gen := g, all_objects := smap_insert i e m,
    pinned_object_id := (if cache_id (objs c e) = pinned_object_id c then i else pinned_object_id c)\<rparr>) xs"
proof -
  let ?h = "set_id e i (objs c)" and ?j = "cache_id (objs c e)"
  have F: "parent (?h b) = parent (objs c b)" "children_count (?h b) = children_count (objs c b)"
    "pinned (?h b) = pinned (objs c b)" "object_size (?h b) = object_size (objs c b)"
    "last_used (?h b) = last_used (objs c b)" "older (?h b) = older (objs c b)" "younger (?h b) = younger (objs c b)"
    "cache_id (?h b) = (if b = e then i else cache_id (objs c b))" for b
    by (simp_all add: set_id_def)
  have ok: "smap_ok (all_objects c)" "smap_ok m" using cache_invD(5) [OF I] by (simp_all add: ids_ok_def m)
  have "aging_list_of ?h (deepest_youngest_object c) xs"
    using aging_list_of_cong [of xs ?h "objs c"] F cache_invD(1) [OF I] by simp
  moreover have "ages_ok ?h (deepest_youngest_object c) xs (minimum_required_creation_time c)"
    using ages_ok_cong [of xs ?h "objs c"] deepest_path_members [OF cache_invD(1) [OF I]] F cache_invD(8) [OF I] by simp
  moreover have "roots_ok ?h xs" "counts_ok ?h (set xs) (total_size c)"
    using roots_ok_cong [of xs ?h "objs c"] counts_ok_cong [of "set xs" ?h "objs c"] F cache_invD(4,6) [OF I] by simp_all
  moreover have "ids_ok L ?h (smap_insert i e m) (set xs)"
  proof -
    have "set m = {x \<in> set (all_objects c). fst x \<noteq> ?j}" unfolding m by (rule set_smap_erase [OF ok(1)])
    moreover have "fst x = ?j \<longleftrightarrow> snd x = e" if "x \<in> set (all_objects c)" for x
    proof -
      have x: "cache_id (objs c (snd x)) = fst x" "snd x \<in> set xs"
        using cache_invD(5) [OF I] that by (auto simp: ids_ok_def)
      then show ?thesis using ids_inj [OF I x(2) e] by auto
    qed
    ultimately have sm: "set m = {x \<in> set (all_objects c). snd x \<noteq> e}" by blast
    have M: "snd ` set (all_objects c) = set xs"
      "\<And>k b. (k, b) \<in> set (all_objects c) \<Longrightarrow> cache_id (objs c b) = k \<and> id_is_valid L k"
      using cache_invD(5) [OF I] by (auto simp: ids_ok_def)
    have "snd ` set m = set xs - {e}" unfolding sm M(1) [symmetric] by auto
    then have "snd ` insert (i, e) (set m) = set xs" using e by auto
    moreover have "\<forall>(k, b) \<in> insert (i, e) (set m). cache_id (?h b) = k \<and> id_is_valid L k"
      using M(2) assms(5) by (auto simp: sm F(8))
    ultimately show ?thesis unfolding ids_ok_def set_smap_insert [OF ok(2) assms(3)] using ok(2) by simp
  qed
  moreover have "pins_ok L ?h (smap_insert i e m) (set xs) (if ?j = pinned_object_id c then i else pinned_object_id c)"
  proof -
    have ch: "chain ?h a = chain (objs c) a" for a by (rule chain_cong) (rule F(1))
    have j: "smap_find (all_objects c) ?j = Some e" "id_is_valid L ?j"
      using member_lookup [OF I e] by (simp_all add: lookup_def)
    have fm: "smap_find (smap_insert i e m) k = (if k = i then Some e else if k = ?j then None else smap_find (all_objects c) k)" for k
      using assms(3) ok by (auto simp: smap_find_insert m smap_find_erase)
    have "smap_find (all_objects c) i = None \<or> i = ?j" using assms(3) ok(1) by (auto simp: m smap_find_erase split: if_splits)
    then have "pinned_path L ?h (smap_insert i e m) (if ?j = pinned_object_id c then i else pinned_object_id c)
        = pinned_path L (objs c) (all_objects c) (pinned_object_id c)"
      using j assms(5) cache_invD(7) [OF I] by (auto simp: pinned_path_def fm ch pins_ok_def split: option.splits)
    then show ?thesis
      using cache_invD(7) [OF I] \<open>_ \<or> i = ?j\<close> by (auto simp: pins_ok_def F(3) fm)
  qed
  ultimately show ?thesis using cache_invD(2,3,10) [OF I] assms(6) by (simp add: cache_inv_def)
qed

lemma insert_again_spec:
  assumes I: "cache_inv L c xs" and e: "e \<in> set xs"
    and free: "some_free L (\<lambda>i. smap_find (smap_erase (cache_id (objs c e)) (all_objects c)) i = None) (id_gen c)
      (get_cache_mode L (cache_id (objs c e))) (get_context L (cache_id (objs c e)))"
  obtains c' i where "insert_again L (Some e) c = Some (c', i)" and "cache_inv L c' xs" and "id_is_valid L i"
    and "lookup c' i = Some e" and "\<And>k. k \<noteq> i \<Longrightarrow> k \<noteq> cache_id (objs c e) \<Longrightarrow> lookup c' k = lookup c k"
    and "cache_id (objs c e) \<noteq> i \<Longrightarrow> lookup c' (cache_id (objs c e)) = None"
    and "\<exists>r. i = make_list_id L r (get_cache_mode L (cache_id (objs c e))) (get_context L (cache_id (objs c e))) \<and> r \<le> VALUE_MASK L"
proof -
  let ?j = "cache_id (objs c e)" and ?m = "smap_erase (cache_id (objs c e)) (all_objects c)"
  obtain i g where G: "generator_next L (\<lambda>i. smap_find ?m i = None) (id_gen c) (get_cache_mode L ?j) (get_context L ?j) = Some (i, g)"
      "smap_find ?m i = None" "id_is_valid L i" "generator_ok L g"
      "\<exists>r. i = make_list_id L r (get_cache_mode L ?j) (get_context L ?j) \<and> r \<le> VALUE_MASK L"
    using new_id [OF cache_invD(9,10) [OF I] free] by metis
  let ?c = "c\<lparr>objs := set_id e i (objs c), id_gen := g, all_objects := smap_insert i e ?m,
    pinned_object_id := (if ?j = pinned_object_id c then i else pinned_object_id c)\<rparr>"
  have "smap_find (all_objects c) ?j = Some e" using member_lookup(1) [OF I e] by (simp add: lookup_def)
  then have run: "insert_again L (Some e) c = Some (?c, i)"
    using G(1) by (simp add: insert_again_def Let_def)
  have ok: "smap_ok (all_objects c)" using cache_invD(5) [OF I] by (simp add: ids_ok_def)
  show ?thesis
    by (rule that [OF run rekeyed_inv [OF I e G(2) refl G(3,4)] G(3) _ _ _ G(5)])
      (use G(2) ok in \<open>auto simp: lookup_def smap_find_insert smap_find_erase\<close>)
qed

section \<open>Walking over the aging list\<close>

lemma iterate_steps:
  "iterate_younger h None = Some []" "iterate_older h None = Some []"
  "iterate_younger h (Some a) = do { xs \<leftarrow> iterate_younger h (younger (h a)); Some (a # xs) }"
  "iterate_older h (Some a) = do { xs \<leftarrow> iterate_older h (older (h a)); Some (a # xs) }"
  by (subst iterate_younger.simps iterate_older.simps, simp)+

lemma iterate_younger_spec: "dll h p xs None \<Longrightarrow> iterate_younger h (hd_opt xs) = Some xs"
  by (induction xs arbitrary: p) (auto simp: iterate_steps)

lemma iterate_older_spec: "dll h None xs n \<Longrightarrow> iterate_older h (last_opt xs) = Some (rev xs)"
  by (induction xs arbitrary: n rule: rev_induct) (auto simp: iterate_steps dll_append)

section \<open>The built-in consistency check\<close>

lemma children_of_eq:
  "cache_inv L c xs \<Longrightarrow> children_of c a = card {b \<in> set xs. parent (objs c b) = Some a}"
  using count_matching [of L c xs "\<lambda>b. parent (objs c b) = Some a"] by (simp add: children_of_def case_prod_unfold)

lemma pinned_ancestors:
  assumes I: "cache_inv L c xs"
  shows "a \<in> set xs \<Longrightarrow> pinned (objs c a) \<Longrightarrow> p \<in> set (chain (objs c) a) \<Longrightarrow> pinned (objs c p)"
proof (induction a rule: less_induct)
  case (less a)
  note A = aging_list_ofD [OF cache_invD(1) [OF I]]
  show ?case
  proof (cases "parent (objs c a)")
    case None
    with less.prems show ?thesis by simp
  next
    case (Some q)
    have q: "q < a" "q \<in> set xs" using A(3) Some parents_after_member [OF A(4) less.prems(1) Some] by (auto simp: parents_older_def)
    then show ?thesis
      using less.IH [OF q] pinned_parent [OF I less.prems(1,2) Some] less.prems(2,3) chain_step [OF A(3) Some] by auto
  qed
qed

lemma check_objects:
  assumes I: "cache_inv L c xs" shows "list_all (check_object c) (all_objects c)"
  unfolding list_all_iff
proof
  fix x assume x: "x \<in> set (all_objects c)"
  obtain i a where ia: "x = (i, a)" by (cases x)
  have a: "a \<in> set xs" "cache_id (objs c a) = i" using cache_invD(5) [OF I] x ia by (force simp: ids_ok_def)+
  have "parent (objs c a) \<noteq> Some a"
    using aging_list_ofD(3) [OF cache_invD(1) [OF I]] by (auto simp: parents_older_def)
  moreover have "\<forall>p \<in> set (tl (chain (objs c) a)). pinned (objs c p)" if "pinned (objs c a)"
    using pinned_ancestors [OF I a(1) that] by (meson list.set_sel(2) chain_nonempty)
  moreover have "children_of c a = children_count (objs c a)"
    using children_of_eq [OF I] cache_invD(6) [OF I] a(1) by (simp add: counts_ok_def)
  ultimately show "check_object c x" using a(2) ia by (auto simp: check_object_def is_leaf_def)
qed

lemma check_special_member:
  assumes "cache_inv L c xs" and "case p of None \<Rightarrow> True | Some a \<Rightarrow> a \<in> set xs"
  shows "check_special c p"
proof -
  have "{a \<in> set xs. Some a = p} = (case p of None \<Rightarrow> {} | Some a \<Rightarrow> {a})"
    using assms(2) by (auto split: option.splits)
  then show ?thesis
    using count_matching [OF assms(1), of "\<lambda>a. Some a = p"]
    by (simp add: check_special_def case_prod_unfold split: option.splits)
qed

lemma check_sum:
  assumes I: "cache_inv L c xs"
  shows "sum_list (map (\<lambda>(_, a). children_of c a) (all_objects c)) = length xs - 1"
proof -
  note A = aging_list_ofD [OF cache_invD(1) [OF I]]
  let ?K = "\<lambda>a. {b \<in> set xs. parent (objs c b) = Some a}"
  have X: "set (map snd (all_objects c)) = set xs" using cache_invD(5) [OF I] by (simp add: ids_ok_def)
  have "sum_list (map (\<lambda>(_, a). children_of c a) (all_objects c)) = sum_list (map (\<lambda>a. card (?K a)) (map snd (all_objects c)))"
    by (simp add: children_of_eq [OF I] case_prod_unfold comp_def)
  also have "\<dots> = (\<Sum>a \<in> set xs. card (?K a))"
    unfolding X [symmetric] by (rule sum_list_distinct_conv_sum_set [OF objects_distinct [OF I]])
  also have "\<dots> = card (\<Union>a \<in> set xs. ?K a)" by (rule card_UN_disjoint [symmetric]) auto
  also have "(\<Union>a \<in> set xs. ?K a) = {b \<in> set xs. Some b \<noteq> last_opt xs}"
    using cache_invD(4) [OF I] parents_after_member [OF A(4)] by (auto simp: roots_ok_def)
  also have "card \<dots> = length xs - 1"
  proof (cases xs rule: rev_cases)
    case (snoc ys r)
    then have "{b \<in> set xs. Some b \<noteq> last_opt xs} = set ys" using A(2) by auto
    then show ?thesis using snoc A(2) by (simp add: distinct_card)
  qed simp
  finally show ?thesis .
qed

lemma never_grow_sorted:
  assumes "sorted (map f xs)" and "\<And>a b. f a \<le> f b \<Longrightarrow> g b \<le> (g a :: int)" and "\<And>x. x \<in> set xs \<Longrightarrow> g x \<le> p"
  shows "ages_never_grow p (map g xs)"
  using assms(1,3) by (induction xs arbitrary: p) (auto simp: not_less assms(2))

lemma never_shrink_rev:
  "ages_never_grow p as \<Longrightarrow> (\<And>a. a \<in> set as \<Longrightarrow> q \<le> a) \<Longrightarrow> ages_never_shrink q (rev as)"
proof (induction as arbitrary: p rule: rev_induct)
  case (snoc a as)
  have split: "ages_never_grow p (as @ [a]) \<Longrightarrow> ages_never_grow p as \<and> (\<forall>b \<in> set as. a \<le> b) \<and> a \<le> p" for p
    by (induction as arbitrary: p) force+
  have mono: "ages_never_shrink a bs" if "ages_never_shrink q bs" "\<forall>b \<in> set bs. a \<le> b" for bs
    using that by (cases bs) auto
  have q: "q \<le> a" "\<And>b. b \<in> set as \<Longrightarrow> q \<le> b" using snoc.prems(2) by simp_all
  then have "ages_never_shrink q (rev as)" using split [OF snoc.prems(1)] snoc.IH by blast
  then show ?case using split [OF snoc.prems(1)] mono [of "rev as"] q(1) by simp
qed simp

lemma pinned_count:
  assumes I: "cache_inv L c xs"
  shows "length (filter (\<lambda>(_, a). cache_id (objs c a) = pinned_object_id c) (all_objects c)) =
    (if id_is_valid L (pinned_object_id c) then 1 else 0)"
proof (cases "id_is_valid L (pinned_object_id c)")
  case True
  then obtain e where e: "lookup c (pinned_object_id c) = Some e"
    using cache_invD(7) [OF I] by (auto simp: pins_ok_def lookup_def)
  have "{a \<in> set xs. cache_id (objs c a) = pinned_object_id c} = {e}"
    using lookup_member [OF I e] ids_inj [OF I] by auto
  then show ?thesis
    using True count_matching [OF I, of "\<lambda>a. cache_id (objs c a) = pinned_object_id c"] by (simp add: case_prod_unfold)
next
  case False
  then have "{a \<in> set xs. cache_id (objs c a) = pinned_object_id c} = {}"
    using member_lookup(2) [OF I] by fastforce
  then show ?thesis
    using False count_matching [OF I, of "\<lambda>a. cache_id (objs c a) = pinned_object_id c"]
    by (simp add: case_prod_unfold)
qed

lemma check_ages:
  fixes now :: time_point
  assumes I: "cache_inv L c xs" and r: "last_opt xs = Some r" and o: "hd_opt xs = Some o'"
    and d: "deepest_youngest_object c = Some d"
  defines "age \<equiv> \<lambda>a. get_age now (objs c a)"
  shows "ages_never_grow (age o') (map age xs)"
    and "ages_never_shrink (last (age o' # map age xs)) (map age (rev xs))"
    and "\<forall>p \<in> set (tl (chain (objs c) d)). age p = age d"
proof -
  note G = cache_invD(8) [OF I, unfolded ages_ok_def]
  have mono: "age b \<le> age a" if "last_used (objs c a) \<le> last_used (objs c b)" for a b
    using tdiv_mono' [of "now - last_used (objs c b)" "now - last_used (objs c a)" 1000000] that
    by (simp add: age_def get_age_def)
  have S: "sorted (map (\<lambda>a. last_used (objs c a)) xs)" using G by simp
  have hd: "age x \<le> age o'" if "x \<in> set xs" for x
    using S o that by (cases xs) (auto intro: mono)
  show grow: "ages_never_grow (age o') (map age xs)"
    using never_grow_sorted [OF S mono hd] .
  have last: "last (age o' # map age xs) = age r"
    using last_opt_Some [OF r] by auto
  have "age r \<le> age x" if "x \<in> set xs" for x
    by (rule mono) (rule youngest_time [OF S r that])
  then show "ages_never_shrink (last (age o' # map age xs)) (map age (rev xs))"
    unfolding last rev_map [symmetric] using never_shrink_rev [OF grow] by auto
  have "last_used (objs c p) = last_used (objs c r)" if "p \<in> set (chain (objs c) d)" for p
    using G r d that by blast
  then show "\<forall>p \<in> set (tl (chain (objs c) d)). age p = age d"
    using list.set_sel(2) [OF chain_nonempty] chain_self unfolding age_def get_age_def by metis
qed

theorem self_check_passes:
  assumes I: "cache_inv L c xs"
  shows "self_check L now c = Some True"
proof -
  note A = aging_list_ofD [OF cache_invD(1) [OF I]]
  have fwd: "iterate_younger (objs c) (oldest_object c) = Some xs"
    using iterate_younger_spec [OF A(1)] cache_invD(2) [OF I] by simp
  have bwd: "iterate_older (objs c) (root_object c) = Some (rev xs)"
    using iterate_older_spec [OF A(1)] cache_invD(3) [OF I] by simp
  have sum: "if root_object c = None then sum_list (map (\<lambda>(_, a). children_of c a) (all_objects c)) = 0
      else sum_list (map (\<lambda>(_, a). children_of c a) (all_objects c)) + 1 = count_objects c"
    using check_sum [OF I] count_members [OF I] cache_invD(3) [OF I] by (cases xs) auto
  have special: "check_special c (root_object c)" "check_special c (oldest_object c)"
    "check_special c (deepest_youngest_object c)"
    using cache_invD(2,3) [OF I] subsetD [OF deepest_path_members [OF cache_invD(1) [OF I]] chain_self]
    by (auto intro!: check_special_member [OF I] split: option.splits dest: hd_opt_mem last_opt_mem)
  show ?thesis
  proof (cases xs)
    case Nil
    then show ?thesis
      using fwd bwd sum special check_objects [OF I] pinned_count [OF I] A(5) cache_invD(2,3) [OF I]
      by (simp add: self_check_def Let_def)
  next
    case (Cons o' xs')
    then obtain r d where r: "last_opt xs = Some r" "deepest_youngest_object c = Some d" and o: "hd_opt xs = Some o'"
      using A(5) by (cases "last_opt xs"; cases "deepest_youngest_object c") auto
    obtain ys where ys: "xs = ys @ [r]" using last_opt_Some [OF r(1)] by blast
    have "dll (objs c) None (ys @ [r]) None" using A(1) by (simp only: ys)
    then have "younger (objs c r) = None" by (simp add: dll_append)
    moreover have "older (objs c o') = None" using A(1) by (simp add: Cons)
    moreover have "parent (objs c r) = None"
      using cache_invD(4) [OF I] r(1) last_opt_mem [OF r(1)] by (simp add: roots_ok_def)
    ultimately have ro: "parent (objs c r) = None" "younger (objs c r) = None" "older (objs c o') = None" by blast+
    show ?thesis
      using fwd bwd sum special check_objects [OF I] pinned_count [OF I] cache_invD(2,3) [OF I]
        check_ages [OF I r(1) o r(2), of now] r o ro
      by (simp add: self_check_def Let_def)
  qed
qed

end
