(* ===== verification/Lru_Purge.thy ===== *)
theory Lru_Purge
  imports Lru_Ops
begin

text \<open>
  Removal of whole subtrees: \<^verbatim>\<open>toposort_for_purge()\<close> returns its kill list with every
  child in front of its parent, and \<^verbatim>\<open>purge_entries()\<close> then removes exactly those
  objects and keeps the invariant.
\<close>

section \<open>Distances from the leaves\<close>

text \<open>Along a parent link between two internal nodes of the kill list the distance grows, at
  least once the child has been reached; \<open>x\<close> may be the object whose parent is next.\<close>

definition growing :: "heap \<Rightarrow> addr set \<Rightarrow> (list_id, nat) smap \<Rightarrow> addr \<Rightarrow> nat \<Rightarrow> bool" where
  "growing h X d x dist \<longleftrightarrow>
     (\<forall>e \<in> X. \<forall>p n m. parent (h e) = Some p \<longrightarrow> smap_find d (cache_id (h e)) = Some n \<longrightarrow> 0 < n \<longrightarrow>
        smap_find d (cache_id (h p)) = Some m \<longrightarrow> n < m \<or> (e = x \<and> n = dist))"

definition grown :: "heap \<Rightarrow> addr set \<Rightarrow> (list_id, nat) smap \<Rightarrow> bool" where
  "grown h X d \<longleftrightarrow>
     (\<forall>e \<in> X. \<forall>p n m. parent (h e) = Some p \<longrightarrow> smap_find d (cache_id (h e)) = Some n \<longrightarrow> 0 < n \<longrightarrow>
        smap_find d (cache_id (h p)) = Some m \<longrightarrow> n < m)"

lemma raise_distances_skip:
  "\<forall>e \<in> set es. smap_find d (cache_id (h e)) = None \<Longrightarrow> raise_distances h es dist d = d"
  by (induction es) auto

lemma raise_distances_keys: "map fst (raise_distances h es dist d) = map fst d"
  by (induction es arbitrary: dist d) (auto split: option.splits)

lemma raise_distances_mono:
  "smap_find d k = Some n \<Longrightarrow> \<exists>m. smap_find (raise_distances h es dist d) k = Some m \<and> n \<le> m"
proof (induction es arbitrary: dist d n)
  case (Cons e es)
  show ?case
  proof (cases "smap_find d (cache_id (h e))")
    case None
    then show ?thesis using Cons by simp
  next
    case (Some known)
    have "\<exists>n'. smap_find (smap_update (cache_id (h e)) (\<lambda>_. dist + 1) d) k = Some n' \<and> n \<le> n'" if "known < dist + 1"
      using that Some Cons.prems by (auto simp: smap_find_update)
    then show ?thesis
      using Some Cons.IH [of "smap_update (cache_id (h e)) (\<lambda>_. dist + 1) d"] Cons.prems
      by (auto) (meson order_trans)
  qed
qed simp

text \<open>Above an internal node that is not in the kill list there is none that is.\<close>

definition full_subtrees :: "heap \<Rightarrow> addr set \<Rightarrow> list_id set \<Rightarrow> bool" where
  "full_subtrees h X K \<longleftrightarrow>
     (\<forall>b \<in> X. \<forall>e p. parent (h b) = Some e \<longrightarrow> parent (h e) = Some p \<longrightarrow>
        cache_id (h p) \<in> K \<longrightarrow> cache_id (h e) \<in> K)"

lemma full_subtrees_above:
  assumes po: "parents_older h" and closed: "\<And>e p. e \<in> X \<Longrightarrow> parent (h e) = Some p \<Longrightarrow> p \<in> X"
    and F: "full_subtrees h X K"
  shows "b \<in> X \<Longrightarrow> parent (h b) = Some e \<Longrightarrow> cache_id (h e) \<notin> K \<Longrightarrow> a \<in> set (chain h e) \<Longrightarrow> cache_id (h a) \<notin> K"
proof (induction e arbitrary: b rule: less_induct)
  case (less e)
  show ?case
  proof (cases "parent (h e)")
    case None
    with less.prems show ?thesis by simp
  next
    case (Some p)
    have "e \<in> X" "p < e" using closed less.prems(1,2) po Some by (auto simp: parents_older_def)
    moreover have "cache_id (h p) \<notin> K" using F less.prems Some unfolding full_subtrees_def by blast
    ultimately show ?thesis using less.IH [of p e] less.prems(3,4) Some chain_step [OF po Some] by auto
  qed
qed

lemma raise_distances_grown:
  assumes po: "parents_older h"
    and closed: "\<And>e p. e \<in> X \<Longrightarrow> parent (h e) = Some p \<Longrightarrow> p \<in> X"
    and inj: "\<And>a b. a \<in> X \<Longrightarrow> b \<in> X \<Longrightarrow> cache_id (h a) = cache_id (h b) \<Longrightarrow> a = b"
  shows "x \<in> X \<Longrightarrow> growing h X d x dist \<Longrightarrow> full_subtrees h X (smap_keys d) \<Longrightarrow>
    grown h X (raise_distances h (tl (chain h x)) dist d)"
proof (induction x arbitrary: d dist rule: less_induct)
  case (less x)
  show ?case
  proof (cases "parent (h x)")
    case None
    have "grown h X d" unfolding grown_def
      using less.prems(2) None unfolding growing_def by (metis option.distinct(1))
    then show ?thesis using None by simp
  next
    case (Some p)
    have p: "p < x" "p \<in> X" using po closed less.prems(1) Some by (auto simp: parents_older_def)
    obtain rest where C: "chain h p = p # rest" using chain_Cons by blast
    have tlc: "tl (chain h x) = chain h p" using chain_step [OF po Some] by simp
    show ?thesis
    proof (cases "smap_find d (cache_id (h p))")
      case None
      then have "raise_distances h (tl (chain h x)) dist d = d"
        unfolding tlc using full_subtrees_above [OF po closed less.prems(3,1) Some]
        by (intro raise_distances_skip) (simp add: smap_find_None_iff)
      moreover have "grown h X d" unfolding grown_def
        using less.prems(2) None Some unfolding growing_def by (metis option.distinct(1) option.inject)
      ultimately show ?thesis by simp
    next
      case K: (Some known)
      show ?thesis
      proof (cases "known < dist + 1")
        case True
        let ?d = "smap_update (cache_id (h p)) (\<lambda>_. dist + 1) d"
        have find': "smap_find ?d (cache_id (h a)) = (if a = p then Some (dist + 1) else smap_find d (cache_id (h a)))"
          if "a \<in> X" for a using that inj [OF that p(2)] K by (auto simp: smap_find_update)
        have "growing h X ?d p (dist + 1)" unfolding growing_def
        proof (intro ballI allI impI)
          fix e q n m assume e: "e \<in> X" "parent (h e) = Some q" "smap_find ?d (cache_id (h e)) = Some n" "0 < n"
            "smap_find ?d (cache_id (h q)) = Some m"
          have q: "q \<in> X" "q \<noteq> e" using closed e(1,2) po by (auto simp: parents_older_def)
          show "n < m \<or> e = p \<and> n = dist + 1"
          proof (cases "e = p")
            case False
            then have n: "smap_find d (cache_id (h e)) = Some n" using e(3) find' [OF e(1)] by simp
            show ?thesis
            proof (cases "q = p")
              case True
              then have "n < known \<or> n = dist" "m = dist + 1"
                using less.prems(2) e n K find' [OF q(1)] unfolding growing_def by force+
              then show ?thesis using \<open>known < dist + 1\<close> by auto
            next
              case False
              then have "smap_find d (cache_id (h q)) = Some m" using e(5) find' [OF q(1)] by simp
              then have "n < m \<or> e = x \<and> n = dist" using less.prems(2) e n unfolding growing_def by blast
              then show ?thesis using Some e(2) False by auto
            qed
          qed (use e(3) find' [OF e(1)] in simp)
        qed
        moreover have "smap_keys ?d = smap_keys d"
          using keys_smap_update [of "cache_id (h p)" "\<lambda>_. dist + 1" d] unfolding smap_keys_def by (metis list.set_map)
        ultimately have "grown h X (raise_distances h (tl (chain h p)) (dist + 1) ?d)"
          using less.IH [OF p] less.prems(3) by simp
        then show ?thesis using True K by (simp add: tlc C)
      next
        case False
        have "grown h X d" unfolding grown_def
        proof (intro ballI allI impI)
          fix e q n m assume e: "e \<in> X" "parent (h e) = Some q" "smap_find d (cache_id (h e)) = Some n" "0 < n"
            "smap_find d (cache_id (h q)) = Some m"
          then have "n < m \<or> e = x \<and> n = dist" using less.prems(2) unfolding growing_def by blast
          then show "n < m" using e K Some False by auto
        qed
        then show ?thesis using False K by (simp add: tlc C)
      qed
    qed
  qed
qed

lemma smap_keys_raise: "smap_keys (raise_distances h es dist d) = smap_keys d"
  using raise_distances_keys [of h es dist d] unfolding smap_keys_def by (metis list.set_map)

lemma raise_distances_touches:
  assumes "smap_find d (cache_id (h p)) \<noteq> None"
  shows "\<exists>n. smap_find (raise_distances h (p # es) 0 d) (cache_id (h p)) = Some n \<and> 0 < n"
proof -
  obtain known where K: "smap_find d (cache_id (h p)) = Some known" using assms by blast
  show ?thesis
  proof (cases "known < 1")
    case True
    have "smap_find (smap_update (cache_id (h p)) (\<lambda>_. 1) d) (cache_id (h p)) = Some 1" using K by (simp add: smap_find_update)
    from raise_distances_mono [OF this, of h es 1] show ?thesis using K True by auto
  qed (use K in auto)
qed

text \<open>The distances after all leaves have been walked up.\<close>

definition all_distances :: "'a cache_scheme \<Rightarrow> list_id list \<Rightarrow> (list_id, nat) smap \<Rightarrow> (list_id, nat) smap" where
  "all_distances c leaves d =
     fold (\<lambda>i d. raise_distances (objs c) (tl (chain (objs c) (the (lookup c i)))) 0 d) leaves d"

lemma all_distances_simps [simp]:
  "all_distances c [] d = d"
  "all_distances c (i # is) d =
     all_distances c is (raise_distances (objs c) (tl (chain (objs c) (the (lookup c i)))) 0 d)"
  by (simp_all add: all_distances_def)

lemma all_distances_mono:
  "smap_find d k = Some n \<Longrightarrow> \<exists>m. smap_find (all_distances c leaves d) k = Some m \<and> n \<le> m"
proof (induction leaves arbitrary: d n)
  case (Cons i leaves)
  obtain m where "smap_find (raise_distances (objs c) (tl (chain (objs c) (the (lookup c i)))) 0 d) k = Some m" "n \<le> m"
    using raise_distances_mono [OF Cons.prems] by blast
  then show ?case using Cons.IH by fastforce
qed simp

lemma all_distances_keys: "map fst (all_distances c leaves d) = map fst d"
  by (induction leaves arbitrary: d) (simp_all add: raise_distances_keys)

lemma all_distances_touch:
  assumes I: "cache_inv L c xs"
  shows "i \<in> set leaves \<Longrightarrow> lookup c i = Some x \<Longrightarrow> parent (objs c x) = Some p \<Longrightarrow>
    cache_id (objs c p) \<in> smap_keys d \<Longrightarrow> \<exists>n. smap_find (all_distances c leaves d) (cache_id (objs c p)) = Some n \<and> 0 < n"
proof (induction leaves arbitrary: d)
  case (Cons j leaves)
  let ?d = "raise_distances (objs c) (tl (chain (objs c) (the (lookup c j)))) 0 d"
  show ?case
  proof (cases "j = i")
    case True
    obtain rest where "chain (objs c) p = p # rest" using chain_Cons by blast
    then have "tl (chain (objs c) (the (lookup c j))) = p # rest"
      using chain_step [OF aging_list_ofD(3) [OF cache_invD(1) [OF I]] Cons.prems(3)] True Cons.prems(2) by simp
    then obtain n where "smap_find ?d (cache_id (objs c p)) = Some n" "0 < n"
      using raise_distances_touches [of d "objs c" p rest] Cons.prems(4) by (auto simp: smap_find_None_iff)
    then show ?thesis using all_distances_mono [of ?d _ n c leaves] by fastforce
  next
    case False
    then show ?thesis using Cons.IH [of ?d] Cons.prems by (simp add: smap_keys_raise)
  qed
qed simp

lemma all_distances_grown:
  assumes I: "cache_inv L c xs"
  shows "\<forall>i \<in> set leaves. lookup c i \<noteq> None \<Longrightarrow> grown (objs c) (set xs) d \<Longrightarrow>
    full_subtrees (objs c) (set xs) (smap_keys d) \<Longrightarrow> grown (objs c) (set xs) (all_distances c leaves d)"
proof (induction leaves arbitrary: d)
  case (Cons i leaves)
  note A = aging_list_ofD [OF cache_invD(1) [OF I]]
  obtain x where x: "lookup c i = Some x" using Cons.prems(1) by auto
  have "grown (objs c) (set xs) (raise_distances (objs c) (tl (chain (objs c) x)) 0 d)"
  proof (rule raise_distances_grown [OF A(3)])
    show "growing (objs c) (set xs) d x 0" using Cons.prems(2) unfolding grown_def growing_def by blast
    show "p \<in> set xs" if "e \<in> set xs" "parent (objs c e) = Some p" for e p
      by (rule parents_after_member [OF A(4) that])
    show "a = b" if "a \<in> set xs" "b \<in> set xs" "cache_id (objs c a) = cache_id (objs c b)" for a b
      by (rule ids_inj [OF I that])
    show "x \<in> set xs" using lookup_member [OF I x] by simp
    show "full_subtrees (objs c) (set xs) (smap_keys d)" by (rule Cons.prems(3))
  qed
  then show ?case using Cons x by (simp add: smap_keys_raise)
qed simp

lemma all_positive:
  assumes G: "grown h X d" and "finite X" and po: "parents_older h"
    and child: "\<And>a. a \<in> X \<Longrightarrow> cache_id (h a) \<in> smap_keys d \<Longrightarrow>
      \<exists>b \<in> X. parent (h b) = Some a \<and>
        (cache_id (h b) \<in> smap_keys d \<or> (\<exists>n. smap_find d (cache_id (h a)) = Some n \<and> 0 < n))"
  shows "a \<in> X \<Longrightarrow> cache_id (h a) \<in> smap_keys d \<Longrightarrow> \<exists>n. smap_find d (cache_id (h a)) = Some n \<and> 0 < n"
proof (induction "Max X - a" arbitrary: a rule: less_induct)
  case less
  obtain b where b: "b \<in> X" "parent (h b) = Some a"
    "cache_id (h b) \<in> smap_keys d \<or> (\<exists>n. smap_find d (cache_id (h a)) = Some n \<and> 0 < n)"
    using child less.prems by blast
  show ?case
  proof (cases "cache_id (h b) \<in> smap_keys d")
    case True
    have "a < b" "b \<le> Max X" using po b assms(2) by (auto simp: parents_older_def)
    then have "Max X - b < Max X - a" by simp
    then obtain n where n: "smap_find d (cache_id (h b)) = Some n" "0 < n" using less.hyps b(1) True by blast
    moreover obtain m where m: "smap_find d (cache_id (h a)) = Some m"
      using less.prems(2) smap_find_None_iff [of d "cache_id (h a)"] by blast
    ultimately have "n < m" using G b(1,2) unfolding grown_def by blast
    then show ?thesis using m by auto
  qed (use b in blast)
qed

section \<open>The order of the kill list\<close>

text \<open>The kill lists \<^verbatim>\<open>purge_subtree()\<close> makes: known objects, each once, with all
  their children.\<close>

definition kill_list_ok :: "'a cache_scheme \<Rightarrow> list_id list \<Rightarrow> bool" where
  "kill_list_ok c ks \<longleftrightarrow> distinct ks \<and> (\<forall>i \<in> set ks. lookup c i \<noteq> None) \<and>
     (\<forall>(j, b) \<in> set (all_objects c). \<forall>i \<in> set ks. parent (objs c b) = lookup c i \<longrightarrow> j \<in> set ks)"

text \<open>Children first.\<close>

definition children_first :: "'a cache_scheme \<Rightarrow> list_id list \<Rightarrow> bool" where
  "children_first c ks \<longleftrightarrow> sorted_wrt (\<lambda>i j. parent (objs c (the (lookup c j))) \<noteq> lookup c i) ks"

lemma kill_child:
  assumes I: "cache_inv L c xs" and "kill_list_ok c ks" and b: "b \<in> set xs" "parent (objs c b) = Some a"
    and "lookup c i = Some a" "i \<in> set ks"
  shows "cache_id (objs c b) \<in> set ks"
proof -
  have "(cache_id (objs c b), b) \<in> set (all_objects c)"
    using member_lookup(1) [OF I b(1)] smap_find_SomeD by (simp add: lookup_def)
  then show ?thesis using assms(2,4-6) unfolding kill_list_ok_def by fastforce
qed

lemma fold_zero:
  assumes "distinct is"
  shows "smap_keys (fold (\<lambda>i d. smap_insert i (0::nat) d) is []) = set is \<and>
    smap_ok (fold (\<lambda>i d. smap_insert i (0::nat) d) is ([] :: (list_id, nat) smap)) \<and>
    (\<forall>k n. smap_find (fold (\<lambda>i d. smap_insert i (0::nat) d) is []) k = Some n \<longrightarrow> n = 0)"
  using assms
proof (induction "is" rule: rev_induct)
  case (snoc i "is")
  then show ?case by (auto simp: smap_find_insert split: if_splits)
qed simp

lemma sort_distances:
  fixes d :: "(list_id, nat) smap"
  assumes ok: "smap_ok d"
  shows "set (map snd (sort (map (\<lambda>(i, n). (n, i)) d))) = smap_keys d"
    and "distinct (map snd (sort (map (\<lambda>(i, n). (n, i)) d)))"
    and "sorted_wrt (\<lambda>i j. the (smap_find d i) \<le> the (smap_find d j)) (map snd (sort (map (\<lambda>(i, n). (n, i)) d)))"
proof -
  let ?s = "sort (map (\<lambda>(i, n). (n, i)) d)"
  show S: "set (map snd ?s) = smap_keys d" by (force simp: smap_keys_def)
  have "card (set (map snd ?s)) = length (map snd ?s)" unfolding S by (simp add: card_smap_keys [OF ok])
  then show "distinct (map snd ?s)" by (rule card_distinct)
  have v: "the (smap_find d (snd x)) = fst x" if "x \<in> set ?s" for x
  proof -
    have "(snd x, fst x) \<in> set d" using that by (auto simp: case_prod_unfold)
    then show ?thesis using smap_find_iff [OF ok] by (metis option.sel)
  qed
  have "sorted_wrt (\<le>) ?s" by simp
  then show "sorted_wrt (\<lambda>i j. the (smap_find d i) \<le> the (smap_find d j)) (map snd ?s)"
    unfolding sorted_wrt_map
    by (rule sorted_wrt_mono_rel [rotated]) (use v in \<open>auto simp: less_eq_prod_def\<close>)
qed

text \<open>With full subtrees the distances order parents strictly after their children.\<close>

lemma kill_distances:
  assumes I: "cache_inv L c xs" and ok: "kill_list_ok c ks"
    and leaf: "leaf = (\<lambda>i. is_leaf (objs c (the (lookup c i))))"
    and d: "d = all_distances c (filter leaf ks) (fold (\<lambda>i d. smap_insert i 0 d) (filter (\<lambda>i. \<not> leaf i) ks) [])"
  shows "smap_ok d" and "smap_keys d = set (filter (\<lambda>i. \<not> leaf i) ks)"
    and "length d = length (filter (\<lambda>i. \<not> leaf i) ks)"
    and "\<And>a b. a \<in> set xs \<Longrightarrow> parent (objs c a) = Some b \<Longrightarrow> cache_id (objs c a) \<in> smap_keys d \<Longrightarrow>
      cache_id (objs c b) \<in> smap_keys d \<Longrightarrow>
      the (smap_find d (cache_id (objs c a))) < the (smap_find d (cache_id (objs c b)))"
proof -
  note A = aging_list_ofD [OF cache_invD(1) [OF I]]
  let ?int = "filter (\<lambda>i. \<not> leaf i) ks" and ?X = "set xs" and ?h = "objs c"
  let ?d0 = "fold (\<lambda>i d. smap_insert i (0::nat) d) ?int []"
  have "distinct ?int" using ok by (simp add: kill_list_ok_def)
  note Z = fold_zero [OF this]
  have keys: "map fst d = map fst ?d0" by (simp add: d all_distances_keys)
  then show okd: "smap_ok d" using Z by (simp add: smap_ok_def)
  show K: "smap_keys d = set ?int" using keys Z unfolding smap_keys_def by (metis list.set_map)
  show "length d = length ?int"
    using card_smap_keys [OF okd] K distinct_card [OF \<open>distinct ?int\<close>] by simp
  have look: "lookup c (cache_id (?h a)) = Some a" if "a \<in> ?X" for a using member_lookup(1) [OF I that] .
  have key: "cache_id (?h a) \<in> smap_keys d \<longleftrightarrow> cache_id (?h a) \<in> set ks \<and> \<not> is_leaf (?h a)" if "a \<in> ?X" for a
    using K look [OF that] by (auto simp: leaf)
  have inner: "\<not> is_leaf (?h a)" if "b \<in> ?X" "parent (?h b) = Some a" for a b
    using is_leaf_iff [OF cache_invD(6) [OF I] parents_after_member [OF A(4) that]] that by auto
  have "full_subtrees ?h ?X (smap_keys d)" unfolding full_subtrees_def
  proof (intro ballI allI impI)
    fix b e p assume *: "b \<in> ?X" "parent (?h b) = Some e" "parent (?h e) = Some p" "cache_id (?h p) \<in> smap_keys d"
    have e: "e \<in> ?X" "p \<in> ?X" using parents_after_member [OF A(4)] * by blast+
    then have "cache_id (?h e) \<in> set ks"
      using kill_child [OF I ok e(1) *(3) look [OF e(2)]] *(4) key by blast
    then show "cache_id (?h e) \<in> smap_keys d" using key [OF e(1)] inner [OF *(1,2)] by blast
  qed
  moreover have K0: "smap_keys ?d0 = smap_keys d" using Z K by blast
  moreover have "grown ?h ?X ?d0" unfolding grown_def using Z by (metis less_irrefl)
  moreover have "\<forall>i \<in> set (filter leaf ks). lookup c i \<noteq> None" using ok by (simp add: kill_list_ok_def)
  ultimately have G: "grown ?h ?X d" unfolding d by (intro all_distances_grown [OF I]) simp_all
  have pos: "\<exists>n. smap_find d (cache_id (?h a)) = Some n \<and> 0 < n" if a: "a \<in> ?X" "cache_id (?h a) \<in> smap_keys d" for a
  proof (rule all_positive [OF G _ A(3) _ a])
    fix a assume a: "a \<in> ?X" "cache_id (?h a) \<in> smap_keys d"
    then obtain b where b: "b \<in> ?X" "parent (?h b) = Some a"
      using key [OF a(1)] is_leaf_iff [OF cache_invD(6) [OF I] a(1)] by auto
    have "cache_id (?h b) \<in> set ks" using kill_child [OF I ok b look [OF a(1)]] key [OF a(1)] a(2) by blast
    moreover have "\<exists>n. smap_find d (cache_id (?h a)) = Some n \<and> 0 < n" if "cache_id (?h b) \<in> set ks" "is_leaf (?h b)"
      unfolding d using all_distances_touch [OF I _ look [OF b(1)] b(2), of "filter leaf ks" ?d0] that a(2) K Z look [OF b(1)]
      by (simp add: leaf)
    ultimately show "\<exists>b \<in> ?X. parent (?h b) = Some a \<and>
        (cache_id (?h b) \<in> smap_keys d \<or> (\<exists>n. smap_find d (cache_id (?h a)) = Some n \<and> 0 < n))"
      using b key [OF b(1)] by blast
  qed simp
  show "the (smap_find d (cache_id (?h a))) < the (smap_find d (cache_id (?h b)))"
    if a: "a \<in> ?X" "parent (?h a) = Some b" "cache_id (?h a) \<in> smap_keys d" "cache_id (?h b) \<in> smap_keys d" for a b
  proof -
    obtain n m where "smap_find d (cache_id (?h a)) = Some n" "0 < n" "smap_find d (cache_id (?h b)) = Some m"
      using pos [OF a(1,3)] pos [OF parents_after_member [OF A(4) a(1,2)] a(4)] by blast
    then show ?thesis using G a(1,2) unfolding grown_def by fastforce
  qed
qed

lemma leaf_no_parent:
  assumes I: "cache_inv L c xs" and "lookup c i = Some a" and "is_leaf (objs c a)" and "lookup c j \<noteq> None"
  shows "parent (objs c (the (lookup c j))) \<noteq> lookup c i"
proof -
  have a: "a \<in> set xs" using lookup_member [OF I assms(2)] by simp
  obtain b where "lookup c j = Some b" using assms(4) by blast
  moreover have "b \<in> set xs" using lookup_member [OF I] \<open>lookup c j = Some b\<close> by blast
  ultimately show ?thesis using is_leaf_iff [OF cache_invD(6) [OF I] a] assms(2,3) by auto
qed

lemma kill_list_has_leaf:
  assumes I: "cache_inv L c xs" and ok: "kill_list_ok c ks" and "ks \<noteq> []"
  shows "\<exists>i \<in> set ks. is_leaf (objs c (the (lookup c i)))"
proof (rule ccontr)
  assume no: "\<not> ?thesis"
  let ?S = "(\<lambda>i. the (lookup c i)) ` set ks"
  have "Max ?S \<in> ?S" using assms(3) by (intro Max_in) auto
  then obtain i where i: "Max ?S = the (lookup c i)" "i \<in> set ks" by (rule imageE)
  obtain a where a: "lookup c i = Some a" using ok i(2) by (auto simp: kill_list_ok_def)
  have "\<not> is_leaf (objs c a)" using no i(2) a by auto
  then obtain b where b: "b \<in> set xs" "parent (objs c b) = Some a"
    using is_leaf_iff [OF cache_invD(6) [OF I], of a] lookup_member [OF I a] by auto
  have "cache_id (objs c b) \<in> set ks" by (rule kill_child [OF I ok b a i(2)])
  then have "b \<in> ?S" using member_lookup(1) [OF I b(1)] by force
  then have "b \<le> Max ?S" by (intro Max_ge) auto
  moreover have "a < b" using aging_list_ofD(3) [OF cache_invD(1) [OF I]] b(2) by (auto simp: parents_older_def)
  ultimately show False using i(1) a by simp
qed

lemma children_first_leaves:
  assumes I: "cache_inv L c xs" and "\<forall>i \<in> set is. lookup c i \<noteq> None \<and> is_leaf (objs c (the (lookup c i)))"
    and "\<forall>j \<in> set js. lookup c j \<noteq> None" and "children_first c js"
  shows "children_first c (is @ js)"
proof -
  have "parent (objs c (the (lookup c j))) \<noteq> lookup c i" if "i \<in> set is" "lookup c j \<noteq> None" for i j
    using leaf_no_parent [OF I _ _ that(2)] assms(2) that(1) by fastforce
  then show ?thesis
    using assms(2-4) unfolding children_first_def sorted_wrt_append
    by (auto intro!: sorted_wrt_mono_rel [of "is" "\<lambda>_ _. True"] simp: sorted_wrt_iff_nth_less)
qed

lemma children_first_distances:
  fixes d :: "(list_id, nat) smap"
  assumes I: "cache_inv L c xs" and js: "\<forall>j \<in> set js. lookup c j \<noteq> None \<and> j \<in> smap_keys d"
    and sorted: "sorted_wrt (\<lambda>i j. the (smap_find d i) \<le> the (smap_find d j)) js"
    and less: "\<And>a b. a \<in> set xs \<Longrightarrow> parent (objs c a) = Some b \<Longrightarrow> cache_id (objs c a) \<in> smap_keys d \<Longrightarrow>
      cache_id (objs c b) \<in> smap_keys d \<Longrightarrow>
      the (smap_find d (cache_id (objs c a))) < the (smap_find d (cache_id (objs c b)))"
  shows "children_first c js"
  unfolding children_first_def
proof (rule sorted_wrt_mono_rel [OF _ sorted])
  fix i j assume ij: "i \<in> set js" "j \<in> set js" "the (smap_find d i) \<le> the (smap_find d j)"
  obtain a b where ab: "lookup c i = Some a" "lookup c j = Some b" using js ij by blast
  note m = lookup_member [OF I ab(1)] lookup_member [OF I ab(2)]
  show "parent (objs c (the (lookup c j))) \<noteq> lookup c i"
    using less [of b a] m js ij ab by auto
qed

theorem toposort_spec:
  assumes I: "cache_inv L c xs" and ok: "kill_list_ok c ks"
  shows "\<exists>ks'. toposort_for_purge c ks = Some (ks', True) \<and> set ks' = set ks \<and> distinct ks' \<and> children_first c ks'"
proof -
  define leaf where "leaf = (\<lambda>i. is_leaf (objs c (the (lookup c i))))"
  let ?l = "filter leaf ks" and ?n = "filter (\<lambda>i. \<not> leaf i) ks"
  have look: "\<And>i. i \<in> set ks \<Longrightarrow> lookup c i \<noteq> None" and dist: "distinct ks" using ok by (auto simp: kill_list_ok_def)
  then have known: "\<not> (\<exists>i \<in> set ks. lookup c i = None)" by blast
  have leaves: "\<forall>i \<in> set ?l. lookup c i \<noteq> None \<and> is_leaf (objs c (the (lookup c i)))"
    using look by (simp add: leaf_def)
  show ?thesis
  proof (cases "?n = []")
    case True
    then have "toposort_for_purge c ks = Some (?l, True)"
      using known by (simp add: toposort_for_purge_def Let_def flip: leaf_def)
    moreover have "children_first c (?l @ [])"
      by (rule children_first_leaves [OF I leaves]) (simp_all add: children_first_def)
    ultimately show ?thesis using True dist by (auto simp: filter_empty_conv)
  next
    case False
    define d where "d = all_distances c ?l (fold (\<lambda>i d. smap_insert i 0 d) ?n [])"
    define ns where "ns = map snd (sort (map (\<lambda>(i, n). (n, i)) d))"
    note D = kill_distances [OF I ok leaf_def d_def]
    note S = sort_distances [OF D(1), folded ns_def]
    have "ks \<noteq> []" using False by auto
    then have "?l \<noteq> []" using kill_list_has_leaf [OF I ok] by (auto simp: leaf_def filter_empty_conv)
    moreover have "length d = length ?n" by (rule D(3))
    ultimately have "toposort_for_purge c ks = Some (?l @ ns, True)"
      using known False
      by (simp add: toposort_for_purge_def Let_def leaf_def [symmetric] all_distances_def [symmetric]
          d_def [symmetric] ns_def [symmetric])
    moreover have "children_first c (?l @ ns)"
      by (rule children_first_leaves [OF I leaves _ children_first_distances [OF I _ S(3) D(4)]])
        (use S(1) D(2) look in auto)
    moreover have "set (?l @ ns) = set ks" "distinct (?l @ ns)" using S(1,2) D(2) dist by auto
    ultimately show ?thesis by blast
  qed
qed

section \<open>Removing the objects of a kill list\<close>

lemma lookup_discarded:
  assumes "cache_inv L c xs"
  shows "lookup (discarded a c) j = (if j = cache_id (objs c a) then None else lookup c j)"
  using cache_invD(5) [OF assms] by (simp add: lookup_def discarded_def Let_def smap_find_erase ids_ok_def)

lemma kill_head_leaf:
  assumes I: "cache_inv L c xs" and ok: "kill_list_ok c (i # ks)" and cf: "children_first c (i # ks)"
    and a: "lookup c i = Some a"
  shows "is_leaf (objs c a)"
proof (rule ccontr)
  have m: "a \<in> set xs" "cache_id (objs c a) = i" using lookup_member [OF I a] by auto
  assume "\<not> is_leaf (objs c a)"
  then obtain b where b: "b \<in> set xs" "parent (objs c b) = Some a"
    using is_leaf_iff [OF cache_invD(6) [OF I] m(1)] by auto
  have "cache_id (objs c b) \<in> set (i # ks)" using kill_child [OF I ok b a] by simp
  moreover have "b \<noteq> a" using aging_list_ofD(3) [OF cache_invD(1) [OF I]] b(2) by (auto simp: parents_older_def)
  then have "cache_id (objs c b) \<noteq> i" using ids_inj [OF I b(1) m(1)] m(2) by auto
  ultimately have "cache_id (objs c b) \<in> set ks" by simp
  then have "parent (objs c (the (lookup c (cache_id (objs c b))))) \<noteq> lookup c i"
    using cf by (simp add: children_first_def)
  then show False using member_lookup(1) [OF I b(1)] a b(2) by simp
qed

lemma kill_tail:
  assumes I: "cache_inv L c xs" and ok: "kill_list_ok c (i # ks)" and cf: "children_first c (i # ks)"
    and a: "lookup c i = Some a" and c': "cache.truncate c' = cache.truncate (discarded a c)"
  shows "kill_list_ok c' ks" and "children_first c' ks"
    and "\<And>j. j \<in> set ks \<Longrightarrow> lookup c' j = lookup c j"
proof -
  have ida: "cache_id (objs c a) = i" using lookup_member [OF I a] by simp
  have look: "lookup c' j = (if j = i then None else lookup c j)" for j
    using lookup_discarded [OF I, of a j] truncate_eqD(6) [OF c'] ida by (simp add: lookup_def)
  have par: "parent (objs c' b) = parent (objs c b)" for b
    using truncate_eqD(1) [OF c'] by (simp add: unhooked_fields)
  have ni: "i \<notin> set ks" "distinct ks" using ok by (auto simp: kill_list_ok_def)
  show L: "\<And>j. j \<in> set ks \<Longrightarrow> lookup c' j = lookup c j" using look ni by auto
  have "set (all_objects c') \<subseteq> {x \<in> set (all_objects c). fst x \<noteq> i}"
    using truncate_eqD(6) [OF c'] set_smap_erase [of "all_objects c" i] cache_invD(5) [OF I] ida
    by (simp add: discarded_def Let_def ids_ok_def)
  then have "(j, b) \<in> set (all_objects c) \<and> j \<noteq> i" if "(j, b) \<in> set (all_objects c')" for j b using that by auto
  then show "kill_list_ok c' ks"
    using ok L ni unfolding kill_list_ok_def par by fastforce
  show "children_first c' ks"
    using cf unfolding children_first_def par sorted_wrt.simps
    by (rule conjunct2 [THEN sorted_wrt_mono_rel [rotated]]) (use L in simp)
qed

context lru_client
begin

theorem purge_entries_keeps:
  assumes "cache_inv L c xs" and "kill_list_ok c ks" and "children_first c ks"
    and "\<forall>i \<in> set ks. \<not> pinned (objs c (the (lookup c i)))" and "Q c xs" and Q: "discard_keeps L notify Q"
  shows "\<exists>c'. purge_entries L cb now ks notify c = Some c' \<and>
    cache_inv L c' (filter (\<lambda>a. cache_id (objs c a) \<notin> set ks) xs) \<and> gc_frame c c' \<and>
    Q c' (filter (\<lambda>a. cache_id (objs c a) \<notin> set ks) xs)"
  using assms(1-5)
proof (induction ks arbitrary: c xs)
  case Nil
  then show ?case by simp
next
  case (Cons i ks)
  obtain a where a: "lookup c i = Some a" using Cons.prems(2) by (auto simp: kill_list_ok_def)
  have m: "a \<in> set xs" "cache_id (objs c a) = i" using lookup_member [OF Cons.prems(1) a] by auto
  have up: "\<not> pinned (objs c a)" using Cons.prems(4) a by simp
  let ?c = "fst (discard cb a notify c)"
  have leaf: "is_leaf (objs c a)" by (rule kill_head_leaf [OF Cons.prems(1-3) a])
  have I': "cache_inv L ?c (removeAll a xs)" by (rule discard_inv [OF Cons.prems(1) m(1) leaf up])
  have Q': "Q ?c (removeAll a xs)"
    using Q [unfolded discard_keeps_def, rule_format, OF Cons.prems(1) m(1) leaf up Cons.prems(5)] .
  note T = kill_tail [OF Cons.prems(1-3) a discard_core(1) [of a notify c]]
  have pin: "\<forall>j \<in> set ks. \<not> pinned (objs ?c (the (lookup ?c j)))"
    using Cons.prems(4) T(3) gc_frameD(4) [OF discard_frame] by simp
  obtain c' where R: "purge_entries L cb now ks notify ?c = Some c'"
    "cache_inv L c' (filter (\<lambda>b. cache_id (objs ?c b) \<notin> set ks) (removeAll a xs))" "gc_frame ?c c'"
    "Q c' (filter (\<lambda>b. cache_id (objs ?c b) \<notin> set ks) (removeAll a xs))"
    using Cons.IH [OF I' T(1,2) pin Q'] by blast
  have "filter (\<lambda>b. cache_id (objs ?c b) \<notin> set ks) (removeAll a xs) = filter (\<lambda>b. cache_id (objs c b) \<notin> set (i # ks)) xs"
  proof -
    have "cache_id (objs c b) = i \<longleftrightarrow> b = a" if "b \<in> set xs" for b
      using ids_inj [OF Cons.prems(1) that m(1)] m(2) by auto
    then show ?thesis
      by (auto simp: gc_frameD(2) [OF discard_frame] removeAll_filter_not_eq intro!: filter_cong)
  qed
  then show ?case using R a up gc_frame_trans [OF discard_frame R(3)] by auto
qed

lemma purge_entries_spec:
  assumes "cache_inv L c xs" and "kill_list_ok c ks" and "children_first c ks"
    and "\<forall>i \<in> set ks. \<not> pinned (objs c (the (lookup c i)))"
  shows "\<exists>c'. purge_entries L cb now ks notify c = Some c' \<and>
    cache_inv L c' (filter (\<lambda>a. cache_id (objs c a) \<notin> set ks) xs) \<and> gc_frame c c'"
  using purge_entries_keeps [OF assms, of "\<lambda>_ _. True"] by (auto simp: discard_keeps_def)

end

end
