(* ===== verification/Cache_Control.thy ===== *)
theory Cache_Control
  imports Lru_Purge
begin

text \<open>
  Periodic garbage collection (\<^verbatim>\<open>LRU::CacheControl\<close> in \<^verbatim>\<open>src/common/cachecontrol.cc\<close>):
  the one-shot timer that starts the collector again when the next object may have expired,
  and the notifications that the list brokers connect to it. The state extends the state of
  the cache. The ID that GLib gives to a newly attached timer is the parameter \<open>gid\<close>, a
  function of the sources that are attached already.
\<close>

record control = cache +
  timeout_source_id :: nat
  is_enabled :: bool
  sources :: "(nat \<times> nat) list"

definition minimum_timeout_ms :: int where
  "minimum_timeout_ms = 500"

definition G_MAXUINT :: int where
  "G_MAXUINT = 2 ^ 32 - 1"

definition set_timeout ::
  "((nat \<times> nat) list \<Rightarrow> nat) \<Rightarrow> int \<Rightarrow> 'a control_scheme \<Rightarrow> 'a control_scheme" where
  "set_timeout gid timeout c =
     (if timeout = seconds_max then c
      else
        let timeout_ms = timeout * 1000;
            source_timeout_ms =
              (if timeout_ms \<le> G_MAXUINT
               then (if timeout_ms \<ge> minimum_timeout_ms then timeout_ms else minimum_timeout_ms)
               else G_MAXUINT);
            sid = gid (sources c)
        in c\<lparr>timeout_source_id := sid, sources := sources c @ [(sid, nat source_timeout_ms)]\<rparr>)"

definition gc_and_set_timeout ::
  "((nat \<times> nat) list \<Rightarrow> nat) \<Rightarrow> 'a control_scheme lru_callbacks \<Rightarrow> time_point \<Rightarrow> 'a control_scheme \<Rightarrow>
   'a control_scheme option" where
  "gc_and_set_timeout gid cb now c =
     (let c0 = c\<lparr>timeout_source_id := 0\<rparr>
      in if is_enabled c0
         then do { (c1, t) \<leftarrow> gc cb now c0; Some (set_timeout gid t c1) }
         else Some c0)"

definition trigger_gc ::
  "((nat \<times> nat) list \<Rightarrow> nat) \<Rightarrow> 'a control_scheme lru_callbacks \<Rightarrow> time_point \<Rightarrow> 'a control_scheme \<Rightarrow>
   'a control_scheme option" where
  "trigger_gc gid cb now c = gc_and_set_timeout gid cb now c"

definition enable_garbage_collection ::
  "((nat \<times> nat) list \<Rightarrow> nat) \<Rightarrow> 'a control_scheme lru_callbacks \<Rightarrow> time_point \<Rightarrow> 'a control_scheme \<Rightarrow>
   'a control_scheme option" where
  "enable_garbage_collection gid cb now c =
     (let c0 = c\<lparr>is_enabled := True\<rparr>
      in if timeout_source_id c0 = 0 then gc_and_set_timeout gid cb now c0 else Some c0)"

definition disable_garbage_collection :: "'a control_scheme \<Rightarrow> 'a control_scheme" where
  "disable_garbage_collection c = c\<lparr>is_enabled := False\<rparr>"

text \<open>A timer fires: its source leaves the main loop when the callback returns.\<close>

definition timer_fired ::
  "((nat \<times> nat) list \<Rightarrow> nat) \<Rightarrow> 'a control_scheme lru_callbacks \<Rightarrow> time_point \<Rightarrow> nat \<Rightarrow> 'a control_scheme \<Rightarrow>
   'a control_scheme option" where
  "timer_fired gid cb now sid c =
     map_option (\<lambda>c'. c'\<lparr>sources := filter (\<lambda>s. fst s \<noteq> sid) (sources c')\<rparr>) (trigger_gc gid cb now c)"

text \<open>The callbacks as the two list brokers connect them (\<^verbatim>\<open>set_callbacks()\<close>): collection
  runs with the notifications of removals, which \<open>rcb\<close> gives.\<close>

definition broker_callbacks ::
  "((nat \<times> nat) list \<Rightarrow> nat) \<Rightarrow> 'a control_scheme lru_callbacks \<Rightarrow> time_point \<Rightarrow> 'a control_scheme lru_callbacks" where
  "broker_callbacks gid rcb now =
     rcb\<lparr>notify_first_object_inserted := enable_garbage_collection gid rcb now,
         notify_garbage_collection_needed := trigger_gc gid rcb now\<rparr>"

section \<open>The timer\<close>

lemma set_timeout_frame: "cache.truncate (set_timeout gid t c) = cache.truncate c"
  by (simp add: set_timeout_def Let_def cache.defs)

lemma set_timeout_ms:
  assumes "t \<noteq> seconds_max"
  shows "sources (set_timeout gid t c) = sources c @ [(gid (sources c), nat (min (max (t * 1000) 500) (2 ^ 32 - 1)))]"
    and "timeout_source_id (set_timeout gid t c) = gid (sources c)"
  using assms by (auto simp: set_timeout_def Let_def minimum_timeout_ms_def G_MAXUINT_def)

text \<open>Removal notifications may switch the collector off, but do not touch its timers.\<close>

locale gc_client = lru_client rcb for rcb :: "'a control_scheme lru_callbacks" +
  fixes gid :: "(nat \<times> nat) list \<Rightarrow> nat"
  assumes removed_timers: "sources (notify_object_removed rcb i c) = sources c"
      "timeout_source_id (notify_object_removed rcb i c) = timeout_source_id c"
    and last_removed_timers: "sources (notify_last_object_removed rcb c) = sources c"
      "timeout_source_id (notify_last_object_removed rcb c) = timeout_source_id c"
    and obliviate_timers: "sources (obliviate_child rcb p i e c) = sources c"
      "timeout_source_id (obliviate_child rcb p i e c) = timeout_source_id c"
begin

lemma gc_control_evicts:
  assumes "cache_inv L c xs" and "\<not> gc_running c"
  shows "\<exists>c' xs'. gc_and_set_timeout gid rcb now c = Some c' \<and> cache_inv L c' xs' \<and> evicts c xs c' xs'"
proof (cases "is_enabled c")
  case True
  let ?c0 = "c\<lparr>timeout_source_id := 0\<rparr>"
  have t0: "cache.truncate ?c0 = cache.truncate c" by (simp add: cache.defs)
  then have I0: "cache_inv L ?c0 xs" using assms(1) cache_inv_truncate [OF t0] by blast
  have "\<not> gc_running ?c0" using assms(2) by simp
  then obtain c1 xs' t where G: "gc rcb now ?c0 = Some (c1, t)" "cache_inv L c1 xs'" "evicts ?c0 xs c1 xs'"
    using gc_evicts [OF I0] by blast
  have s: "cache.truncate (set_timeout gid t c1) = cache.truncate c1" by (rule set_timeout_frame)
  have "evicts c xs (set_timeout gid t c1) xs'"
    using G(3) truncate_eqD [OF s] by (simp add: evicts_def gc_frame_def)
  moreover have "cache_inv L (set_timeout gid t c1) xs'" using G(2) cache_inv_truncate [OF s] by blast
  ultimately show ?thesis using True G(1) by (auto simp: gc_and_set_timeout_def)
next
  case False
  have t0: "cache.truncate (c\<lparr>timeout_source_id := 0\<rparr>) = cache.truncate c" by (simp add: cache.defs)
  then have "cache_inv L (c\<lparr>timeout_source_id := 0\<rparr>) xs" using assms(1) cache_inv_truncate [OF t0] by blast
  with False show ?thesis by (auto simp: gc_and_set_timeout_def evicts_def gc_frame_def)
qed

text \<open>The collector leaves the timers alone, and as long as it finds an object that may expire
  later, the timer is armed again.\<close>

lemma discard_timers:
  "sources (fst (discard rcb a n c)) = sources c \<and> timeout_source_id (fst (discard rcb a n c)) = timeout_source_id c"
  by (auto simp: discard_def Let_def case_prod_unfold removed_timers last_removed_timers obliviate_timers
      split: option.splits)

lemma gc_timers: "gc rcb now c = Some (c', t) \<Longrightarrow> sources c' = sources c"
  by (rule gc_preserves [where P = "\<lambda>x. sources x = sources c"]) (auto simp: discard_timers)

lemma gc_rearms:
  assumes gid_pos: "\<forall>s. gid s \<noteq> 0" and I: "cache_inv L c xs" and on: "is_enabled c" and age: "maximum_age_threshold c * 60 < seconds_max"
    and past: "used_before c now"
  obtains c' xs' where "gc_and_set_timeout gid rcb now c = Some c'" and "cache_inv L c' xs'"
    and "\<exists>a \<in> set xs'. \<not> pinned (objs c' a) \<Longrightarrow>
      timeout_source_id c' \<noteq> 0 \<and> (\<exists>ms. sources c' = sources c @ [(timeout_source_id c', ms)] \<and>
        500 \<le> ms \<and> int ms \<le> max 1000 (maximum_age_threshold c * 60000))"
proof -
  let ?c0 = "c\<lparr>timeout_source_id := 0\<rparr>"
  have t0: "cache.truncate ?c0 = cache.truncate c" by (simp add: cache.defs)
  then have I0: "cache_inv L ?c0 xs" using I cache_inv_truncate [OF t0] by blast
  obtain c1 xs' t where G: "gc rcb now ?c0 = Some (c1, t)" "cache_inv L c1 xs'"
      "gc_frame (?c0\<lparr>gc_running := False\<rparr>) c1" "gc_post now ?c0 xs c1 xs' t"
    using gc_spec [OF I0] by blast
  let ?c' = "set_timeout gid t c1"
  have s: "cache.truncate ?c' = cache.truncate c1" by (rule set_timeout_frame)
  have run: "gc_and_set_timeout gid rcb now c = Some ?c'" using on G(1) by (simp add: gc_and_set_timeout_def)
  have I': "cache_inv L ?c' xs'" using G(2) cache_inv_truncate [OF s] by blast
  show ?thesis
  proof (rule that [OF run I'])
    assume "\<exists>a \<in> set xs'. \<not> pinned (objs ?c' a)"
    then obtain a where a: "a \<in> set xs'" "\<not> pinned (objs c1 a)" using truncate_eqD(1) [OF s] by auto
    let ?dw = "dropWhile (\<lambda>a. pinned (objs c1 a)) xs'"
    obtain b bs where dw: "?dw = b # bs" using a by (cases ?dw) (auto simp: dropWhile_eq_Nil_conv)
    have "b \<in> set xs'" using set_dropWhileD [of b "\<lambda>a. pinned (objs c1 a)" xs'] dw by simp
    moreover have "set xs' \<subseteq> set xs" using G(4) by (auto simp: gc_post_def)
    ultimately have "last_used (objs c b) \<le> now" using past used_before_iff [OF I] by blast
    then have age0: "0 \<le> get_age now (objs c1 b)"
      using gc_frameD(5) [OF G(3)] by (simp add: get_age_def pos_imp_zdiv_nonneg_iff)
    have "t = max 1 (maximum_age_threshold c * 60 - tdiv (get_age now (objs c1 b)) 1000)"
      using G(4) dw gc_frameD(6) [OF G(3)] by (simp add: gc_post_def)
    then have t: "1 \<le> t" "t \<le> max 1 (maximum_age_threshold c * 60)"
      using age0 by (auto simp: pos_imp_zdiv_nonneg_iff)
    then have "t \<noteq> seconds_max" using age by (auto simp: seconds_max_def)
    note ms = set_timeout_ms [OF this, of gid c1]
    have "sources c1 = sources c" using gc_timers [OF G(1)] by simp
    moreover have "t * 1000 \<le> max 1000 (maximum_age_threshold c * 60000)" using t(2) by linarith
    then have "500 \<le> nat (min (max (t * 1000) 500) (2 ^ 32 - 1))"
      "int (nat (min (max (t * 1000) 500) (2 ^ 32 - 1))) \<le> max 1000 (maximum_age_threshold c * 60000)"
      using t(1) by (auto simp: le_nat_iff)
    ultimately show "timeout_source_id ?c' \<noteq> 0 \<and> (\<exists>ms. sources ?c' = sources c @ [(timeout_source_id ?c', ms)] \<and>
        500 \<le> ms \<and> int ms \<le> max 1000 (maximum_age_threshold c * 60000))"
      using ms gid_pos by simp
  qed
qed

end

text \<open>The broker's callbacks are callbacks the cache can work with.\<close>

sublocale gc_client \<subseteq> broker: lru_user "broker_callbacks gid rcb now" L for now L
proof
  fix c :: "'a control_scheme" and xs
  assume I: "cache_inv L c xs" "\<not> gc_running c"
  show "\<exists>c' xs'. notify_garbage_collection_needed (broker_callbacks gid rcb now) c = Some c' \<and>
      cache_inv L c' xs' \<and> evicts c xs c' xs'"
    using gc_control_evicts [OF I] by (simp add: broker_callbacks_def trigger_gc_def)
  let ?c0 = "c\<lparr>is_enabled := True\<rparr>"
  have t0: "cache.truncate ?c0 = cache.truncate c" by (simp add: cache.defs)
  have I0: "cache_inv L ?c0 xs" "\<not> gc_running ?c0" using I cache_inv_truncate [OF t0] by simp_all
  have ev: "evicts ?c0 xs c' xs' = evicts c xs c' xs'" for c' xs' by (simp add: evicts_def gc_frame_def)
  show "\<exists>c' xs'. notify_first_object_inserted (broker_callbacks gid rcb now) c = Some c' \<and>
      cache_inv L c' xs' \<and> evicts c xs c' xs'"
  proof (cases "timeout_source_id c = 0")
    case True
    then show ?thesis using gc_control_evicts [OF I0]
      by (simp add: broker_callbacks_def enable_garbage_collection_def ev)
  next
    case False
    moreover have "evicts c xs ?c0 xs" using ev evicts_refl by metis
    ultimately show ?thesis using I0(1)
      by (auto simp: broker_callbacks_def enable_garbage_collection_def)
  qed
qed (simp_all add: broker_callbacks_def removed_frame last_removed_frame obliviate_frame)

end
