(* ===== verification/Samples.thy ===== *)
theory Samples
  imports Cache_Control
begin

text \<open>
  Concrete values on which the hypotheses of the theorems are checked: the bit layout of list
  IDs that the program is built with, and a cache that holds a root list with one child.
\<close>

definition sample_layout :: ctx_layout where
  "sample_layout = \<lparr>context_id_mask = 0xf0000000, context_id_shift = 28, context_id_max = 15,
     context_get = (\<lambda>i. ucast (drop_bit 28 (i AND 0xf0000000)))\<rparr>"

lemma sample_layout_ok: "ctx_layout_ok sample_layout"
  by (simp add: ctx_layout_ok_def sample_layout_def mask_eq_exp_minus_1)

text \<open>Address 10 is the root (ID 1, used at 7), address 20 its child (ID 2, used at 5); 30 is a
  fresh list below the root, created at 8; all others are fresh roots.\<close>

definition sample_heap :: heap where
  "sample_heap = (\<lambda>a.
     if a = 10 then \<lparr>parent = None, children_count = 1, cache_id = 1, object_size = 10, pinned = False,
                    last_used = 7, younger = None, older = Some 20\<rparr>
     else if a = 20 then \<lparr>parent = Some 10, children_count = 0, cache_id = 2, object_size = 20, pinned = False,
                    last_used = 5, younger = Some 10, older = None\<rparr>
     else if a = 30 then mk_entry (Some 10) 8
     else mk_entry None 8)"

definition sample_cache :: cache where
  "sample_cache = \<lparr>objs = sample_heap, id_gen = mk_id_generator 1 (VALUE_MASK sample_layout),
     memory_limits = mk_cache_limits 1000 900 800, count_limits = mk_cache_limits 100 900 800,
     maximum_age_threshold = 15, all_objects = [(1, 10), (2, 20)],
     root_object = Some 10, oldest_object = Some 20, deepest_youngest_object = Some 10,
     pinned_object_id = 0, minimum_required_creation_time = 5, total_size = 30, gc_running = False\<rparr>"

lemma sample_chain:
  "chain sample_heap 10 = [10]" "chain sample_heap 20 = [20, 10]"
proof -
  have "parent (sample_heap 10) = None" "parent (sample_heap 20) = Some 10" by (simp_all add: sample_heap_def)
  then show "chain sample_heap 10 = [10]" "chain sample_heap 20 = [20, 10]"
    by (simp_all add: chain.simps [of sample_heap 20])
qed

lemma sample_valid: "id_is_valid sample_layout 1" "id_is_valid sample_layout 2"
  by (simp_all add: id_is_valid_def ListIDTraits_is_valid_def VALUE_MASK_def NOCACHE_BIT_def sample_layout_def)

lemma sample_inv: "cache_inv sample_layout sample_cache [20, 10]"
proof -
  have "aging_list_of sample_heap (Some 10) [20, 10]"
    unfolding aging_list_of_def by (auto simp: sample_chain parents_older_def sample_heap_def mk_entry_def)
  moreover have "roots_ok sample_heap [20, 10]" by (simp add: roots_ok_def sample_heap_def last_opt_def)
  moreover have "ids_ok sample_layout sample_heap [(1, 10), (2, 20)] {20, 10}"
    by (auto simp: ids_ok_def sample_heap_def sample_valid)
  moreover have "{b. (b = 20 \<or> b = 10) \<and> parent (sample_heap b) = Some 10} = {20}"
    "{b. (b = 20 \<or> b = 10) \<and> parent (sample_heap b) = Some 20} = {}"
    by (auto simp: sample_heap_def)
  then have "counts_ok sample_heap {20, 10} 30"
    by (simp add: counts_ok_def) (simp add: sample_heap_def)
  moreover have "pins_ok sample_layout sample_heap [(1, 10), (2, 20)] {20, 10} 0"
    by (auto simp: pins_ok_def pinned_path_def sample_heap_def)
  moreover have "ages_ok sample_heap (Some 10) [20, 10] 5"
    by (simp add: ages_ok_def sample_chain last_opt_def) (simp add: sample_heap_def)
  moreover have "generator_ok sample_layout (mk_id_generator 1 (VALUE_MASK sample_layout))"
    by (rule generator_ok_initial) (simp_all add: one_le_VALUE_MASK [OF sample_layout_ok])
  ultimately show ?thesis
    using sample_layout_ok by (simp add: cache_inv_def sample_cache_def last_opt_def)
qed

end
