(* ===== verification/Cacheable.thy ===== *)
theory Cacheable
  imports Samples
begin

text \<open>
  Lists that are kept although they are marked as not cacheable (\<^verbatim>\<open>namespace Cacheable\<close> in
  \<^verbatim>\<open>src/common/cacheable.cc\<close>, \<^verbatim>\<open>cacheable.hh\<close>, \<^verbatim>\<open>cacheable_glib.hh\<close>). An
  \<^verbatim>\<open>Override\<close> keeps a list, the uncached lists above it and everything below it in the
  cache until its timer expires. An override object has an identity \<open>self\<close>, because its timer
  holds a pointer to it; a timer that fires for an object that is gone is a dangling pointer,
  the result \<open>None\<close>. The ID that GLib gives to a new timer is the parameter \<open>tid\<close>.
\<close>

section \<open>State\<close>

definition INT64_MIN :: int where
  "INT64_MIN = - (2 ^ 63)"

text \<open>\<^verbatim>\<open>EXPIRY_TIME\<close> in seconds and in microseconds.\<close>

definition EXPIRY_TIME :: int where
  "EXPIRY_TIME = 180"

definition EXPIRY_TIME_us :: int where
  "EXPIRY_TIME_us = EXPIRY_TIME * 1000000"

record override =
  self :: nat
  nodes_on_overridden_path_to_root :: "(list_id, bool) smap"
  start_time :: int
  active_timer_id :: nat
  expired_for :: list_id

record override_table =
  overrides :: "(list_id, override) smap"
  timers :: "(nat \<times> nat) list"
  next_self :: nat

definition no_override_table :: override_table where
  "no_override_table = \<lparr>overrides = [], timers = [], next_self = 0\<rparr>"

definition mk_override :: "nat \<Rightarrow> (list_id, bool) smap \<Rightarrow> list_id \<Rightarrow> override" where
  "mk_override s nodes i = \<lparr>self = s, nodes_on_overridden_path_to_root = nodes,
     start_time = INT64_MIN, active_timer_id = 0, expired_for = i\<rparr>"

definition set_override :: "list_id \<Rightarrow> override \<Rightarrow> override_table \<Rightarrow> override_table" where
  "set_override k ovr t = t\<lparr>overrides := smap_update k (\<lambda>_. ovr) (overrides t)\<rparr>"

section \<open>One override\<close>

definition is_invalidated :: "override \<Rightarrow> bool" where
  "is_invalidated ovr \<longleftrightarrow> start_time ovr = INT64_MIN"

definition has_t_exceeded_expiry_time :: "int \<Rightarrow> int \<Rightarrow> bool" where
  "has_t_exceeded_expiry_time now t \<longleftrightarrow> now - t \<ge> EXPIRY_TIME_us"

definition is_timeout_exceeded :: "int \<Rightarrow> override \<Rightarrow> bool" where
  "is_timeout_exceeded now ovr \<longleftrightarrow> has_t_exceeded_expiry_time now (start_time ovr)"

definition is_on_path_to_override :: "override \<Rightarrow> list_id \<Rightarrow> bool" where
  "is_on_path_to_override ovr i \<longleftrightarrow> smap_find (nodes_on_overridden_path_to_root ovr) i \<noteq> None"

definition create_timeout ::
  "((nat \<times> nat) list \<Rightarrow> nat) \<Rightarrow> int \<Rightarrow> override \<Rightarrow> (nat \<times> nat) list \<Rightarrow> override \<times> (nat \<times> nat) list" where
  "create_timeout tid now ovr ts =
     (let n = tid ts in (ovr\<lparr>start_time := now, active_timer_id := n\<rparr>, ts @ [(n, self ovr)]))"

definition remove_timeout :: "nat \<Rightarrow> (nat \<times> nat) list \<Rightarrow> (nat \<times> nat) list" where
  "remove_timeout n ts = filter (\<lambda>t. fst t \<noteq> n) ts"

text \<open>\<^verbatim>\<open>CheckWithOverrides::expired()\<close>, the function each override calls when it expires.\<close>

definition expired_override :: "list_id \<Rightarrow> override_table \<Rightarrow> override_table" where
  "expired_override i t =
     (case smap_find (overrides t) i of
        None \<Rightarrow> t
      | Some _ \<Rightarrow> t\<lparr>overrides := smap_erase i (overrides t)\<rparr>)"

definition do_invalidate :: "list_id \<Rightarrow> override \<Rightarrow> bool \<Rightarrow> override_table \<Rightarrow> override_table" where
  "do_invalidate k ovr may_call_expiry_callback t =
     (let t1 = (if active_timer_id ovr \<noteq> 0
                then t\<lparr>timers := remove_timeout (active_timer_id ovr) (timers t)\<rparr> else t);
          ovr1 = ovr\<lparr>active_timer_id := 0\<rparr>
      in if \<not> is_invalidated ovr1
         then let t2 = set_override k (ovr1\<lparr>start_time := INT64_MIN\<rparr>) t1
              in if may_call_expiry_callback then expired_override (expired_for ovr1) t2 else t2
         else set_override k ovr1 t1)"

definition keep_alive ::
  "((nat \<times> nat) list \<Rightarrow> nat) \<Rightarrow> int \<Rightarrow> list_id \<Rightarrow> override_table \<Rightarrow> override_table \<times> int" where
  "keep_alive tid now k t =
     (case smap_find (overrides t) k of
        None \<Rightarrow> (t, EXPIRY_TIME)
      | Some ovr \<Rightarrow>
          let t1 = do_invalidate k ovr False t;
              (ovr2, ts) = create_timeout tid now (the (smap_find (overrides t1) k)) (timers t1)
          in ((set_override k ovr2 t1)\<lparr>timers := ts\<rparr>, EXPIRY_TIME))"

definition override_list_invalidate :: "list_id \<Rightarrow> list_id \<Rightarrow> override \<Rightarrow> override" where
  "override_list_invalidate i replacement_id ovr =
     (let m = nodes_on_overridden_path_to_root ovr
      in case smap_find m i of
           None \<Rightarrow> ovr
         | Some b \<Rightarrow> ovr\<lparr>nodes_on_overridden_path_to_root := smap_erase i (smap_insert replacement_id b m)\<rparr>)"

text \<open>The timer of an override fires (\<^verbatim>\<open>trampoline()\<close>). The timer is gone afterwards.\<close>

definition timer_expired :: "int \<Rightarrow> nat \<Rightarrow> override_table \<Rightarrow> override_table option" where
  "timer_expired now n t =
     (case map_of (timers t) n of
        None \<Rightarrow> Some t
      | Some s \<Rightarrow>
          (case find (\<lambda>ko. self (snd ko) = s) (overrides t) of
             None \<Rightarrow> None
           | Some (k, ovr) \<Rightarrow>
               let t1 = (if is_invalidated ovr \<or> is_timeout_exceeded now ovr
                         then expired_override (expired_for ovr) t else t)
               in Some (t1\<lparr>timers := remove_timeout n (timers t1)\<rparr>)))"

section \<open>The table of overrides\<close>

fun uncached_path :: "ctx_layout \<Rightarrow> heap \<Rightarrow> addr list \<Rightarrow> (list_id, bool) smap \<Rightarrow> (list_id, bool) smap" where
  "uncached_path L h [] nodes = nodes"
| "uncached_path L h (e # es) nodes =
     (if get_nocache_bit L (cache_id (h e))
      then uncached_path L h es (smap_insert (cache_id (h e)) True nodes) else nodes)"

definition put_override ::
  "ctx_layout \<Rightarrow> ((nat \<times> nat) list \<Rightarrow> nat) \<Rightarrow> 'a cache_scheme \<Rightarrow> int \<Rightarrow> list_id \<Rightarrow> override_table \<Rightarrow>
   override_table \<times> int" where
  "put_override L tid c now i t =
     (case lookup c i of
        None \<Rightarrow> (t, -1)
      | Some e \<Rightarrow>
          let nodes = uncached_path L (objs c) (tl (chain (objs c) e)) [];
              t1 = t\<lparr>overrides := smap_insert i (mk_override (next_self t) nodes i) (overrides t),
                     next_self := next_self t + 1\<rparr>
          in keep_alive tid now i t1)"

definition remove_override :: "list_id \<Rightarrow> override_table \<Rightarrow> override_table \<times> bool" where
  "remove_override i t =
     (case smap_find (overrides t) i of
        None \<Rightarrow> (t, False)
      | Some ovr \<Rightarrow> (do_invalidate i ovr True t, True))"

definition has_overrides :: "override_table \<Rightarrow> bool" where
  "has_overrides t \<longleftrightarrow> overrides t \<noteq> []"

definition is_cacheable :: "ctx_layout \<Rightarrow> 'a cache_scheme \<Rightarrow> override_table \<Rightarrow> list_id \<Rightarrow> bool" where
  "is_cacheable L c t i =
     (if \<not> id_is_valid L i then False
      else case lookup c i of
        None \<Rightarrow> False
      | Some e \<Rightarrow>
          if \<not> get_nocache_bit L i then True
          else if overrides t = [] then False
          else if list_ex (\<lambda>(k, ovr). k = i \<or> is_on_path_to_override ovr i) (overrides t) then True
          else list_ex (\<lambda>p. case smap_find (overrides t) (cache_id (objs c p)) of
                              None \<Rightarrow> False | Some ovr \<Rightarrow> \<not> is_invalidated ovr)
                 (tl (chain (objs c) e)))"

text \<open>An object that is moved to another key is a new object; the map keeps an object that
  is there already.\<close>

definition invalidate_override :: "list_id \<Rightarrow> list_id \<Rightarrow> override_table \<Rightarrow> override_table" where
  "invalidate_override i replacement_id t =
     (case smap_find (overrides t) i of
        None \<Rightarrow> t
      | Some ovr \<Rightarrow>
          if i = replacement_id then t
          else t\<lparr>overrides := smap_erase i
                   (smap_insert replacement_id (ovr\<lparr>self := next_self t\<rparr>) (overrides t)),
                 next_self := next_self t + 1\<rparr>)"

definition patch_paths_to_root :: "list_id \<Rightarrow> list_id \<Rightarrow> override_table \<Rightarrow> override_table" where
  "patch_paths_to_root i replacement_id t =
     t\<lparr>overrides := map (\<lambda>(k, ovr). (k, override_list_invalidate i replacement_id ovr)) (overrides t)\<rparr>"

definition list_invalidate :: "ctx_layout \<Rightarrow> list_id \<Rightarrow> list_id \<Rightarrow> override_table \<Rightarrow> override_table" where
  "list_invalidate L i replacement_id t =
     (if \<not> id_is_valid L i then t
      else if overrides t = [] then t
      else if id_is_valid L replacement_id
        then patch_paths_to_root i replacement_id (invalidate_override i replacement_id t)
      else fst (remove_override i t))"

text \<open>\<^verbatim>\<open>CheckNoOverrides\<close>, the variant of the USB list broker.\<close>

definition is_cacheable_plain :: "ctx_layout \<Rightarrow> list_id \<Rightarrow> bool" where
  "is_cacheable_plain L i \<longleftrightarrow> id_is_valid L i \<and> \<not> get_nocache_bit L i"

section \<open>Timers and overrides belong together\<close>

definition timer_ids_ok :: "((nat \<times> nat) list \<Rightarrow> nat) \<Rightarrow> bool" where
  "timer_ids_ok tid \<longleftrightarrow> (\<forall>ts. tid ts \<noteq> 0 \<and> tid ts \<notin> fst ` set ts)"

definition live :: "override_table \<Rightarrow> list_id \<Rightarrow> override \<Rightarrow> bool" where
  "live t k ovr \<longleftrightarrow> expired_for ovr = k \<and> self ovr < next_self t \<and> \<not> is_invalidated ovr \<and>
     active_timer_id ovr \<noteq> 0 \<and> (active_timer_id ovr, self ovr) \<in> set (timers t)"

definition table_ok :: "override_table \<Rightarrow> bool" where
  "table_ok t \<longleftrightarrow> smap_ok (overrides t) \<and> distinct (map fst (timers t)) \<and>
     (\<forall>k ovr. smap_find (overrides t) k = Some ovr \<longrightarrow> live t k ovr) \<and>
     (\<forall>k1 o1 k2 o2. smap_find (overrides t) k1 = Some o1 \<longrightarrow> smap_find (overrides t) k2 = Some o2 \<longrightarrow>
        self o1 = self o2 \<longrightarrow> k1 = k2) \<and>
     (\<forall>n s. (n, s) \<in> set (timers t) \<longrightarrow>
        (\<exists>k ovr. smap_find (overrides t) k = Some ovr \<and> self ovr = s \<and> active_timer_id ovr = n))"

lemma table_okD:
  assumes "table_ok t"
  shows "smap_ok (overrides t)" and "distinct (map fst (timers t))"
    and "smap_find (overrides t) k = Some ovr \<Longrightarrow> live t k ovr"
    and "smap_find (overrides t) k1 = Some o1 \<Longrightarrow> smap_find (overrides t) k2 = Some o2 \<Longrightarrow>
      self o1 = self o2 \<Longrightarrow> k1 = k2"
    and "(n, s) \<in> set (timers t) \<Longrightarrow>
      \<exists>k ovr. smap_find (overrides t) k = Some ovr \<and> self ovr = s \<and> active_timer_id ovr = n"
  using assms unfolding table_ok_def by blast+

lemma table_ok_empty: "table_ok no_override_table"
  by (simp add: table_ok_def no_override_table_def)

lemma set_remove_timeout [simp]: "set (remove_timeout n ts) = {x \<in> set ts. fst x \<noteq> n}"
  by (auto simp: remove_timeout_def)

lemma distinct_remove_timeout: "distinct (map fst ts) \<Longrightarrow> distinct (map fst (remove_timeout n ts))"
  by (simp add: remove_timeout_def distinct_map_filter)

text \<open>Each timer has one override.\<close>

lemma timer_of_override:
  assumes T: "table_ok t" and "smap_find (overrides t) k = Some ovr" and "smap_find (overrides t) k' = Some ovr'"
    and "active_timer_id ovr = active_timer_id ovr'"
  shows "k = k'"
proof -
  have "(active_timer_id ovr, self ovr) \<in> set (timers t)" "(active_timer_id ovr, self ovr') \<in> set (timers t)"
    using table_okD(3) [OF T assms(2)] table_okD(3) [OF T assms(3)] assms(4) by (auto simp: live_def)
  then have "self ovr = self ovr'"
    using table_okD(2) [OF T] by (auto dest: eq_key_imp_eq_value)
  then show ?thesis by (rule table_okD(4) [OF T assms(2,3)])
qed

lemma table_okI:
  assumes "smap_ok (overrides t)" and "distinct (map fst (timers t))"
    and "\<And>k ovr. smap_find (overrides t) k = Some ovr \<Longrightarrow> live t k ovr"
    and "\<And>k1 o1 k2 o2. smap_find (overrides t) k1 = Some o1 \<Longrightarrow> smap_find (overrides t) k2 = Some o2 \<Longrightarrow>
      self o1 = self o2 \<Longrightarrow> k1 = k2"
    and "\<And>n s. (n, s) \<in> set (timers t) \<Longrightarrow>
      \<exists>k ovr. smap_find (overrides t) k = Some ovr \<and> self ovr = s \<and> active_timer_id ovr = n"
  shows "table_ok t"
  using assms unfolding table_ok_def by blast

text \<open>Removing an override with its timer.\<close>

lemma drop_override_ok:
  assumes T: "table_ok t" and k: "smap_find (overrides t) k = Some ovr"
    and t': "t' = t\<lparr>overrides := smap_erase k (overrides t), timers := remove_timeout (active_timer_id ovr) (timers t)\<rparr>"
  shows "table_ok t'"
proof -
  note D = table_okD [OF T]
  have find': "smap_find (overrides t') k' = (if k' = k then None else smap_find (overrides t) k')" for k'
    using smap_find_erase [OF D(1)] by (simp add: t')
  have keep: "k' \<noteq> k \<and> smap_find (overrides t) k' = Some ovr' \<and> active_timer_id ovr' \<noteq> active_timer_id ovr"
    if "smap_find (overrides t') k' = Some ovr'" for k' ovr'
    using that timer_of_override [OF T _ k] by (auto simp: find' split: if_splits)
  show ?thesis
  proof (rule table_okI)
    fix k' ovr' assume "smap_find (overrides t') k' = Some ovr'"
    then show "live t' k' ovr'" using D(3) [of k' ovr'] keep by (auto simp: live_def t')
  next
    fix n s assume "(n, s) \<in> set (timers t')"
    then have ns: "(n, s) \<in> set (timers t)" "n \<noteq> active_timer_id ovr" by (auto simp: t')
    then obtain k' ovr' where *: "smap_find (overrides t) k' = Some ovr'" "self ovr' = s" "active_timer_id ovr' = n"
      using D(5) by blast
    moreover have "k' \<noteq> k" using * ns(2) k by auto
    ultimately show "\<exists>k' ovr'. smap_find (overrides t') k' = Some ovr' \<and> self ovr' = s \<and> active_timer_id ovr' = n"
      using find' by auto
  next
    fix k1 o1 k2 o2 assume "smap_find (overrides t') k1 = Some o1" "smap_find (overrides t') k2 = Some o2" "self o1 = self o2"
    then show "k1 = k2" using keep D(4) by blast
  qed (use D(1,2) distinct_remove_timeout in \<open>simp_all add: t'\<close>)
qed

text \<open>Starting the timer of an override that has none, or restarting it.\<close>

lemma rearm_override_ok:
  assumes T: "table_ok t0" and tid: "timer_ids_ok tid" and now: "now \<noteq> INT64_MIN"
    and absent: "smap_find (overrides t0) k = None"
    and new: "\<And>k' o'. smap_find (overrides t0) k' = Some o' \<Longrightarrow> self o' \<noteq> self ovr" and "self ovr < next_self t'"
    and "next_self t0 \<le> next_self t'" and "expired_for ovr = k"
    and find': "\<And>k'. smap_find (overrides t') k' = (if k' = k then
      Some (ovr\<lparr>start_time := now, active_timer_id := tid (timers t0)\<rparr>) else smap_find (overrides t0) k')"
    and ok: "smap_ok (overrides t')"
    and ts: "timers t' = timers t0 @ [(tid (timers t0), self ovr)]"
  shows "table_ok t'"
proof -
  note D = table_okD [OF T]
  show ?thesis
  proof (rule table_okI)
    fix k' o' assume *: "smap_find (overrides t') k' = Some o'"
    show "live t' k' o'"
    proof (cases "k' = k")
      case True
      then have "o' = ovr\<lparr>start_time := now, active_timer_id := tid (timers t0)\<rparr>" using * find' by simp
      then show ?thesis
        using True tid now assms(6,8) by (simp add: live_def ts timer_ids_ok_def is_invalidated_def)
    next
      case False
      then have "live t0 k' o'" using * find' D(3) by simp
      then show ?thesis using assms(7) by (auto simp: live_def ts)
    qed
  next
    fix k1 o1 k2 o2
    assume "smap_find (overrides t') k1 = Some o1" "smap_find (overrides t') k2 = Some o2" "self o1 = self o2"
    then show "k1 = k2" using D(4) find' new by (cases "k1 = k"; cases "k2 = k") force+
  next
    fix n s assume "(n, s) \<in> set (timers t')"
    then consider "(n, s) \<in> set (timers t0)" | "n = tid (timers t0)" "s = self ovr" by (auto simp: ts)
    then show "\<exists>k' o'. smap_find (overrides t') k' = Some o' \<and> self o' = s \<and> active_timer_id o' = n"
    proof cases
      case 1
      then obtain k' o' where "smap_find (overrides t0) k' = Some o'" "self o' = s" "active_timer_id o' = n" using D(5) by blast
      then show ?thesis using absent find' by (intro exI [of _ k']) auto
    qed (use find' in auto)
  next
    show "distinct (map fst (timers t'))" using D(2) tid by (simp add: ts timer_ids_ok_def)
  qed (rule ok)
qed

lemma keep_alive_eq:
  assumes "smap_find (overrides t) k = Some ovr" and "smap_ok (overrides t)"
  defines "ts \<equiv> if active_timer_id ovr \<noteq> 0 then remove_timeout (active_timer_id ovr) (timers t) else timers t"
  obtains t' where "keep_alive tid now k t = (t', EXPIRY_TIME)" and "next_self t' = next_self t"
    and "smap_ok (overrides t')" and "timers t' = ts @ [(tid ts, self ovr)]"
    and "\<And>k'. smap_find (overrides t') k' = (if k' = k then
      Some (ovr\<lparr>start_time := now, active_timer_id := tid ts\<rparr>) else smap_find (overrides t) k')"
proof -
  define t1 where "t1 = do_invalidate k ovr False t"
  have t1: "timers t1 = ts" "next_self t1 = next_self t" "smap_ok (overrides t1)"
    "\<And>k'. smap_find (overrides t1) k' = (if k' = k then
      Some (ovr\<lparr>active_timer_id := 0, start_time := INT64_MIN\<rparr>) else smap_find (overrides t) k')"
    using assms(1,2)
    by (auto simp: t1_def do_invalidate_def Let_def set_override_def ts_def is_invalidated_def smap_find_update)
  define t2 where "t2 = (set_override k (ovr\<lparr>start_time := now, active_timer_id := tid ts\<rparr>) t1)\<lparr>timers := ts @ [(tid ts, self ovr)]\<rparr>"
  have "keep_alive tid now k t = (t2, EXPIRY_TIME)"
    using assms(1) t1(1) t1(4) [of k] by (simp add: keep_alive_def t1_def [symmetric] create_timeout_def Let_def t2_def)
  then show ?thesis
    by (rule that) (use t1 in \<open>auto simp: t2_def set_override_def smap_find_update\<close>)
qed

lemma put_override_cases:
  assumes T: "table_ok t" and tid: "timer_ids_ok tid" and now: "now \<noteq> INT64_MIN" and e: "lookup c i = Some e"
  obtains t' ovr where "put_override L tid c now i t = (t', EXPIRY_TIME)" and "table_ok t'"
    and "smap_find (overrides t') i = Some ovr" and "\<not> is_invalidated ovr"
    and "\<And>k. k \<noteq> i \<Longrightarrow> smap_find (overrides t') k = smap_find (overrides t) k"
    and "smap_find (overrides t) i = None \<Longrightarrow>
      nodes_on_overridden_path_to_root ovr = uncached_path L (objs c) (tl (chain (objs c) e)) []"
proof -
  note D = table_okD [OF T]
  let ?new = "mk_override (next_self t) (uncached_path L (objs c) (tl (chain (objs c) e)) []) i"
  let ?t1 = "t\<lparr>overrides := smap_insert i ?new (overrides t), next_self := next_self t + 1\<rparr>"
  define ovr where "ovr = (case smap_find (overrides t) i of None \<Rightarrow> ?new | Some o' \<Rightarrow> o')"
  have f1: "smap_find (overrides ?t1) i = Some ovr" "smap_ok (overrides ?t1)"
    using D(1) by (auto simp: ovr_def smap_find_insert split: option.splits)
  define ts where "ts = (if active_timer_id ovr \<noteq> 0 then remove_timeout (active_timer_id ovr) (timers ?t1) else timers ?t1)"
  obtain t' where K: "keep_alive tid now i ?t1 = (t', EXPIRY_TIME)" "next_self t' = next_self ?t1"
    "smap_ok (overrides t')" "timers t' = ts @ [(tid ts, self ovr)]"
    "\<And>k. smap_find (overrides t') k = (if k = i then
      Some (ovr\<lparr>start_time := now, active_timer_id := tid ts\<rparr>) else smap_find (overrides ?t1) k)"
    using keep_alive_eq [OF f1, of tid now] unfolding ts_def by metis
  have other: "smap_find (overrides t') k = smap_find (overrides t) k" if "k \<noteq> i" for k
    using K(5) that D(1) by (simp add: smap_find_insert)
  have run: "put_override L tid c now i t = (t', EXPIRY_TIME)" using e K(1) by (simp add: put_override_def Let_def)
  define t0 where "t0 = (case smap_find (overrides t) i of None \<Rightarrow> t
    | Some o' \<Rightarrow> t\<lparr>overrides := smap_erase i (overrides t), timers := remove_timeout (active_timer_id o') (timers t)\<rparr>)"
  have "table_ok t'"
  proof (rule rearm_override_ok [OF _ tid now, of t0 i ovr])
    show "table_ok t0" using T drop_override_ok [OF T] by (auto simp: t0_def split: option.splits)
    have t0: "timers t0 = ts" "\<And>k. smap_find (overrides t0) k = (if k = i then None else smap_find (overrides t) k)"
      using D(3) [of i] D(1)
      by (auto simp: t0_def ts_def ovr_def mk_override_def live_def smap_find_erase split: option.splits)
    show "smap_find (overrides t0) i = None" using t0 by simp
    show "self o' \<noteq> self ovr" if "smap_find (overrides t0) k' = Some o'" for k' o'
      using that t0(2) D(3) [of k' o'] D(4) [of k' o' i ovr]
      by (auto simp: ovr_def mk_override_def live_def split: option.splits if_splits)
    show "self ovr < next_self t'" using D(3) [of i ovr] K(2) by (auto simp: ovr_def mk_override_def live_def split: option.splits)
    show "next_self t0 \<le> next_self t'" using K(2) by (auto simp: t0_def split: option.splits)
    show "expired_for ovr = i" using D(3) [of i ovr] by (auto simp: ovr_def mk_override_def live_def split: option.splits)
    show "smap_find (overrides t') k' = (if k' = i then
      Some (ovr\<lparr>start_time := now, active_timer_id := tid (timers t0)\<rparr>) else smap_find (overrides t0) k')" for k'
      using K(5) other t0 by simp
    show "timers t' = timers t0 @ [(tid (timers t0), self ovr)]" using K(4) t0 by simp
  qed (rule K(3))
  then show ?thesis
    by (rule that [OF run]) (use K(5) other now in \<open>auto simp: is_invalidated_def ovr_def mk_override_def\<close>)
qed

lemma remove_override_cases:
  assumes T: "table_ok t" and k: "smap_find (overrides t) i = Some ovr"
  shows "remove_override i t = (t\<lparr>overrides := smap_erase i (overrides t),
    timers := remove_timeout (active_timer_id ovr) (timers t)\<rparr>, True)"
proof -
  have l: "expired_for ovr = i" "active_timer_id ovr \<noteq> 0" "\<not> is_invalidated ovr"
    using table_okD(3) [OF T k] by (auto simp: live_def)
  have "smap_erase i (smap_update i f m) = smap_erase i m" for f and m :: "(list_id, override) smap"
    by (induction m) auto
  then show ?thesis
    using k l by (simp add: remove_override_def do_invalidate_def Let_def set_override_def is_invalidated_def
        expired_override_def smap_find_update)
qed

lemma remove_override_ok: "table_ok t \<Longrightarrow> table_ok (fst (remove_override i t))"
proof (cases "smap_find (overrides t) i")
  case (Some ovr)
  assume T: "table_ok t"
  show ?thesis unfolding remove_override_cases [OF T Some] fst_conv by (rule drop_override_ok [OF T Some refl])
qed (simp add: remove_override_def)

lemma find_live:
  assumes T: "table_ok t" and k: "smap_find (overrides t) k = Some ovr"
  shows "find (\<lambda>ko. self (snd ko) = self ovr) (overrides t) = Some (k, ovr)"
proof -
  note ok = table_okD(1) [OF T]
  have kv: "(k, ovr) \<in> set (overrides t)" using k smap_find_iff [OF ok] by blast
  then obtain x where x: "find (\<lambda>ko. self (snd ko) = self ovr) (overrides t) = Some x"
    by (cases "find (\<lambda>ko. self (snd ko) = self ovr) (overrides t)") (auto simp: find_None_iff)
  then have "x \<in> set (overrides t)" "self (snd x) = self ovr" by (auto simp: find_Some_iff)
  then have "smap_find (overrides t) (fst x) = Some (snd x)" using smap_find_iff [OF ok] by (metis prod.collapse)
  then have "fst x = k" using table_okD(4) [OF T _ k] \<open>self (snd x) = self ovr\<close> by blast
  with \<open>smap_find (overrides t) (fst x) = Some (snd x)\<close> k have "x = (k, ovr)" by (simp add: prod_eq_iff)
  then show ?thesis using x by simp
qed

lemma timer_fires:
  assumes T: "table_ok t" and k: "smap_find (overrides t) k = Some ovr"
  shows "timer_expired now (active_timer_id ovr) t = Some
    (if is_timeout_exceeded now ovr
     then t\<lparr>overrides := smap_erase k (overrides t), timers := remove_timeout (active_timer_id ovr) (timers t)\<rparr>
     else t\<lparr>timers := remove_timeout (active_timer_id ovr) (timers t)\<rparr>)"
proof -
  have l: "expired_for ovr = k" "(active_timer_id ovr, self ovr) \<in> set (timers t)" "\<not> is_invalidated ovr"
    using table_okD(3) [OF T k] by (auto simp: live_def)
  have "map_of (timers t) (active_timer_id ovr) = Some (self ovr)"
    using l(2) table_okD(2) [OF T] by simp
  then show ?thesis
    using find_live [OF T k] l(1,3) k by (simp add: timer_expired_def Let_def expired_override_def)
qed


text \<open>C28: Replacing the ID of a list with an override moves the override object, but its timer keeps
  the pointer to the object that is gone: when that timer fires, it dereferences it.\<close>

theorem replaced_override_dangles:
  assumes T: "table_ok t" and k: "smap_find (overrides t) i = Some ovr" and "i \<noteq> j"
    and "id_is_valid L i" and "id_is_valid L j" and "smap_find (overrides t) j = None"
  shows "timer_expired now (active_timer_id ovr) (list_invalidate L i j t) = None"
proof -
  note D = table_okD [OF T]
  let ?m = "smap_erase i (smap_insert j (ovr\<lparr>self := next_self t\<rparr>) (overrides t))"
  have ne: "overrides t \<noteq> []" using k by auto
  have eq: "list_invalidate L i j t = patch_paths_to_root i j (t\<lparr>overrides := ?m, next_self := next_self t + 1\<rparr>)"
    using assms ne by (simp add: list_invalidate_def invalidate_override_def)
  have okm: "smap_ok ?m" using D(1) by simp
  have "self (snd x) \<noteq> self ovr" if "x \<in> set ?m" for x
  proof -
    have "smap_find ?m (fst x) = Some (snd x)" using that smap_find_iff [OF okm] by (metis prod.collapse)
    then have "fst x = j \<and> snd x = ovr\<lparr>self := next_self t\<rparr> \<or> fst x \<noteq> i \<and> smap_find (overrides t) (fst x) = Some (snd x)"
      using D(1) assms(6) by (auto simp: smap_find_erase smap_find_insert split: if_splits)
    moreover have "self ovr < next_self t" using D(3) [OF k] by (simp add: live_def)
    ultimately show ?thesis using D(4) [OF _ k] by auto
  qed
  then have "find (\<lambda>ko. self (snd ko) = self ovr) (overrides (list_invalidate L i j t)) = None"
    by (auto simp: eq patch_paths_to_root_def find_None_iff override_list_invalidate_def Let_def split: option.splits)
  moreover have "map_of (timers (list_invalidate L i j t)) (active_timer_id ovr) = Some (self ovr)"
    using D(2) D(3) [OF k] by (simp add: eq patch_paths_to_root_def live_def)
  ultimately show ?thesis by (simp add: timer_expired_def)
qed

section \<open>What an override protects\<close>

lemma uncached_path_keys:
  "smap_ok nodes \<Longrightarrow> smap_ok (uncached_path L h es nodes) \<and>
   smap_keys (uncached_path L h es nodes) =
     smap_keys nodes \<union> (\<lambda>e. cache_id (h e)) ` set (takeWhile (\<lambda>e. get_nocache_bit L (cache_id (h e))) es)"
  by (induction L h es nodes rule: uncached_path.induct) auto

lemma is_cacheable_own:
  "id_is_valid L i \<Longrightarrow> lookup c i \<noteq> None \<Longrightarrow> smap_find (overrides t) i \<noteq> None \<Longrightarrow> is_cacheable L c t i"
  by (force simp: is_cacheable_def list_ex_iff dest: smap_find_SomeD)

lemma put_override_guards:
  assumes I: "cache_inv L c xs" and T: "table_ok t" and tid: "timer_ids_ok tid" and now: "now \<noteq> INT64_MIN"
    and e: "lookup c i = Some e"
  shows "table_ok (fst (put_override L tid c now i t))" and "snd (put_override L tid c now i t) = EXPIRY_TIME"
    and "\<forall>d \<in> set xs. e \<in> set (chain (objs c) d) \<longrightarrow>
      is_cacheable L c (fst (put_override L tid c now i t)) (cache_id (objs c d))"
    and "smap_find (overrides t) i = None \<longrightarrow>
      (\<forall>a \<in> set (takeWhile (\<lambda>a. get_nocache_bit L (cache_id (objs c a))) (tl (chain (objs c) e))).
        is_cacheable L c (fst (put_override L tid c now i t)) (cache_id (objs c a)))"
proof -
  obtain t' ovr where P: "put_override L tid c now i t = (t', EXPIRY_TIME)" "table_ok t'"
    "smap_find (overrides t') i = Some ovr" "\<not> is_invalidated ovr"
    "smap_find (overrides t) i = None \<Longrightarrow>
      nodes_on_overridden_path_to_root ovr = uncached_path L (objs c) (tl (chain (objs c) e)) []"
    using put_override_cases [OF T tid now e] by metis
  have m: "e \<in> set xs" "cache_id (objs c e) = i" using lookup_member [OF I e] by auto
  have ne: "overrides t' \<noteq> []" using P(3) by auto
  show "table_ok (fst (put_override L tid c now i t))" "snd (put_override L tid c now i t) = EXPIRY_TIME"
    using P(1,2) by simp_all
  show "\<forall>d \<in> set xs. e \<in> set (chain (objs c) d) \<longrightarrow>
      is_cacheable L c (fst (put_override L tid c now i t)) (cache_id (objs c d))"
  proof (intro ballI impI)
    fix d assume d: "d \<in> set xs" "e \<in> set (chain (objs c) d)"
    note l = member_lookup [OF I d(1)]
    show "is_cacheable L c (fst (put_override L tid c now i t)) (cache_id (objs c d))"
    proof (cases "e = d")
      case True
      then show ?thesis using l m P(1,3) is_cacheable_own [of L i c t'] by simp
    next
      case False
      then have "e \<in> set (tl (chain (objs c) d))" using d(2) by (subst (asm) chain_Cons) simp
      then have "list_ex (\<lambda>p. case smap_find (overrides t') (cache_id (objs c p)) of
          None \<Rightarrow> False | Some ovr \<Rightarrow> \<not> is_invalidated ovr) (tl (chain (objs c) d))"
        using P(3,4) m(2) by (auto simp: list_ex_iff intro!: bexI [of _ e])
      then show ?thesis using l P(1) ne by (simp add: is_cacheable_def)
    qed
  qed
  show "smap_find (overrides t) i = None \<longrightarrow>
      (\<forall>a \<in> set (takeWhile (\<lambda>a. get_nocache_bit L (cache_id (objs c a))) (tl (chain (objs c) e))).
        is_cacheable L c (fst (put_override L tid c now i t)) (cache_id (objs c a)))"
  proof (intro impI ballI)
    fix a assume none: "smap_find (overrides t) i = None"
      and a: "a \<in> set (takeWhile (\<lambda>a. get_nocache_bit L (cache_id (objs c a))) (tl (chain (objs c) e)))"
    have "cache_id (objs c a) \<in> smap_keys (nodes_on_overridden_path_to_root ovr)"
      using P(5) [OF none] uncached_path_keys [of "[]" L "objs c" "tl (chain (objs c) e)"] a by auto
    then have "is_on_path_to_override ovr (cache_id (objs c a))"
      by (auto simp: is_on_path_to_override_def smap_find_None_iff)
    then have "list_ex (\<lambda>(k, ovr). k = cache_id (objs c a) \<or> is_on_path_to_override ovr (cache_id (objs c a))) (overrides t')"
      using smap_find_SomeD [OF P(3)] by (force simp: list_ex_iff)
    moreover have "a \<in> set xs"
      using chain_members [OF I m(1)] a set_takeWhileD list.set_sel(2) [OF chain_nonempty] by fast
    ultimately show "is_cacheable L c (fst (put_override L tid c now i t)) (cache_id (objs c a))"
      using member_lookup [OF I] P(1) ne by (simp add: is_cacheable_def)
  qed
qed


section \<open>The interface of the list tree manager\<close>

text \<open>What \<^verbatim>\<open>ListTreeManager\<close> relies on (\<^verbatim>\<open>Cacheable::CheckIface\<close>): states are
  consistent throughout, a list is cacheable only if its ID is valid, uncached lists are not
  cacheable without overrides, and a list for which an override was accepted is cacheable.\<close>

locale cacheable_check =
  fixes cacheable :: "'s \<Rightarrow> list_id \<Rightarrow> bool"
    and put :: "int \<Rightarrow> list_id \<Rightarrow> 's \<Rightarrow> 's \<times> int"
    and remove :: "list_id \<Rightarrow> 's \<Rightarrow> 's \<times> bool"
    and overridden :: "'s \<Rightarrow> bool"
    and ok :: "'s \<Rightarrow> bool"
    and valid :: "list_id \<Rightarrow> bool"
    and nocache :: "list_id \<Rightarrow> bool"
  assumes cacheable_valid: "cacheable s i \<Longrightarrow> valid i"
    and cacheable_plain: "\<not> overridden s \<Longrightarrow> cacheable s i \<Longrightarrow> \<not> nocache i"
    and put_ok: "ok s \<Longrightarrow> 0 \<le> now \<Longrightarrow> ok (fst (put now i s))"
    and put_refused: "ok s \<Longrightarrow> 0 \<le> now \<Longrightarrow> snd (put now i s) < 0 \<Longrightarrow> fst (put now i s) = s"
    and put_accepted: "ok s \<Longrightarrow> 0 \<le> now \<Longrightarrow> valid i \<Longrightarrow> 0 \<le> snd (put now i s) \<Longrightarrow> cacheable (fst (put now i s)) i"
    and remove_ok: "ok s \<Longrightarrow> ok (fst (remove i s))"
begin

text \<open>The expiry time that \<^verbatim>\<open>force_list_into_cache()\<close> reports is positive only for a list
  that is cacheable from then on.\<close>

lemma forced_is_cacheable:
  "ok s \<Longrightarrow> 0 \<le> now \<Longrightarrow> valid i \<Longrightarrow> 0 < max (snd (put now i s)) 0 \<Longrightarrow> cacheable (fst (put now i s)) i"
  using put_accepted by simp

lemma not_forced_unchanged:
  "ok s \<Longrightarrow> 0 \<le> now \<Longrightarrow> \<not> cacheable (fst (put now i s)) i \<Longrightarrow> valid i \<Longrightarrow> fst (put now i s) = s"
  using put_accepted put_refused by (meson not_le_imp_less)

end

lemma INT64_MIN_neg: "0 \<le> now \<Longrightarrow> now \<noteq> INT64_MIN"
  by (simp add: INT64_MIN_def)

lemma put_override_unknown: "lookup c i = None \<Longrightarrow> put_override L tid c now i t = (t, -1)"
  by (simp add: put_override_def)

lemma put_override_known:
  assumes "table_ok t \<and> timer_ids_ok tid" and "0 \<le> now" and "lookup c i \<noteq> None"
  shows "table_ok (fst (put_override L tid c now i t))" and "snd (put_override L tid c now i t) = EXPIRY_TIME"
    and "smap_find (overrides (fst (put_override L tid c now i t))) i \<noteq> None"
proof -
  obtain e where e: "lookup c i = Some e" using assms(3) by blast
  obtain t' ovr where "put_override L tid c now i t = (t', EXPIRY_TIME)" "table_ok t'" "smap_find (overrides t') i = Some ovr"
    using put_override_cases [OF conjunct1 [OF assms(1)] conjunct2 [OF assms(1)] INT64_MIN_neg [OF assms(2)] e]
    by metis
  then show "table_ok (fst (put_override L tid c now i t))" "snd (put_override L tid c now i t) = EXPIRY_TIME"
    "smap_find (overrides (fst (put_override L tid c now i t))) i \<noteq> None" by simp_all
qed

interpretation with_overrides: cacheable_check "is_cacheable L c" "put_override L tid c" remove_override has_overrides
  "\<lambda>t. table_ok t \<and> timer_ids_ok tid" "id_is_valid L" "get_nocache_bit L" for L c tid
proof
  fix t i now assume ok: "table_ok t \<and> timer_ids_ok tid" and now: "(0::int) \<le> now"
  show "table_ok (fst (put_override L tid c now i t)) \<and> timer_ids_ok tid"
    using ok put_override_known(1) [OF ok now, of c i L] by (cases "lookup c i") (simp_all add: put_override_unknown)
  show "snd (put_override L tid c now i t) < 0 \<Longrightarrow> fst (put_override L tid c now i t) = t"
    using put_override_known(2) [OF ok now, of c i L] by (cases "lookup c i") (simp_all add: put_override_unknown EXPIRY_TIME_def)
  show "id_is_valid L i \<Longrightarrow> 0 \<le> snd (put_override L tid c now i t) \<Longrightarrow> is_cacheable L c (fst (put_override L tid c now i t)) i"
    using put_override_known(3) [OF ok now, of c i L] is_cacheable_own [of L i c]
    by (cases "lookup c i") (simp_all add: put_override_unknown)
qed (auto simp: is_cacheable_def has_overrides_def remove_override_ok split: if_splits option.splits)

interpretation no_overrides: cacheable_check "\<lambda>_ :: unit. is_cacheable_plain L" "\<lambda>_ _ s. (s, -1)" "\<lambda>_ s. (s, False)"
  "\<lambda>_. False" "\<lambda>_. True" "id_is_valid L" "get_nocache_bit L" for L
  by unfold_locales (auto simp: is_cacheable_plain_def)

section \<open>Sample values\<close>

definition sample_tid :: "(nat \<times> nat) list \<Rightarrow> nat" where
  "sample_tid ts = Suc (sum_list (map fst ts))"

lemma sample_tid_ok: "timer_ids_ok sample_tid"
  unfolding timer_ids_ok_def
proof (intro allI conjI)
  fix ts :: "(nat \<times> nat) list"
  show "sample_tid ts \<noteq> 0" by (simp add: sample_tid_def)
  show "sample_tid ts \<notin> fst ` set ts"
  proof
    assume "sample_tid ts \<in> fst ` set ts"
    then have "sample_tid ts \<in> set (map fst ts)" by simp
    then have "sample_tid ts \<le> sum_list (map fst ts)" by (rule member_le_sum_list) simp
    then show False by (simp add: sample_tid_def)
  qed
qed

text \<open>One override, for the list with ID 2, started at time 0.\<close>

definition sample_table :: override_table where
  "sample_table = \<lparr>overrides = [(2, \<lparr>self = 0, nodes_on_overridden_path_to_root = [], start_time = 0,
     active_timer_id = 1, expired_for = 2\<rparr>)], timers = [(1, 0)], next_self = 1\<rparr>"

lemma sample_table_ok: "table_ok sample_table"
  by (rule table_okI) (auto simp: sample_table_def live_def is_invalidated_def INT64_MIN_def split: if_splits)


theorem replaced_override_dangles_witness:
  "timer_expired 180000000 1 (list_invalidate sample_layout 2 1 sample_table) = None"
  using replaced_override_dangles [OF sample_table_ok, of 2 _ 1 sample_layout 180000000] sample_valid
  by (simp add: sample_table_def)


end
