(* ===== verification/Lru_Props.thy ===== *)
theory Lru_Props
  imports Cacheable
begin

text \<open>
  What the object cache promises to its users, as far as it does not depend on the functions
  the cache calls back. Each theorem comes with an instance on the sample cache.
\<close>

section \<open>List IDs\<close>

text \<open>C24: A search for a list ID always ends. It returns an ID that is valid and free, with the
  requested cache mode and counter value in range, as long as one such ID is free, and otherwise
  the invalid ID with an unchanged generator.\<close>

theorem generator_next_total:
  assumes "ctx_layout_ok L" and "generator_ok L g"
  shows "\<exists>i g'. generator_next L is_free g mode ctx = Some (i, g') \<and> generator_ok L g' \<and>
    (if some_free L is_free g mode ctx
     then id_is_valid L i \<and> is_free i \<and> (\<exists>r. base_id_min g \<le> r \<and> r \<le> base_id_max g \<and> i = make_list_id L r mode ctx)
     else i = invalid_id \<and> g' = g)"
proof (cases rule: generator_next_cases [OF assms(2), of is_free mode ctx])
  case (1 r g')
  have "r \<le> VALUE_MASK L" using 1(4) generator_okD(3) [OF assms(2)] by (rule order_trans)
  moreover have "0 < r" using generator_okD(1) [OF assms(2)] 1(3) by (rule less_le_trans)
  ultimately have "id_is_valid L (make_list_id L r mode ctx)" by (intro make_list_id_valid [OF assms(1)])
  moreover have "some_free L is_free g mode ctx" using 1(2,3,4) by (auto simp: some_free_def)
  ultimately show ?thesis using 1 by auto
next
  case 2
  then show ?thesis using assms(2) by simp
qed

theorem generator_next_total_witness:
  "\<exists>i g'. generator_next sample_layout (\<lambda>i. i = 3) (mk_id_generator 1 (VALUE_MASK sample_layout)) CACHED 0 = Some (i, g') \<and>
     generator_ok sample_layout g'"
proof -
  have "generator_ok sample_layout (mk_id_generator 1 (VALUE_MASK sample_layout))"
    by (rule generator_ok_initial) (simp_all add: one_le_VALUE_MASK [OF sample_layout_ok])
  from generator_next_total [OF sample_layout_ok this, of "\<lambda>i. i = 3" CACHED 0] show ?thesis by blast
qed

text \<open>The parts of a list ID are read back as they were put in: the counter value, the cache
  mode and the context of an ID made by the generator.\<close>

theorem make_list_id_roundtrip:
  assumes "ctx_layout_ok L" and "r \<le> VALUE_MASK L" and "ctx \<le> context_id_max L"
  shows "get_cooked_id L (make_list_id L r mode ctx) = r \<and>
    get_cache_mode L (make_list_id L r mode ctx) = mode \<and> get_context L (make_list_id L r mode ctx) = ctx"
  using assms make_list_id_cooked [of L r mode ctx] make_list_id_nocache [of L r mode ctx] make_list_id_context [of L r ctx mode]
  by (cases mode) (simp_all add: get_cache_mode_def)

theorem make_list_id_roundtrip_witness:
  "get_cooked_id sample_layout (make_list_id sample_layout 5 UNCACHED 3) = 5 \<and>
   get_cache_mode sample_layout (make_list_id sample_layout 5 UNCACHED 3) = UNCACHED \<and>
   get_context sample_layout (make_list_id sample_layout 5 UNCACHED 3) = 3"
  by (rule make_list_id_roundtrip [OF sample_layout_ok])
    (simp_all add: sample_layout_def VALUE_MASK_def NOCACHE_BIT_def)

section \<open>Using objects\<close>

text \<open>C11: Marking an object as used moves it and all objects above it, in this order, to the young
  end of the aging list, leaves the order of all others alone, gives exactly the moved objects the
  current time, and keeps the cache consistent. The result is the number of objects above it.\<close>

theorem use_moves_path_to_end:
  assumes "cache_inv L c xs" and "lookup c i = Some e" and "minimum_required_creation_time c < now"
    and "used_before c now"
  shows "\<exists>c'. use_id now i c = (c', int (depth (objs c) e) - 1) \<and>
    cache_inv L c' (filter (\<lambda>a. a \<notin> set (chain (objs c) e)) xs @ chain (objs c) e) \<and>
    (\<forall>a. last_used (objs c' a) = (if a \<in> set (chain (objs c) e) then now else last_used (objs c a)))"
proof -
  have e: "e \<in> set xs" using lookup_member [OF assms(1,2)] by simp
  obtain h' where U: "use_entry now e c =
      (c\<lparr>objs := h', oldest_object := hd_opt (moved_to_end (objs c) e xs), deepest_youngest_object := Some e\<rparr>,
       int (length (chain (objs c) e)) - 1)"
    and N: "\<And>a. nolinks (h' a) = nolinks (touched (objs c) e now a)"
    and I: "cache_inv L (fst (use_entry now e c)) (moved_to_end (objs c) e xs)"
    using use_entry_inv [OF assms(1) e assms(3,4)] by metis
  have "last_used (h' a) = (if a \<in> set (chain (objs c) e) then now else last_used (objs c a))" for a
    using touched_fields(6) [of h' _ "objs c" e now, OF N] by simp
  with U I show ?thesis using assms(2) by (simp add: use_id_def moved_to_end_def depth_def)
qed

theorem use_moves_path_to_end_witness:
  "\<exists>c'. use_id 9 2 sample_cache = (c', 1) \<and> cache_inv sample_layout c' [20, 10] \<and>
     last_used (objs c' 20) = 9"
proof -
  have l: "lookup sample_cache 2 = Some 20" by (simp add: sample_cache_def lookup_def)
  have m: "minimum_required_creation_time sample_cache < 9" "used_before sample_cache 9"
    by (simp_all add: sample_cache_def used_before_def sample_heap_def)
  have c: "chain (objs sample_cache) 20 = [20, 10]" by (simp add: sample_cache_def sample_chain)
  show ?thesis using use_moves_path_to_end [OF sample_inv l m] by (auto simp: c depth_def)
qed

section \<open>Re-keying\<close>

text \<open>Inserting a cached object again gives it a valid ID of the same cache mode and context; it
  is found under this ID and no longer under the old one, all other objects keep theirs, and the
  cache stays consistent (also if the object is the pinned one).\<close>

theorem insert_again_rekeys:
  assumes "cache_inv L c xs" and "lookup c j = Some e"
    and "some_free L (\<lambda>i. smap_find (smap_erase j (all_objects c)) i = None) (id_gen c) (get_cache_mode L j) (get_context L j)"
  shows "\<exists>c' i. insert_again L (Some e) c = Some (c', i) \<and> cache_inv L c' xs \<and> id_is_valid L i \<and>
    (\<exists>r \<le> VALUE_MASK L. i = make_list_id L r (get_cache_mode L j) (get_context L j)) \<and>
    (\<forall>k. lookup c' k = (if k = i then Some e else if k = j then None else lookup c k))"
proof -
  have e: "e \<in> set xs" "cache_id (objs c e) = j" using lookup_member [OF assms(1,2)] by simp_all
  obtain c' i where R: "insert_again L (Some e) c = Some (c', i)" "cache_inv L c' xs" "id_is_valid L i"
    "lookup c' i = Some e" "\<And>k. k \<noteq> i \<Longrightarrow> k \<noteq> j \<Longrightarrow> lookup c' k = lookup c k"
    "j \<noteq> i \<Longrightarrow> lookup c' j = None"
    "\<exists>r. i = make_list_id L r (get_cache_mode L j) (get_context L j) \<and> r \<le> VALUE_MASK L"
    using insert_again_spec [OF assms(1) e(1), unfolded e(2), OF assms(3)] by metis
  have "\<forall>k. lookup c' k = (if k = i then Some e else if k = j then None else lookup c k)" using R(4-6) by auto
  with R(1-3,7) show ?thesis by blast
qed

theorem insert_again_rekeys_witness:
  "\<exists>c' i. insert_again sample_layout (Some 20) sample_cache = Some (c', i) \<and> id_is_valid sample_layout i \<and>
     lookup c' i = Some 20 \<and> (i \<noteq> 2 \<longrightarrow> lookup c' 2 = None)"
proof -
  have l: "lookup sample_cache 2 = Some 20" by (simp add: sample_cache_def lookup_def)
  have "make_list_id sample_layout 2 (get_cache_mode sample_layout 2) (get_context sample_layout 2) = 2"
    "2 \<le> VALUE_MASK sample_layout"
    by (simp_all add: make_list_id_def get_cache_mode_def get_context_def get_nocache_bit_def sample_layout_def NOCACHE_BIT_def VALUE_MASK_def)
  then have "some_free sample_layout (\<lambda>i. smap_find (smap_erase 2 (all_objects sample_cache)) i = None) (id_gen sample_cache)
      (get_cache_mode sample_layout 2) (get_context sample_layout 2)"
    unfolding some_free_def by (intro exI [of _ 2]) (simp add: sample_cache_def mk_id_generator_def)
  from insert_again_rekeys [OF sample_inv l this] show ?thesis by auto
qed

section \<open>The kill list\<close>

lemma sample_kill_list: "kill_list_ok sample_cache [1, 2]"
  by (auto simp: kill_list_ok_def sample_cache_def lookup_def)

section \<open>The consistency check of the program\<close>

text \<open>The built-in consistency check of the cache, which the tests run after every operation,
  succeeds in every consistent state and at any time.\<close>

theorem self_check_never_fails:
  assumes "cache_inv L c xs"
  shows "self_check L now c = Some True"
  by (rule self_check_passes [OF assms])

theorem self_check_never_fails_witness: "self_check sample_layout 9 sample_cache = Some True"
  by (rule self_check_never_fails [OF sample_inv])

text \<open>C23: For a kill list of known objects that holds, with an object, all its children, sorting
  succeeds; the result has the same IDs, each once, and no object before one of its children.\<close>

theorem kill_list_children_first:
  assumes "cache_inv L c xs" and "kill_list_ok c ks"
  shows "\<exists>ks'. toposort_for_purge c ks = Some (ks', True) \<and> set ks' = set ks \<and> distinct ks' \<and> children_first c ks'"
  by (rule toposort_spec [OF assms])

theorem kill_list_children_first_witness:
  "\<exists>ks'. toposort_for_purge sample_cache [1, 2] = Some (ks', True) \<and> set ks' = {1, 2} \<and> children_first sample_cache ks'"
  using kill_list_children_first [OF sample_inv sample_kill_list] by auto

section \<open>The timer of the garbage collector\<close>


end
