(* ===== verification/Flat_Lists.thy ===== *)
theory Flat_Lists
  imports Cacheable
begin

text \<open>
  List items (\<^verbatim>\<open>ListItem_\<close> in \<^verbatim>\<open>src/common/lists_base.hh\<close>), flat lists (\<^verbatim>\<open>FlatList\<close> in
  \<^verbatim>\<open>lists.hh\<close>) and the register of lists that disappeared without the cache knowing
  (\<^verbatim>\<open>LRU::KilledLists\<close>). The data of an item is a type parameter, as in the source.
\<close>

section \<open>List items\<close>

record 'd list_item =
  child :: list_id
  specific_data :: 'd

definition new_list_item :: "'d \<Rightarrow> 'd list_item" where
  "new_list_item d = \<lparr>child = invalid_id, specific_data = d\<rparr>"

definition reset_item :: "('d \<Rightarrow> 'd) \<Rightarrow> 'd list_item \<Rightarrow> 'd list_item" where
  "reset_item reset_data it = it\<lparr>specific_data := reset_data (specific_data it), child := invalid_id\<rparr>"

definition set_child_list :: "list_id \<Rightarrow> 'd list_item \<Rightarrow> 'd list_item" where
  "set_child_list i it = it\<lparr>child := i\<rparr>"

definition obliviate_item :: "'d list_item \<Rightarrow> 'd list_item" where
  "obliviate_item it = it\<lparr>child := invalid_id\<rparr>"

section \<open>Flat lists\<close>

type_synonym 'd flat_list = "'d list_item list"

definition append_unsorted :: "'d list_item \<Rightarrow> 'd flat_list \<Rightarrow> 'd flat_list" where
  "append_unsorted it items = items @ [it]"

definition flat_insert_before :: "nat \<Rightarrow> 'd list_item \<Rightarrow> 'd flat_list \<Rightarrow> 'd flat_list" where
  "flat_insert_before idx it items = take idx items @ it # drop idx items"

definition FIXME_remove :: "nat \<Rightarrow> 'd flat_list \<Rightarrow> ('d flat_list \<times> list_id) option" where
  "FIXME_remove idx items =
     (if idx < length items then Some (take idx items @ drop (Suc idx) items, child (items ! idx)) else None)"

definition lookup_child_by_id :: "list_id \<Rightarrow> 'd flat_list \<Rightarrow> 'd list_item option" where
  "lookup_child_by_id i items = find (\<lambda>it. child it = i) items"

fun index_of :: "('x \<Rightarrow> bool) \<Rightarrow> 'x list \<Rightarrow> nat option" where
  "index_of P [] = None"
| "index_of P (x # xs) = (if P x then Some 0 else map_option Suc (index_of P xs))"

definition lookup_item_id_by_child_id :: "list_id \<Rightarrow> 'd flat_list \<Rightarrow> nat option" where
  "lookup_item_id_by_child_id i items = index_of (\<lambda>it. child it = i) items"

definition enumerate_direct_sublists :: "ctx_layout \<Rightarrow> 'd flat_list \<Rightarrow> list_id list" where
  "enumerate_direct_sublists L items = filter (id_is_valid L) (map child items)"

section \<open>Killed lists\<close>

type_synonym killed_lists = "list_id set"

definition killed :: "list_id \<Rightarrow> killed_lists \<Rightarrow> killed_lists" where
  "killed i ks = insert i ks"

definition erase_killed :: "list_id \<Rightarrow> killed_lists \<Rightarrow> killed_lists \<times> bool" where
  "erase_killed i ks = (ks - {i}, i \<in> ks)"

definition reset_killed :: "killed_lists \<Rightarrow> killed_lists \<times> bool" where
  "reset_killed ks = (if ks = {} then (ks, False) else ({}, True))"

text \<open>
  \<^verbatim>\<open>obliviate_child()\<close> of all lists: the item that refers to the child forgets it; a child
  that no item refers to must be among the killed lists, which forget it instead. The last
  component tells whether the program reports a bug.
\<close>

definition obliviate_list_child ::
  "list_id \<Rightarrow> 'd flat_list \<Rightarrow> killed_lists \<Rightarrow> 'd flat_list \<times> killed_lists \<times> bool" where
  "obliviate_list_child i items ks =
     (case lookup_item_id_by_child_id i items of
        Some n \<Rightarrow> (items[n := obliviate_item (items ! n)], ks, False)
      | None \<Rightarrow> let (ks', found) = erase_killed i ks in (items, ks', \<not> found))"

section \<open>Facts\<close>

lemma index_of_Some:
  "index_of P xs = Some n \<longleftrightarrow> n < length xs \<and> P (xs ! n) \<and> (\<forall>m < n. \<not> P (xs ! m))"
proof (induction xs arbitrary: n)
  case (Cons x xs)
  then show ?case by (cases n) (auto simp: nth_Cons less_Suc_eq_0_disj split: nat.splits)
qed simp

lemma index_of_None: "index_of P xs = None \<longleftrightarrow> (\<forall>x \<in> set xs. \<not> P x)"
  by (induction xs) auto

lemma lookup_item_id_None: "lookup_item_id_by_child_id i items = None \<longleftrightarrow> i \<notin> child ` set items"
  by (auto simp: lookup_item_id_by_child_id_def index_of_None)

text \<open>The two ways to look for a child agree.\<close>

lemma lookup_child_item:
  "lookup_child_by_id i items = map_option (\<lambda>n. items ! n) (lookup_item_id_by_child_id i items)"
  unfolding lookup_child_by_id_def lookup_item_id_by_child_id_def
  by (induction items) (auto simp: option.map_comp comp_def)

lemma insert_before_remove:
  "idx \<le> length items \<Longrightarrow> FIXME_remove idx (flat_insert_before idx it items) = Some (items, child it)"
  by (simp add: FIXME_remove_def flat_insert_before_def nth_append min_def Suc_diff_le)

definition links_distinct :: "ctx_layout \<Rightarrow> 'd flat_list \<Rightarrow> bool" where
  "links_distinct L items \<longleftrightarrow> distinct (enumerate_direct_sublists L items)"

lemma enumerate_update_invalid:
  assumes "n < length items" and "child it = invalid_id" and "links_distinct L items" and "id_is_valid L (child (items ! n))"
  shows "enumerate_direct_sublists L (items[n := it]) = remove1 (child (items ! n)) (enumerate_direct_sublists L items)"
proof -
  let ?a = "take n items" and ?b = "drop (Suc n) items" and ?i = "child (items ! n)"
  have split: "items = ?a @ items ! n # ?b" using assms(1) by (simp add: id_take_nth_drop)
  have "items[n := it] = ?a @ it # ?b" using assms(1) by (simp add: upd_conv_take_nth_drop)
  then have new: "enumerate_direct_sublists L (items[n := it]) = enumerate_direct_sublists L ?a @ enumerate_direct_sublists L ?b"
    using assms(2) by (simp add: enumerate_direct_sublists_def)
  have old: "enumerate_direct_sublists L items = enumerate_direct_sublists L ?a @ ?i # enumerate_direct_sublists L ?b"
    using assms(4) by (subst split) (simp add: enumerate_direct_sublists_def)
  have "?i \<notin> set (enumerate_direct_sublists L ?a)" using assms(3) by (simp add: links_distinct_def old)
  then show ?thesis by (simp add: old new remove1_append)
qed

lemma obliviate_present:
  assumes "i \<in> child ` set items" and "links_distinct L items" and "id_is_valid L i"
    and "obliviate_list_child i items ks = (items', ks', bug)"
  shows "ks' = ks" and "\<not> bug" and "links_distinct L items'"
    and "set (enumerate_direct_sublists L items') = set (enumerate_direct_sublists L items) - {i}"
proof -
  obtain n where n: "lookup_item_id_by_child_id i items = Some n"
    using assms(1) lookup_item_id_None [of i items] by auto
  then have N: "n < length items" "child (items ! n) = i"
    by (auto simp: lookup_item_id_by_child_id_def index_of_Some)
  have e: "enumerate_direct_sublists L items' = remove1 i (enumerate_direct_sublists L items)"
    using assms(4) n N enumerate_update_invalid [OF N(1) _ assms(2), of "obliviate_item (items ! n)"] assms(3)
    by (auto simp: obliviate_list_child_def obliviate_item_def)
  then show "links_distinct L items'"
    "set (enumerate_direct_sublists L items') = set (enumerate_direct_sublists L items) - {i}"
    using assms(2) by (simp_all add: links_distinct_def)
  show "ks' = ks" "\<not> bug" using assms(4) n by (auto simp: obliviate_list_child_def)
qed

lemma obliviate_other:
  assumes "obliviate_list_child i items ks = (items', ks', bug)" and "i \<notin> child ` set items"
  shows "items' = items" and "ks' = ks - {i}" and "bug \<longleftrightarrow> i \<notin> ks"
  using assms lookup_item_id_None [of i items]
  by (auto simp: obliviate_list_child_def erase_killed_def)

end
