(* ===== verification/Listtree_Manager.thy ===== *)
theory Listtree_Manager
  imports Flat_Lists
begin

text \<open>
  The list tree manager (\<^verbatim>\<open>src/common/listtree_manager.cc\<close>, \<^verbatim>\<open>listtree_manager.hh\<close>): the
  operations on the tree of cached lists that the D-Bus handlers of both list brokers use. Its
  state joins the cache and the collector's timer with the overrides, the contents of the
  lists, the register of killed lists and the log of emitted \<^verbatim>\<open>ListInvalidate\<close> signals.
  The lists are flat ones: all lists of the USB broker, and the server list of the UPnP broker.
\<close>

section \<open>State\<close>

text \<open>Which program it is decides on the cacheability check and on the type of the root list
  (\<^verbatim>\<open>strbo_lb_usb.cc\<close>, \<^verbatim>\<open>strbo_lb_upnp.cc\<close>).\<close>

datatype broker_kind = USB_BROKER | UPNP_BROKER

record 'd lb_state = control +
  broker :: broker_kind
  checks :: override_table
  contents :: "addr \<Rightarrow> 'd flat_list"
  killed_register :: killed_lists
  signals :: "(list_id \<times> list_id) list"
  bug_reports :: nat
  pending_list :: "addr option"
  default_cache_mode_request :: cache_mode_request

datatype purge_result = INVALID | UNTOUCHED | REPLACED_ROOT | PURGED | PURGED_AND_REPLACED

section \<open>The cacheability check, by type\<close>

definition check_is_cacheable :: "ctx_layout \<Rightarrow> list_id \<Rightarrow> ('d, 'a) lb_state_scheme \<Rightarrow> bool" where
  "check_is_cacheable L i c =
     (case broker c of USB_BROKER \<Rightarrow> is_cacheable_plain L i | UPNP_BROKER \<Rightarrow> is_cacheable L c (checks c) i)"

definition check_put_override ::
  "ctx_layout \<Rightarrow> ((nat \<times> nat) list \<Rightarrow> nat) \<Rightarrow> int \<Rightarrow> list_id \<Rightarrow> ('d, 'a) lb_state_scheme \<Rightarrow> ('d, 'a) lb_state_scheme \<times> int" where
  "check_put_override L tid us i c =
     (case broker c of
        USB_BROKER \<Rightarrow> (c, -1)
      | UPNP_BROKER \<Rightarrow> let (t, s) = put_override L tid c us i (checks c) in (c\<lparr>checks := t\<rparr>, s))"

definition check_remove_override :: "list_id \<Rightarrow> ('d, 'a) lb_state_scheme \<Rightarrow> ('d, 'a) lb_state_scheme \<times> bool" where
  "check_remove_override i c =
     (case broker c of
        USB_BROKER \<Rightarrow> (c, False)
      | UPNP_BROKER \<Rightarrow> let (t, b) = remove_override i (checks c) in (c\<lparr>checks := t\<rparr>, b))"

definition check_list_invalidate :: "ctx_layout \<Rightarrow> list_id \<Rightarrow> list_id \<Rightarrow> ('d, 'a) lb_state_scheme \<Rightarrow> ('d, 'a) lb_state_scheme" where
  "check_list_invalidate L i r c =
     (case broker c of USB_BROKER \<Rightarrow> c | UPNP_BROKER \<Rightarrow> c\<lparr>checks := list_invalidate L i r (checks c)\<rparr>)"

definition emit_list_invalidate :: "list_id \<Rightarrow> list_id \<Rightarrow> ('d, 'a) lb_state_scheme \<Rightarrow> ('d, 'a) lb_state_scheme" where
  "emit_list_invalidate i r c = c\<lparr>signals := signals c @ [(i, r)]\<rparr>"

section \<open>What the cache calls on removal\<close>

definition list_discarded_from_cache :: "ctx_layout \<Rightarrow> list_id \<Rightarrow> ('d, 'a) lb_state_scheme \<Rightarrow> ('d, 'a) lb_state_scheme" where
  "list_discarded_from_cache L i c = emit_list_invalidate i invalid_id (check_list_invalidate L i invalid_id c)"

definition obliviate_child_of :: "addr \<Rightarrow> list_id \<Rightarrow> addr \<Rightarrow> ('d, 'a) lb_state_scheme \<Rightarrow> ('d, 'a) lb_state_scheme" where
  "obliviate_child_of p i e c =
     (let (items, ks, bug) = obliviate_list_child i (contents c p) (killed_register c)
      in c\<lparr>contents := (contents c)(p := items), killed_register := ks,
           bug_reports := (if bug then bug_reports c + 1 else bug_reports c)\<rparr>)"

definition removal_callbacks :: "ctx_layout \<Rightarrow> ('d, 'a) lb_state_scheme lru_callbacks" where
  "removal_callbacks L =
     \<lparr>notify_first_object_inserted = Some, notify_garbage_collection_needed = Some,
      notify_object_removed = list_discarded_from_cache L,
      notify_last_object_removed = disable_garbage_collection,
      obliviate_child = obliviate_child_of\<rparr>"

abbreviation tree_callbacks ::
  "ctx_layout \<Rightarrow> ((nat \<times> nat) list \<Rightarrow> nat) \<Rightarrow> time_point \<Rightarrow> ('d, 'a) lb_state_scheme lru_callbacks" where
  "tree_callbacks L gid now \<equiv> broker_callbacks gid (removal_callbacks L) now"

section \<open>Operations\<close>

text \<open>A list is constructed at address \<open>e\<close>, which the allocator gives.\<close>

definition allocate_list :: "addr \<Rightarrow> addr option \<Rightarrow> time_point \<Rightarrow> ('d, 'a) lb_state_scheme \<Rightarrow> ('d, 'a) lb_state_scheme" where
  "allocate_list e p now c =
     c\<lparr>objs := (objs c)(e := mk_entry p now), contents := (contents c)(e := []), pending_list := Some e\<rparr>"

definition bless ::
  "ctx_layout \<Rightarrow> ((nat \<times> nat) list \<Rightarrow> nat) \<Rightarrow> time_point \<Rightarrow> addr \<Rightarrow> context_t \<Rightarrow> nat \<Rightarrow> bool \<Rightarrow>
   ('d, 'a) lb_state_scheme \<Rightarrow> (('d, 'a) lb_state_scheme \<times> list_id) option" where
  "bless L gid now e ctx size_of_list pin_it c =
     do {
       let c0 = c\<lparr>pending_list := None\<rparr>;
       (c1, i) \<leftarrow> insert_entry L (tree_callbacks L gid now) now e CACHED ctx size_of_list c0;
       c2 \<leftarrow> (if pin_it then map_option fst (pin L (tree_callbacks L gid now) now i c1) else Some c1);
       Some (c2, i)
     }"

definition allocate_blessed_list ::
  "ctx_layout \<Rightarrow> ((nat \<times> nat) list \<Rightarrow> nat) \<Rightarrow> time_point \<Rightarrow> addr \<Rightarrow> addr option \<Rightarrow> context_t \<Rightarrow> nat \<Rightarrow> bool \<Rightarrow>
   ('d, 'a) lb_state_scheme \<Rightarrow> (('d, 'a) lb_state_scheme \<times> list_id) option" where
  "allocate_blessed_list L gid now e p ctx size_of_list pin_it c =
     bless L gid now e ctx size_of_list pin_it (allocate_list e p now c)"

definition expel_unblessed :: "('d, 'a) lb_state_scheme \<Rightarrow> ('d, 'a) lb_state_scheme" where
  "expel_unblessed c = c\<lparr>pending_list := None\<rparr>"

definition get_parent_list_id :: "ctx_layout \<Rightarrow> list_id \<Rightarrow> ('d, 'a) lb_state_scheme \<Rightarrow> list_id" where
  "get_parent_list_id L i c =
     (if \<not> id_is_valid L i then invalid_id
      else case lookup c i of
        None \<Rightarrow> invalid_id
      | Some e \<Rightarrow> (case parent (objs c e) of None \<Rightarrow> invalid_id | Some p \<Rightarrow> cache_id (objs c p)))"

definition get_list_depth :: "ctx_layout \<Rightarrow> list_id \<Rightarrow> ('d, 'a) lb_state_scheme \<Rightarrow> nat" where
  "get_list_depth L i c =
     (if id_is_valid L i then (case lookup c i of None \<Rightarrow> 0 | Some e \<Rightarrow> depth (objs c) e) else 0)"

definition lookup_list :: "ctx_layout \<Rightarrow> list_id \<Rightarrow> ('d, 'a) lb_state_scheme \<Rightarrow> addr option" where
  "lookup_list L i c = (if id_is_valid L i then lookup c i else None)"

definition announce_root_list :: "ctx_layout \<Rightarrow> list_id \<Rightarrow> ('d, 'a) lb_state_scheme \<Rightarrow> ('d, 'a) lb_state_scheme" where
  "announce_root_list L i c = emit_list_invalidate 0 i (check_list_invalidate L invalid_id i c)"

definition reinsert_list ::
  "ctx_layout \<Rightarrow> list_id \<Rightarrow> ('d, 'a) lb_state_scheme \<Rightarrow> (('d, 'a) lb_state_scheme \<times> list_id) option" where
  "reinsert_list L i c =
     do {
       e \<leftarrow> lookup c i;
       let old_id = cache_id (objs c e);
       (c1, new_id) \<leftarrow> insert_again L (Some e) c;
       Some (emit_list_invalidate old_id new_id (check_list_invalidate L old_id new_id c1), new_id)
     }"

definition use_list ::
  "ctx_layout \<Rightarrow> ((nat \<times> nat) list \<Rightarrow> nat) \<Rightarrow> time_point \<Rightarrow> list_id \<Rightarrow> bool \<Rightarrow>
   ('d, 'a) lb_state_scheme \<Rightarrow> (('d, 'a) lb_state_scheme \<times> bool) option" where
  "use_list L gid now i pin_it c =
     (if \<not> id_is_valid L i then Some (c, False)
      else
        let (c1, r) = use_id now i c
        in if r = USED_ENTRY_INVALID_ID then Some (c1, False)
           else if \<not> pin_it then Some (c1, True)
           else
             let previous_pinned = pinned_object_id c1
             in do {
                  (c2, ok) \<leftarrow> pin L (tree_callbacks L gid now) now i c1;
                  c3 \<leftarrow> (if \<not> ok \<and> id_is_valid L previous_pinned
                         then map_option fst (pin L (tree_callbacks L gid now) now previous_pinned c2) else Some c2);
                  Some (c3, True)
                })"

definition force_list_into_cache ::
  "ctx_layout \<Rightarrow> ((nat \<times> nat) list \<Rightarrow> nat) \<Rightarrow> int \<Rightarrow> list_id \<Rightarrow> bool \<Rightarrow> ('d, 'a) lb_state_scheme \<Rightarrow>
   ('d, 'a) lb_state_scheme \<times> int" where
  "force_list_into_cache L tid us i force c =
     (if force then (let (c1, s) = check_put_override L tid us i c in (c1, max s 0))
      else (fst (check_remove_override i c), 0))"

definition repin_if_first_is_deepest_pinned_list ::
  "ctx_layout \<Rightarrow> ((nat \<times> nat) list \<Rightarrow> nat) \<Rightarrow> time_point \<Rightarrow> list_id \<Rightarrow> list_id \<Rightarrow> ('d, 'a) lb_state_scheme \<Rightarrow>
   ('d, 'a) lb_state_scheme option" where
  "repin_if_first_is_deepest_pinned_list L gid now first_id other_id c =
     (if \<not> id_is_valid L first_id then Some c
      else if first_id = pinned_object_id c
        then map_option fst (pin L (tree_callbacks L gid now) now other_id c)
      else Some c)"

section \<open>Enumerating a subtree\<close>

text \<open>Device lists and server lists, the roots, do not enumerate their direct sublists.\<close>

definition direct_sublists :: "ctx_layout \<Rightarrow> ('d, 'a) lb_state_scheme \<Rightarrow> addr \<Rightarrow> list_id list" where
  "direct_sublists L c e =
     (if parent (objs c e) = None then [] else enumerate_direct_sublists L (contents c e))"

partial_function (option) enumerate_loop ::
  "ctx_layout \<Rightarrow> ('d, 'a) lb_state_scheme \<Rightarrow> list_id list \<Rightarrow> list_id list \<Rightarrow> list_id list option" where
  "enumerate_loop L c unprocessed nodes =
     (case unprocessed of
        [] \<Rightarrow> Some nodes
      | i # is \<Rightarrow>
          (case lookup c i of
             None \<Rightarrow> None
           | Some e \<Rightarrow> enumerate_loop L c (is @ direct_sublists L c e) (nodes @ direct_sublists L c e)))"

fun enumerate_servers ::
  "ctx_layout \<Rightarrow> ('d, 'a) lb_state_scheme \<Rightarrow> 'd flat_list \<Rightarrow> list_id list \<Rightarrow> list_id list option" where
  "enumerate_servers L c [] nodes = Some nodes"
| "enumerate_servers L c (s # ss) nodes =
     (if id_is_valid L (child s)
      then case lookup c (child s) of
             None \<Rightarrow> None
           | Some e \<Rightarrow>
               do {
                 nodes' \<leftarrow> enumerate_loop L c [cache_id (objs c e)] (nodes @ [cache_id (objs c e)]);
                 enumerate_servers L c ss nodes'
               }
      else enumerate_servers L c ss nodes)"

definition enumerate_tree_of_sublists :: "ctx_layout \<Rightarrow> ('d, 'a) lb_state_scheme \<Rightarrow> addr \<Rightarrow> list_id list option" where
  "enumerate_tree_of_sublists L c e =
     (if parent (objs c e) = None \<and> broker c = UPNP_BROKER
      then enumerate_servers L c (contents c e) [cache_id (objs c e)]
      else enumerate_loop L c [cache_id (objs c e)] [cache_id (objs c e)])"

section \<open>Purging a subtree\<close>

definition purge_plan :: "ctx_layout \<Rightarrow> list_id \<Rightarrow> list_id \<Rightarrow> list_id list \<Rightarrow> nat \<times> purge_result" where
  "purge_plan L old_id new_id kill_list =
     (if \<not> id_is_valid L new_id then (0, PURGED)
      else if old_id = new_id then (1, if length kill_list > 1 then PURGED else UNTOUCHED)
      else (1, if length kill_list > 1 then PURGED_AND_REPLACED else REPLACED_ROOT))"

definition purge_sorted ::
  "ctx_layout \<Rightarrow> ((nat \<times> nat) list \<Rightarrow> nat) \<Rightarrow> time_point \<Rightarrow> list_id list \<Rightarrow> ('d, 'a) lb_state_scheme \<Rightarrow>
   ('d, 'a) lb_state_scheme option" where
  "purge_sorted L gid now ks c =
     do {
       (ks', _) \<leftarrow> toposort_for_purge c ks;
       purge_entries L (tree_callbacks L gid now) now ks' True c
     }"

definition purge_subtree ::
  "ctx_layout \<Rightarrow> ((nat \<times> nat) list \<Rightarrow> nat) \<Rightarrow> time_point \<Rightarrow> list_id \<Rightarrow> list_id \<Rightarrow>
   (list_id \<Rightarrow> list_id \<Rightarrow> ('d, 'a) lb_state_scheme \<Rightarrow> ('d, 'a) lb_state_scheme) option \<Rightarrow>
   ('d, 'a) lb_state_scheme \<Rightarrow> (('d, 'a) lb_state_scheme \<times> purge_result) option" where
  "purge_subtree L gid now old_id new_id set_root c =
     (let new_root = (\<lambda>c. case set_root of None \<Rightarrow> c | Some f \<Rightarrow> f old_id new_id c)
      in case (if id_is_valid L old_id then lookup c old_id else None) of
           None \<Rightarrow> Some (new_root c, INVALID)
         | Some e \<Rightarrow>
             do {
               kill_list \<leftarrow> enumerate_tree_of_sublists L c e;
               let (first_to_kill, result) = purge_plan L old_id new_id kill_list;
               c1 \<leftarrow> (if result = REPLACED_ROOT \<or> result = PURGED_AND_REPLACED
                      then do {
                        c0 \<leftarrow> purge_entries L (tree_callbacks L gid now) now (take 1 kill_list) False c;
                        Some (emit_list_invalidate old_id new_id (check_list_invalidate L old_id new_id (new_root c0)))
                      }
                      else Some (new_root c));
               c2 \<leftarrow> (if result = PURGED \<or> result = PURGED_AND_REPLACED
                      then purge_sorted L gid now (drop first_to_kill kill_list) c1 else Some c1);
               Some (c2, result)
             })"

section \<open>Entering a child list\<close>

text \<open>
  \<^verbatim>\<open>enter_child_template()\<close> for a flat list at address \<open>e\<close>; \<open>add_to_cache\<close> is the
  list-specific function that creates the child list and tells its ID and the error. The
  ID that is stored in the item is invalid if the list could not be created.
\<close>

definition set_child_at :: "addr \<Rightarrow> nat \<Rightarrow> list_id \<Rightarrow> ('d, 'a) lb_state_scheme \<Rightarrow> ('d, 'a) lb_state_scheme" where
  "set_child_at e n i c =
     c\<lparr>contents := (contents c)(e := (contents c e)[n := set_child_list i (contents c e ! n)])\<rparr>"

definition enter_child_template ::
  "ctx_layout \<Rightarrow> ((nat \<times> nat) list \<Rightarrow> nat) \<Rightarrow> time_point \<Rightarrow> addr \<Rightarrow> nat \<Rightarrow> bool \<Rightarrow>
   ('d list_item \<Rightarrow> ('d, 'a) lb_state_scheme \<Rightarrow> (('d, 'a) lb_state_scheme \<times> list_id \<times> list_error) option) \<Rightarrow>
   ('d, 'a) lb_state_scheme \<Rightarrow> (('d, 'a) lb_state_scheme \<times> list_id \<times> list_error) option" where
  "enter_child_template L gid now e item may_continue add_to_cache c =
     (if \<not> may_continue then Some (c, invalid_id, ERR_INTERRUPTED)
      else if item \<ge> length (contents c e) then Some (c, invalid_id, ERR_INVALID_ID)
      else
        let cached_child_id = child (contents c e ! item)
        in if check_is_cacheable L cached_child_id c then Some (c, cached_child_id, ERR_OK)
           else do {
             (c1, new_id, error) \<leftarrow> add_to_cache (contents c e ! item) c;
             (c2, _) \<leftarrow> purge_subtree L gid now cached_child_id new_id
                        (Some (\<lambda>old_id new_id c. if id_is_valid L new_id \<or> error \<noteq> ERR_INVALID_ID
                                                  then set_child_at e item new_id c else c)) c1;
             Some (c2, new_id, error)
           })"

section \<open>The callbacks are what the cache expects\<close>

lemma truncate_more [simp]:
  "cache.truncate (c\<lparr>checks := t\<rparr>) = cache.truncate c" "cache.truncate (c\<lparr>signals := s\<rparr>) = cache.truncate c"
  "cache.truncate (c\<lparr>is_enabled := b\<rparr>) = cache.truncate c"
  "cache.truncate (c\<lparr>contents := k\<rparr>) = cache.truncate c"
  "cache.truncate (c\<lparr>killed_register := r\<rparr>) = cache.truncate c" "cache.truncate (c\<lparr>bug_reports := n\<rparr>) = cache.truncate c"
  by (simp_all add: cache.defs)

lemmas removal_defs = removal_callbacks_def list_discarded_from_cache_def disable_garbage_collection_def
  obliviate_child_of_def emit_list_invalidate_def check_list_invalidate_def

interpretation tree: gc_client "removal_callbacks L :: ('d, 'a) lb_state_scheme lru_callbacks" gid for L gid
  by unfold_locales (simp_all add: removal_defs case_prod_unfold Let_def split: broker_kind.splits)

end
