(* ===== verification/Listtree_Tree.thy ===== *)
theory Listtree_Tree
  imports Listtree_Manager
begin

text \<open>
  The cache and the contents of the lists tell the same story: the items of a cached list refer
  to exactly those cached lists whose parent it is. Removing lists, by the garbage collector or
  by purging a subtree, keeps this, and announces each removed list once.
\<close>

section \<open>Links\<close>

definition children_in :: "'a cache_scheme \<Rightarrow> addr list \<Rightarrow> addr \<Rightarrow> addr set" where
  "children_in c xs a = {b \<in> set xs. parent (objs c b) = Some a}"

definition tree_linked :: "ctx_layout \<Rightarrow> ('d, 'a) lb_state_scheme \<Rightarrow> addr list \<Rightarrow> bool" where
  "tree_linked L c xs \<longleftrightarrow> (\<forall>a \<in> set xs. links_distinct L (contents c a) \<and>
     set (enumerate_direct_sublists L (contents c a)) = (\<lambda>b. cache_id (objs c b)) ` children_in c xs a)"

lemma tree_linkedD:
  assumes "tree_linked L c xs" and "a \<in> set xs"
  shows "links_distinct L (contents c a)"
    and "set (enumerate_direct_sublists L (contents c a)) = (\<lambda>b. cache_id (objs c b)) ` children_in c xs a"
  using assms by (simp_all add: tree_linked_def)

text \<open>What discarding does to the contents of the lists, the signals and the bug reports.\<close>

lemma unlink_from_fields [simp]:
  "parent (fst (unlink_from_aging_list a h) b) = parent (h b)"
  "cache_id (fst (unlink_from_aging_list a h) b) = cache_id (h b)"
  using nolinks_eqD [OF nolinks_unlink_from [of a h b]] by simp_all

lemma discard_tree:
  fixes c :: "('d, 'a) lb_state_scheme" and e :: addr and n :: bool
  assumes "cb = removal_callbacks L \<or> cb = tree_callbacks L gid now"
  defines "c' \<equiv> fst (discard cb e n c)" and "i \<equiv> cache_id (objs c e)"
  shows "signals c' = signals c @ (if n then [(i, invalid_id)] else [])"
    and "parent (objs c e) = None \<Longrightarrow> contents c' = contents c \<and> killed_register c' = killed_register c \<and> bug_reports c' = bug_reports c"
    and "parent (objs c e) = Some p \<Longrightarrow> obliviate_list_child i (contents c p) (killed_register c) = (items, ks, bug) \<Longrightarrow>
      contents c' = (contents c)(p := items) \<and> killed_register c' = ks \<and>
      bug_reports c' = (if bug then bug_reports c + 1 else bug_reports c)"
    and "broker c' = broker c"
proof -
  have cb: "notify_object_removed cb = list_discarded_from_cache L" "notify_last_object_removed cb = disable_garbage_collection"
    "obliviate_child cb = obliviate_child_of"
    using assms(1) by (auto simp: removal_callbacks_def broker_callbacks_def)
  show "signals c' = signals c @ (if n then [(i, invalid_id)] else [])"
    "parent (objs c e) = None \<Longrightarrow> contents c' = contents c \<and> killed_register c' = killed_register c \<and> bug_reports c' = bug_reports c"
    "parent (objs c e) = Some p \<Longrightarrow> obliviate_list_child i (contents c p) (killed_register c) = (items, ks, bug) \<Longrightarrow>
      contents c' = (contents c)(p := items) \<and> killed_register c' = ks \<and>
      bug_reports c' = (if bug then bug_reports c + 1 else bug_reports c)"
    "broker c' = broker c"
    unfolding c'_def i_def discard_def cb
    by (auto simp: case_prod_unfold Let_def removal_defs del_child_def split: option.splits broker_kind.splits)
qed

lemma discard_links:
  fixes c :: "('d, 'a) lb_state_scheme"
  assumes cb: "cb = removal_callbacks L \<or> cb = tree_callbacks L gid now"
    and I: "cache_inv L c xs" and T: "tree_linked L c xs" and e: "e \<in> set xs"
    and frame: "gc_frame c (fst (discard cb e n c))"
  shows "tree_linked L (fst (discard cb e n c)) (removeAll e xs)"
    and "killed_register (fst (discard cb e n c)) = killed_register c"
    and "bug_reports (fst (discard cb e n c)) = bug_reports c"
proof -
  let ?c = "fst (discard cb e n c)" and ?i = "cache_id (objs c e)"
  note F = gc_frameD [OF frame] and D = discard_tree [OF cb, where c = c and e = e and n = n]
  have val: "id_is_valid L ?i" using member_lookup(2) [OF I e] .
  have ch: "children_in ?c (removeAll e xs) a = children_in c xs a - {e}" for a
    by (auto simp: children_in_def F)
  have ids: "(\<lambda>b. cache_id (objs ?c b)) ` (children_in c xs a - {e}) = (\<lambda>b. cache_id (objs c b)) ` children_in c xs a - {?i}"
    if "e \<in> children_in c xs a" for a
    using ids_inj [OF I _ e] by (auto simp: F children_in_def)
  have all: "tree_linked L ?c (removeAll e xs) \<and> killed_register ?c = killed_register c \<and> bug_reports ?c = bug_reports c"
  proof (cases "parent (objs c e)")
    case None
    then have "e \<notin> children_in c xs a" for a by (simp add: children_in_def)
    then show ?thesis using D(2) [OF None] T by (simp add: tree_linked_def ch F)
  next
    case (Some p)
    obtain items ks bug where o: "obliviate_list_child ?i (contents c p) (killed_register c) = (items, ks, bug)"
      by (cases "obliviate_list_child ?i (contents c p) (killed_register c)")
    note P = D(3) [OF Some o]
    have p: "p \<in> set xs" using chain_members [OF I e] chain_step [OF aging_list_ofD(3) [OF cache_invD(1) [OF I]] Some] by auto
    have mem: "e \<in> children_in c xs p" using e Some by (simp add: children_in_def)
    then have "?i \<in> set (enumerate_direct_sublists L (contents c p))" using tree_linkedD(2) [OF T p] by blast
    then have "?i \<in> child ` set (contents c p)" by (auto simp: enumerate_direct_sublists_def)
    note O = obliviate_present [OF this tree_linkedD(1) [OF T p] val o]
    have "links_distinct L (contents ?c a) \<and>
        set (enumerate_direct_sublists L (contents ?c a)) = (\<lambda>b. cache_id (objs ?c b)) ` (children_in c xs a - {e})"
      if a: "a \<in> set xs" for a
    proof (cases "a = p")
      case True
      then show ?thesis using P O tree_linkedD(2) [OF T p] ids [OF mem] by simp
    next
      case False
      then have "e \<notin> children_in c xs a" using Some by (simp add: children_in_def)
      then show ?thesis using P False tree_linkedD [OF T a] by (simp add: F)
    qed
    then show ?thesis using P O(1,2) by (auto simp: tree_linked_def ch)
  qed
  then show "tree_linked L ?c (removeAll e xs)" "killed_register ?c = killed_register c" "bug_reports ?c = bug_reports c" by simp_all
qed

section \<open>Garbage collection\<close>

text \<open>Exactly the lists that are gone have been announced, each once.\<close>

definition announced :: "('d, 'a) lb_state_scheme \<Rightarrow> addr list \<Rightarrow> ('d, 'a) lb_state_scheme \<Rightarrow> addr list \<Rightarrow> bool" where
  "announced c0 xs0 c xs \<longleftrightarrow> set xs \<subseteq> set xs0 \<and> (\<forall>a. cache_id (objs c a) = cache_id (objs c0 a)) \<and>
     (\<exists>rs. distinct rs \<and> set rs = set xs0 - set xs \<and>
        signals c = signals c0 @ map (\<lambda>a. (cache_id (objs c0 a), invalid_id)) rs)"

definition tree_kept :: "ctx_layout \<Rightarrow> ('d, 'a) lb_state_scheme \<Rightarrow> addr list \<Rightarrow> ('d, 'a) lb_state_scheme \<Rightarrow> addr list \<Rightarrow> bool" where
  "tree_kept L c0 xs0 c xs \<longleftrightarrow> tree_linked L c xs \<and> killed_register c = killed_register c0 \<and>
     bug_reports c = bug_reports c0 \<and> announced c0 xs0 c xs"

lemma tree_kept_refl: "tree_linked L c xs \<Longrightarrow> tree_kept L c xs c xs"
  by (auto simp: tree_kept_def announced_def)

lemma announced_discard:
  fixes c :: "('d, 'a) lb_state_scheme"
  assumes cb: "cb = removal_callbacks L \<or> cb = tree_callbacks L gid now"
    and A: "announced c0 xs0 c xs" and e: "e \<in> set xs" and frame: "gc_frame c (fst (discard cb e True c))"
  shows "announced c0 xs0 (fst (discard cb e True c)) (removeAll e xs)"
proof -
  obtain rs where rs: "distinct rs" "set rs = set xs0 - set xs"
    "signals c = signals c0 @ map (\<lambda>a. (cache_id (objs c0 a), invalid_id)) rs"
    and A': "set xs \<subseteq> set xs0" "\<And>a. cache_id (objs c a) = cache_id (objs c0 a)"
    using A by (auto simp: announced_def)
  have "signals (fst (discard cb e True c)) = signals c0 @ map (\<lambda>a. (cache_id (objs c0 a), invalid_id)) (rs @ [e])"
    using discard_tree(1) [OF cb, where c = c and e = e and n = True] rs(3) A'(2) by simp
  moreover have "distinct (rs @ [e])" "set (rs @ [e]) = set xs0 - set (removeAll e xs)"
    using rs(1,2) e A'(1) by auto
  moreover have "set (removeAll e xs) \<subseteq> set xs0" using A'(1) by auto
  ultimately show ?thesis unfolding announced_def using A'(2) gc_frameD(2) [OF frame] by metis
qed

lemma discard_tree_kept:
  fixes c :: "('d, 'a) lb_state_scheme"
  assumes cb: "cb = removal_callbacks L \<or> cb = tree_callbacks L gid now"
    and "cache_inv L c xs" and "e \<in> set xs" and "tree_kept L c0 xs0 c xs" and "gc_frame c (fst (discard cb e True c))"
  shows "tree_kept L c0 xs0 (fst (discard cb e True c)) (removeAll e xs)"
  using assms(4) discard_links [OF cb assms(2) _ assms(3,5)] announced_discard [OF cb _ assms(3,5)]
  unfolding tree_kept_def by auto

lemma tree_gc_kept:
  assumes "cache_inv L c xs" and "tree_linked L c xs"
  shows "\<exists>c' xs' t. gc (removal_callbacks L) now c = Some (c', t) \<and> cache_inv L c' xs' \<and>
    gc_frame (c\<lparr>gc_running := False\<rparr>) c' \<and> gc_post now c xs c' xs' t \<and> tree_kept L c xs c' xs'"
proof (rule tree.gc_keeps [where Q = "tree_kept L c xs", OF assms(1) tree_kept_refl [OF assms(2)]])
  show "tree.discard_keeps L L True (tree_kept L c xs)"
    unfolding tree.discard_keeps_def using discard_tree_kept tree.discard_frame by blast
qed (simp add: tree_kept_def announced_def tree_linked_def children_in_def)

section \<open>Enumerating a subtree\<close>

text \<open>A list and the lists below it.\<close>

definition below :: "'a cache_scheme \<Rightarrow> addr list \<Rightarrow> addr \<Rightarrow> addr set" where
  "below c xs e = {b \<in> set xs. e \<in> set (chain (objs c) b)}"

lemma below_finite [simp]: "finite (below c xs e)"
  by (simp add: below_def)

lemma below_self: "e \<in> set xs \<Longrightarrow> e \<in> below c xs e"
  by (simp add: below_def)

lemma parent_not_above: "parents_older h \<Longrightarrow> parent (h b) = Some p \<Longrightarrow> b \<notin> set (chain h p)"
  using chain_le [of b h p] by (auto simp: parents_older_def dest: leD)

text \<open>On the way up from an object there is at most one object with a given parent.\<close>

lemma chain_pred_unique:
  assumes "parents_older h" and "b1 \<in> set (chain h x)" and "b2 \<in> set (chain h x)"
    and "parent (h b1) = Some e" and "parent (h b2) = Some e"
  shows "b1 = b2"
  using assms(2,3)
proof (induction x rule: less_induct)
  case (less x)
  show ?case
  proof (cases "parent (h x)")
    case None
    then show ?thesis using less.prems by simp
  next
    case (Some p)
    have px: "p < x" using assms(1) Some by (simp add: parents_older_def)
    have no: False if "b \<in> set (chain h p)" "parent (h b) = Some p" for b
      using that parent_not_above [OF assms(1)] by blast
    show ?thesis
      using less.prems less.IH [OF px] no [of b1] no [of b2] Some assms(4,5) unfolding chain_step [OF assms(1) Some] by auto
  qed
qed

lemma below_children:
  assumes I: "cache_inv L c xs" and e: "e \<in> set xs"
  shows "below c xs e = insert e (\<Union>b \<in> children_in c xs e. below c xs b)"
    and "b \<in> children_in c xs e \<Longrightarrow> e \<notin> below c xs b"
    and "b1 \<in> children_in c xs e \<Longrightarrow> b2 \<in> children_in c xs e \<Longrightarrow> b1 \<noteq> b2 \<Longrightarrow> below c xs b1 \<inter> below c xs b2 = {}"
proof -
  note po = aging_list_ofD(3) [OF cache_invD(1) [OF I]]
  show "b \<in> children_in c xs e \<Longrightarrow> e \<notin> below c xs b"
    using parent_not_above [OF po] by (auto simp: children_in_def below_def)
  show "b1 \<in> children_in c xs e \<Longrightarrow> b2 \<in> children_in c xs e \<Longrightarrow> b1 \<noteq> b2 \<Longrightarrow> below c xs b1 \<inter> below c xs b2 = {}"
    using chain_pred_unique [OF po] by (fastforce simp: children_in_def below_def)
  show "below c xs e = insert e (\<Union>b \<in> children_in c xs e. below c xs b)"
  proof (intro equalityI subsetI)
    fix x assume x: "x \<in> below c xs e"
    show "x \<in> insert e (\<Union>b \<in> children_in c xs e. below c xs b)"
    proof (cases "x = e")
      case False
      then obtain b where "b \<in> set (chain (objs c) x)" "parent (objs c b) = Some e"
        using x chain_child [of e "objs c" x] by (auto simp: below_def)
      moreover have "b \<in> set xs" using calculation(1) x chain_members [OF I] by (auto simp: below_def)
      ultimately show ?thesis using x by (auto simp: children_in_def below_def)
    qed simp
  next
    fix x assume "x \<in> insert e (\<Union>b \<in> children_in c xs e. below c xs b)"
    then consider "x = e" | b where "b \<in> children_in c xs e" "x \<in> below c xs b" by blast
    then show "x \<in> below c xs e"
    proof cases
      case (2 b)
      have "chain (objs c) b = b # chain (objs c) e" using 2(1) chain_step [OF po] by (simp add: children_in_def)
      moreover obtain as where "chain (objs c) x = as @ chain (objs c) b"
        using chain_suffix [OF po, of b x] 2(2) by (auto simp: below_def)
      ultimately show ?thesis using 2(2) chain_self [of e "objs c"] by (auto simp: below_def)
    qed (simp add: below_self e)
  qed
qed

lemma direct_sublists_children:
  assumes I: "cache_inv L c xs" and T: "tree_linked L c xs" and e: "e \<in> set xs" and np: "parent (objs c e) \<noteq> None"
  obtains cs where "direct_sublists L c e = map (\<lambda>b. cache_id (objs c b)) cs" and "distinct cs" and "set cs = children_in c xs e"
proof -
  let ?d = "enumerate_direct_sublists L (contents c e)" and ?id = "\<lambda>b. cache_id (objs c b)"
  define cs where "cs = map (\<lambda>i. the (lookup c i)) ?d"
  have unid: "the (lookup c (?id b)) = b" if "b \<in> children_in c xs e" for b
    using member_lookup(1) [OF I] that by (simp add: children_in_def)
  note D = tree_linkedD [OF T e]
  have "?id (the (lookup c i)) = i" if "i \<in> set ?d" for i using that D(2) unid by auto
  then have "map ?id cs = ?d" by (simp add: cs_def map_idI)
  moreover from this have "distinct cs" using D(1) by (metis distinct_map links_distinct_def)
  moreover have "set cs = children_in c xs e" using D(2) unid by (force simp: cs_def)
  ultimately show ?thesis using that [of cs] np by (simp add: direct_sublists_def)
qed

lemma enumerate_loop_spec:
  assumes I: "cache_inv L c xs" and T: "tree_linked L c xs"
    and "distinct es" and "set es \<subseteq> set xs" and "\<forall>e \<in> set es. parent (objs c e) \<noteq> None"
    and "\<forall>a \<in> set es. \<forall>b \<in> set es. a \<noteq> b \<longrightarrow> below c xs a \<inter> below c xs b = {}"
  shows "\<exists>ds. enumerate_loop L c (map (\<lambda>b. cache_id (objs c b)) es) nodes = Some (nodes @ map (\<lambda>b. cache_id (objs c b)) ds) \<and>
    distinct ds \<and> set ds = (\<Union>e \<in> set es. below c xs e) - set es"
  using assms(3-6)
proof (induction "card (\<Union>e \<in> set es. below c xs e)" arbitrary: es nodes rule: less_induct)
  case less
  let ?id = "\<lambda>b. cache_id (objs c b)" and ?B = "below c xs"
  show ?case
  proof (cases es)
    case Nil
    then show ?thesis by (simp add: enumerate_loop.simps)
  next
    case (Cons e es')
    have e: "e \<in> set xs" "parent (objs c e) \<noteq> None" "e \<notin> set es'" using less.prems Cons by auto
    obtain cs where cs: "direct_sublists L c e = map ?id cs" "distinct cs" "set cs = children_in c xs e"
      by (rule direct_sublists_children [OF I T e(1,2)])
    note Be = below_children [OF I e(1)]
    have sub: "?B b \<subseteq> ?B e" "b \<in> ?B b" "b \<in> set xs" "parent (objs c b) \<noteq> None" if "b \<in> set cs" for b
      using that Be(1) by (auto simp: cs(3) children_in_def below_self)
    have disj: "?B e \<inter> ?B a = {}" if "a \<in> set es'" for a using less.prems(4) Cons that e(3) by auto
    have ein: "e \<notin> ?B a" if "a \<in> set es'" for a using disj [OF that] below_self [OF e(1)] by blast
    let ?U = "\<Union>a \<in> set (es' @ cs). ?B a"
    have U: "(\<Union>a \<in> set es. ?B a) = insert e ?U" using Be(1) cs(3) Cons by auto
    have eU: "e \<notin> ?U" using Be(2) ein cs(3) by auto
    have "card ?U < card (\<Union>a \<in> set es. ?B a)" unfolding U using eU by (simp add: card_insert_disjoint)
    moreover have "a \<notin> set cs" if "a \<in> set es'" for a using sub(1,2) [of a] disj [OF that] by blast
    then have "distinct (es' @ cs)" using less.prems(1) cs(2) Cons by auto
    moreover note \<open>distinct (es' @ cs)\<close>
    moreover have "set (es' @ cs) \<subseteq> set xs" "\<forall>a \<in> set (es' @ cs). parent (objs c a) \<noteq> None"
      using less.prems(2,3) sub Cons by auto
    moreover have "\<forall>a \<in> set (es' @ cs). \<forall>b \<in> set (es' @ cs). a \<noteq> b \<longrightarrow> ?B a \<inter> ?B b = {}"
    proof (intro ballI impI)
      fix a b assume ab: "a \<in> set (es' @ cs)" "b \<in> set (es' @ cs)" "a \<noteq> b"
      consider "a \<in> set es'" "b \<in> set es'" | "a \<in> set cs" "b \<in> set cs" | "a \<in> set cs" "b \<in> set es'" | "a \<in> set es'" "b \<in> set cs"
        using ab(1,2) by auto
      then show "?B a \<inter> ?B b = {}"
        using less.prems(4) ab(3) Be(3) cs(3) sub(1) disj Cons by cases (auto, blast+)
    qed
    ultimately obtain ds where ds: "enumerate_loop L c (map ?id (es' @ cs)) (nodes @ map ?id cs) =
        Some ((nodes @ map ?id cs) @ map ?id ds)" "distinct ds" "set ds = ?U - set (es' @ cs)"
      using less.hyps [of "es' @ cs" "nodes @ map ?id cs"] by blast
    have "enumerate_loop L c (map ?id es) nodes = enumerate_loop L c (map ?id (es' @ cs)) (nodes @ map ?id cs)"
      using member_lookup(1) [OF I e(1)] cs(1) by (subst enumerate_loop.simps) (simp add: Cons)
    moreover have "distinct (cs @ ds)" using cs(2) ds(2,3) by auto
    moreover have "set (cs @ ds) = (\<Union>a \<in> set es. ?B a) - set es"
    proof -
      have "set cs \<subseteq> ?U" using sub(2) by auto
      moreover have "set cs \<inter> set es' = {}" using \<open>distinct (es' @ cs)\<close> by auto
      ultimately show ?thesis unfolding U using ds(3) eU Cons by auto
    qed
    ultimately show ?thesis using ds(1) by (intro exI [of _ "cs @ ds"]) simp
  qed
qed

text \<open>The kill list of a list that is not the root: the list first, then all lists below it.\<close>

lemma enumerate_tree_spec:
  assumes I: "cache_inv L c xs" and T: "tree_linked L c xs" and e: "e \<in> set xs" and np: "parent (objs c e) \<noteq> None"
  obtains ds where "enumerate_tree_of_sublists L c e = Some (map (\<lambda>b. cache_id (objs c b)) (e # ds))"
    and "distinct (e # ds)" and "set (e # ds) = below c xs e"
proof -
  obtain ds where "enumerate_loop L c (map (\<lambda>b. cache_id (objs c b)) [e]) [cache_id (objs c e)] =
      Some ([cache_id (objs c e)] @ map (\<lambda>b. cache_id (objs c b)) ds)" "distinct ds" "set ds = (\<Union>e \<in> set [e]. below c xs e) - set [e]"
    using enumerate_loop_spec [OF I T, of "[e]" "[cache_id (objs c e)]"] e np by auto
  then show ?thesis
    using that [of ds] np below_self [OF e] by (auto simp: enumerate_tree_of_sublists_def)
qed

section \<open>Purging a subtree\<close>

lemma below_kill_list_ok:
  assumes I: "cache_inv L c xs" and d: "distinct ds" "set ds = below c xs e"
  shows "kill_list_ok c (map (\<lambda>b. cache_id (objs c b)) ds)"
proof -
  have sub: "set ds \<subseteq> set xs" using d(2) by (auto simp: below_def)
  then have "inj_on (\<lambda>b. cache_id (objs c b)) (set ds)" using ids_inj [OF I] by (auto intro!: inj_onI)
  moreover have "lookup c (cache_id (objs c b)) = Some b" if "b \<in> set ds" for b
    using member_lookup(1) [OF I] sub that by blast
  moreover have "j \<in> (\<lambda>b. cache_id (objs c b)) ` set ds"
    if "(j, b) \<in> set (all_objects c)" "parent (objs c b) = Some a" "a \<in> set ds" for j b a
  proof -
    have b: "b \<in> set xs" "cache_id (objs c b) = j" using that(1) cache_invD(5) [OF I] by (force simp: ids_ok_def)+
    have "chain (objs c) b = b # chain (objs c) a"
      by (rule chain_step [OF aging_list_ofD(3) [OF cache_invD(1) [OF I]] that(2)])
    then have "b \<in> below c xs e" using b that(3) d(2) by (simp add: below_def)
    then show ?thesis using b d(2) by blast
  qed
  ultimately show ?thesis using d(1) by (auto simp: kill_list_ok_def distinct_map)
qed

lemma purge_sorted_spec:
  fixes c :: "('d, 'a) lb_state_scheme"
  assumes I: "cache_inv L c xs" and T: "tree_linked L c xs" and ok: "kill_list_ok c ks"
    and np: "\<forall>i \<in> set ks. \<not> pinned (objs c (the (lookup c i)))"
  shows "\<exists>c'. purge_sorted L gid now ks c = Some c' \<and> cache_inv L c' (filter (\<lambda>a. cache_id (objs c a) \<notin> set ks) xs) \<and>
    gc_frame c c' \<and> tree_kept L c xs c' (filter (\<lambda>a. cache_id (objs c a) \<notin> set ks) xs)"
proof -
  obtain ks' where ks': "toposort_for_purge c ks = Some (ks', True)" "set ks' = set ks" "distinct ks'" "children_first c ks'"
    using toposort_spec [OF I ok] by blast
  have ok': "kill_list_ok c ks'" using ok ks'(2,3) by (simp add: kill_list_ok_def)
  have np': "\<forall>i \<in> set ks'. \<not> pinned (objs c (the (lookup c i)))" using np ks'(2) by simp
  have keeps: "tree.broker.discard_keeps gid L now L True (tree_kept L c xs)"
    unfolding tree.broker.discard_keeps_def
    using discard_tree_kept [of "tree_callbacks L gid now" L gid now] tree.broker.discard_frame by blast
  show ?thesis
    using tree.broker.purge_entries_keeps [OF I ok' ks'(4) np', of "tree_kept L c xs", OF tree_kept_refl [OF T] keeps] ks'(1,2)
    by (auto simp: purge_sorted_def)
qed

lemma purge_subtree_below:
  fixes c :: "('d, 'a) lb_state_scheme"
  assumes I: "cache_inv L c xs" and T: "tree_linked L c xs" and e: "lookup c i = Some e"
    and np: "parent (objs c e) \<noteq> None" and up: "\<forall>b \<in> below c xs e. \<not> pinned (objs c b)"
  shows "\<exists>c'. purge_subtree L gid now i invalid_id None c = Some (c', PURGED) \<and>
    cache_inv L c' (filter (\<lambda>a. a \<notin> below c xs e) xs) \<and> gc_frame c c' \<and>
    tree_kept L c xs c' (filter (\<lambda>a. a \<notin> below c xs e) xs)"
proof -
  let ?id = "\<lambda>b. cache_id (objs c b)"
  have m: "e \<in> set xs" "?id e = i" using lookup_member [OF I e] by simp_all
  have v: "id_is_valid L i" using member_lookup(2) [OF I m(1)] m(2) by simp
  obtain ds where E: "enumerate_tree_of_sublists L c e = Some (map ?id (e # ds))" "distinct (e # ds)" "set (e # ds) = below c xs e"
    by (rule enumerate_tree_spec [OF I T m(1) np])
  note ok = below_kill_list_ok [OF I E(2,3)]
  have sub: "below c xs e \<subseteq> set xs" by (auto simp: below_def)
  have look: "lookup c (?id b) = Some b" if "b \<in> below c xs e" for b using member_lookup(1) [OF I] sub that by blast
  have np': "\<forall>i \<in> set (map ?id (e # ds)). \<not> pinned (objs c (the (lookup c i)))"
    unfolding set_map E(3) using look up by auto
  have f: "filter (\<lambda>a. ?id a \<notin> set (map ?id (e # ds))) xs = filter (\<lambda>a. a \<notin> below c xs e) xs"
  proof (rule filter_cong [OF refl])
    fix a assume a: "a \<in> set xs"
    have "?id a \<in> ?id ` below c xs e \<longleftrightarrow> a \<in> below c xs e" using ids_inj [OF I a] sub by blast
    then show "(?id a \<notin> set (map ?id (e # ds))) = (a \<notin> below c xs e)" unfolding E(3) [symmetric] by simp
  qed
  obtain c' where "purge_sorted L gid now (map ?id (e # ds)) c = Some c'"
    "cache_inv L c' (filter (\<lambda>a. a \<notin> below c xs e) xs)" "gc_frame c c'" "tree_kept L c xs c' (filter (\<lambda>a. a \<notin> below c xs e) xs)"
    using purge_sorted_spec [OF I T ok np', of gid now] unfolding f by blast
  then show ?thesis using e v E(1) by (auto simp: purge_subtree_def purge_plan_def)
qed

section \<open>Allocating lists\<close>

lemma chain_upd: "e \<notin> set (chain h a) \<Longrightarrow> chain (h(e := x)) a = chain h a"
proof (induction a rule: less_induct)
  case (less a)
  have new: "chain (h(e := x)) a = a # (case parent ((h(e := x)) a) of None \<Rightarrow> [] | Some p \<Rightarrow> if p < a then chain (h(e := x)) p else [])"
    and old: "chain h a = a # (case parent (h a) of None \<Rightarrow> [] | Some p \<Rightarrow> if p < a then chain h p else [])"
    by (rule chain.simps)+
  have ea: "e \<noteq> a" using less.prems chain_self by metis
  show ?case
  proof (cases "parent (h a)")
    case (Some p)
    have "chain (h(e := x)) p = chain h p" if "p < a"
      by (rule less.IH [OF that]) (use less.prems [unfolded old] Some that in simp)
    then show ?thesis using ea Some by (subst old, subst new) simp
  qed (use ea in simp)
qed

text \<open>A new object is not seen by the cache before it is inserted.\<close>

lemma alloc_inv:
  fixes h :: heap
  assumes I: "cache_inv L c xs" and e: "e \<notin> set xs" and p: "\<And>q. p = Some q \<Longrightarrow> q < e" and h: "h = (objs c)(e := mk_entry p t)"
  shows "cache_inv L (c\<lparr>objs := h\<rparr>) xs" and "\<And>a. a \<in> set xs \<Longrightarrow> chain h a = chain (objs c) a"
proof -
  note A = aging_list_ofD [OF cache_invD(1) [OF I]]
  have same: "h a = objs c a" if "a \<in> set xs" for a using that e by (auto simp: h)
  show ch: "chain h a = chain (objs c) a" if "a \<in> set xs" for a
    unfolding h by (rule chain_upd) (use chain_members [OF I that] e in blast)
  have dyx: "d \<in> set xs" if "deepest_youngest_object c = Some d" for d
    using that cache_invD(1) [OF I] chain_self by (auto simp: aging_list_of_def)
  have po: "parents_older h" using A(3) p by (auto simp: parents_older_def h mk_entry_def)
  have "dll h None xs None" using A(1) dll_cong [of xs h "objs c"] same by simp
  moreover have "parents_after h xs" using A(4) parents_after_cong [of xs h "objs c"] same by simp
  ultimately have "aging_list_of h (deepest_youngest_object c) xs"
    using cache_invD(1) [OF I] po dyx ch by (auto simp: aging_list_of_def split: option.splits)
  moreover have "roots_ok h xs" using cache_invD(4) [OF I] roots_ok_cong [of xs h "objs c" xs] same by simp
  moreover have "ids_ok L h (all_objects c) (set xs)" using cache_invD(5) [OF I] ids_ok_cong [of "set xs" h "objs c"] same by simp
  moreover have "counts_ok h (set xs) (total_size c)" using cache_invD(6) [OF I] counts_ok_cong [of "set xs" h "objs c"] same by simp
  moreover have "pins_ok L h (all_objects c) (set xs) (pinned_object_id c)"
  proof -
    have "pinned_path L h (all_objects c) i = pinned_path L (objs c) (all_objects c) i" for i
      using lookup_member [OF I, of i] ch by (auto simp: pinned_path_def lookup_def split: option.splits)
    moreover have "{a \<in> set xs. pinned (h a)} = {a \<in> set xs. pinned (objs c a)}" using same by auto
    ultimately show ?thesis using cache_invD(7) [OF I] by (simp add: pins_ok_def)
  qed
  moreover have "ages_ok h (deepest_youngest_object c) xs (minimum_required_creation_time c)"
  proof -
    have m: "map (\<lambda>a. last_used (h a)) xs = map (\<lambda>a. last_used (objs c a)) xs" using same by simp
    have r: "last_used (h r) = last_used (objs c r)" if "last_opt xs = Some r" for r using same [OF last_opt_mem [OF that]] by simp
    have d: "last_used (h a) = last_used (objs c a)" if "deepest_youngest_object c = Some d" "a \<in> set (chain h d)" for a d
      using chain_members [OF I dyx [OF that(1)]] that(2) ch [OF dyx [OF that(1)]] same by auto
    show ?thesis using cache_invD(8) [OF I] unfolding ages_ok_def m using r d ch dyx by auto
  qed
  ultimately show "cache_inv L (c\<lparr>objs := h\<rparr>) xs" using cache_invD(2,3,9,10) [OF I] by (simp add: cache_inv_def)
qed

end
