(* ===== verification/Tree_Props.thy ===== *)
theory Tree_Props
  imports Listtree_Tree
begin

text \<open>
  The properties of the cache and of the list tree manager together, for the callbacks that the
  programs install, with instances on a small tree: a root list (ID 1) with one item, which
  refers to a list (ID 2) with one item.
\<close>

section \<open>A sample tree\<close>

definition sample_tree :: "nat lb_state" where
  "sample_tree = \<lparr>objs = sample_heap, id_gen = mk_id_generator 1 (VALUE_MASK sample_layout),
     memory_limits = mk_cache_limits 1000 900 800, count_limits = mk_cache_limits 100 900 800,
     maximum_age_threshold = 15, all_objects = [(1, 10), (2, 20)],
     root_object = Some 10, oldest_object = Some 20, deepest_youngest_object = Some 10,
     pinned_object_id = 0, minimum_required_creation_time = 5, total_size = 30, gc_running = False,
     timeout_source_id = 0, is_enabled = True, sources = [],
     broker = USB_BROKER, checks = no_override_table,
     contents = (\<lambda>a. if a = 10 then [\<lparr>child = 2, specific_data = 0\<rparr>] else []),
     killed_register = {}, signals = [], bug_reports = 0, pending_list = None, default_cache_mode_request = REQ_AUTO\<rparr>"

definition sample_gid :: "(nat \<times> nat) list \<Rightarrow> nat" where
  "sample_gid s = Suc (length s)"

lemma sample_tree_inv: "cache_inv sample_layout sample_tree [20, 10]"
proof -
  have "cache.truncate sample_tree = cache.truncate sample_cache"
    by (simp add: sample_tree_def sample_cache_def cache.defs)
  then show ?thesis using cache_inv_truncate sample_inv by blast
qed

lemma sample_children:
  "children_in sample_tree [20, 10] 10 = {20}" "children_in sample_tree [20, 10] 20 = {}"
  by (auto simp: children_in_def sample_tree_def sample_heap_def)

lemma sample_tree_linked: "tree_linked sample_layout sample_tree [20, 10]"
  unfolding tree_linked_def using sample_children sample_valid
  by (auto simp: links_distinct_def enumerate_direct_sublists_def sample_tree_def sample_heap_def)

lemma sample_lookup: "lookup sample_tree 1 = Some 10" "lookup sample_tree 2 = Some 20"
  by (simp_all add: sample_tree_def lookup_def)

lemma sample_times: "minimum_required_creation_time sample_tree < 9" "used_before sample_tree 9" "\<not> gc_running sample_tree"
  by (simp_all add: sample_tree_def used_before_def sample_heap_def)

lemma sample_objs: "objs sample_tree = sample_heap"
  by (simp add: sample_tree_def)

lemma sample_free: "some_free sample_layout (\<lambda>i. smap_find (all_objects sample_tree) i = None) (id_gen sample_tree) CACHED 0"
proof -
  have "make_list_id sample_layout 3 CACHED 0 = 3" "3 \<le> VALUE_MASK sample_layout"
    by (simp_all add: make_list_id_def sample_layout_def NOCACHE_BIT_def VALUE_MASK_def)
  then show ?thesis unfolding some_free_def by (intro exI [of _ 3]) (simp add: sample_tree_def mk_id_generator_def)
qed

section \<open>Garbage collection\<close>



text \<open>C21: As long as the collector leaves a list that may expire later, the timer is armed again: a new
  source is attached that fires after at least half a second, and not later than the maximum age of
  a list.\<close>

theorem gc_timer_rearmed:
  assumes "\<forall>s. gid s \<noteq> 0" and "cache_inv L c xs" and "is_enabled c" and "maximum_age_threshold c * 60 < seconds_max"
    and "used_before c now"
  shows "\<exists>c' xs'. trigger_gc gid (removal_callbacks L) now c = Some c' \<and> cache_inv L c' xs' \<and>
    ((\<exists>a \<in> set xs'. \<not> pinned (objs c' a)) \<longrightarrow> timeout_source_id c' \<noteq> 0 \<and>
      (\<exists>ms. sources c' = sources c @ [(timeout_source_id c', ms)] \<and> 500 \<le> ms \<and> int ms \<le> max 1000 (maximum_age_threshold c * 60000)))"
  using tree.gc_rearms [OF assms, of L] unfolding trigger_gc_def by metis

theorem gc_timer_rearmed_witness:
  "\<exists>c' xs'. trigger_gc sample_gid (removal_callbacks sample_layout) 9 sample_tree = Some c' \<and> cache_inv sample_layout c' xs' \<and>
    ((\<exists>a \<in> set xs'. \<not> pinned (objs c' a)) \<longrightarrow> timeout_source_id c' \<noteq> 0)"
proof -
  have "\<forall>s. sample_gid s \<noteq> 0" "is_enabled sample_tree" "maximum_age_threshold sample_tree * 60 < seconds_max"
    by (simp_all add: sample_gid_def sample_tree_def seconds_max_def)
  with gc_timer_rearmed [OF _ sample_tree_inv _ _ sample_times(2), of sample_gid] show ?thesis by blast
qed

section \<open>Inserting lists\<close>

lemma allocated:
  fixes c :: "('d, 'a) lb_state_scheme" and now :: time_point
  assumes I: "cache_inv L c xs" and e: "e \<notin> set xs" and p: "\<forall>q. p = Some q \<longrightarrow> q < e"
  defines "c0 \<equiv> (allocate_list e p now c)\<lparr>pending_list := None\<rparr>"
  shows "cache_inv L c0 xs" and "objs c0 e = mk_entry p now" and "\<And>t. used_before c0 t = used_before c t"
    and "\<And>a. a \<in> set xs \<Longrightarrow> chain (objs c0) a = chain (objs c) a" and "\<And>a. a \<noteq> e \<Longrightarrow> objs c0 a = objs c a"
proof -
  let ?c = "c\<lparr>objs := (objs c)(e := mk_entry p now)\<rparr>"
  have t: "cache.truncate c0 = cache.truncate ?c" by (simp add: c0_def allocate_list_def cache.defs)
  note A = alloc_inv [where p = p and t = now, OF I e p [rule_format] refl]
  show I0: "cache_inv L c0 xs" using A(1) cache_inv_truncate [OF t] by simp
  show "objs c0 e = mk_entry p now" "\<And>a. a \<noteq> e \<Longrightarrow> objs c0 a = objs c a" by (simp_all add: c0_def allocate_list_def)
  show "\<And>a. a \<in> set xs \<Longrightarrow> chain (objs c0) a = chain (objs c) a" using A(2) by (simp add: c0_def allocate_list_def)
  show "used_before c0 t = used_before c t" for t
    using used_before_iff [OF I] used_before_iff [OF I0] e by (auto simp: c0_def allocate_list_def)
qed

text \<open>C15: A list that is created below a cached list and added to the cache gets a valid ID that was
  not in use, and the cache stays consistent. Before the collector may run, the new list stands right
  before its parent, whose path to the root has moved to the young end of the aging list, and no
  other list changes its ID or its pin. The collector runs only if a soft limit is exceeded, and never
  removes pinned lists.\<close>

theorem blessed_child_is_cached:
  fixes c :: "('d, 'a) lb_state_scheme"
  assumes "cache_inv L c xs" and "p \<in> set xs" and "e \<notin> set xs" and "p < e"
    and "minimum_required_creation_time c < now" and "used_before c now"
    and "some_free L (\<lambda>i. smap_find (all_objects c) i = None) (id_gen c) CACHED ctx" and "\<not> gc_running c"
  shows "\<exists>c1 i c' xs'. allocate_blessed_list L gid now e (Some p) ctx sz False c = Some (c', i) \<and>
    id_is_valid L i \<and> lookup c i = None \<and> lookup c1 i = Some e \<and>
    cache_inv L c1 (filter (\<lambda>a. a \<notin> set (chain (objs c) p)) xs @ e # chain (objs c) p) \<and>
    total_size c1 = total_size c + sz \<and>
    (\<forall>a. a \<noteq> e \<longrightarrow> cache_id (objs c1 a) = cache_id (objs c a) \<and> pinned (objs c1 a) = pinned (objs c a)) \<and>
    cache_inv L c' xs' \<and> evicts c1 (filter (\<lambda>a. a \<notin> set (chain (objs c) p)) xs @ e # chain (objs c) p) c' xs' \<and>
    (\<not> over_soft c1 \<longrightarrow> c' = c1)"
proof -
  define c0 where "c0 = (allocate_list e (Some p) now c)\<lparr>pending_list := None\<rparr>"
  have lt: "\<forall>q. Some p = Some q \<longrightarrow> q < e" using assms(4) by simp
  note A = allocated [where p = "Some p" and now = now, OF assms(1,3) lt, folded c0_def]
  have f: "all_objects c0 = all_objects c" "id_gen c0 = id_gen c" "gc_running c0 = gc_running c"
    "minimum_required_creation_time c0 = minimum_required_creation_time c" "total_size c0 = total_size c"
    by (simp_all add: c0_def allocate_list_def)
  have two: "count_objects c1 \<noteq> 1" if "cache_inv L c1 (filter (\<lambda>a. a \<notin> set (chain (objs c) p)) xs @ e # chain (objs c) p)" for c1 :: "('d, 'a) lb_state_scheme"
    using count_members [OF that] by (subst (asm) chain_Cons) simp
  obtain c1 i c' xs' where R: "insert_entry L (tree_callbacks L gid now) now e CACHED ctx sz c0 = Some (c', i)"
    "id_is_valid L i" "lookup c0 i = None" "lookup c1 i = Some e"
    "cache_inv L c1 (filter (\<lambda>a. a \<notin> set (chain (objs c) p)) xs @ e # chain (objs c) p)"
    "cache_inv L c' xs'" "evicts c1 (filter (\<lambda>a. a \<notin> set (chain (objs c) p)) xs @ e # chain (objs c) p) c' xs'"
    "count_objects c1 \<noteq> 1 \<Longrightarrow> \<not> over_soft c1 \<Longrightarrow> c' = c1" "total_size c1 = total_size c0 + sz"
    "\<And>a. a \<noteq> e \<Longrightarrow> cache_id (objs c1 a) = cache_id (objs c0 a) \<and> pinned (objs c1 a) = pinned (objs c0 a)"
    by (rule tree.broker.insert_child_spec [OF A(1) assms(2,3) A(2), unfolded f A(3) A(4) [OF assms(2)], OF assms(5,6) order_refl assms(7,8)])
      (rule that; (assumption | simp only: f))
  have "allocate_blessed_list L gid now e (Some p) ctx sz False c = Some (c', i)"
    using R(1) by (simp add: allocate_blessed_list_def bless_def c0_def)
  then show ?thesis using R two f(1,5) A(5) by (intro exI [of _ c1] exI [of _ i] exI [of _ c'] exI [of _ xs']) (simp add: lookup_def)
qed

theorem blessed_child_is_cached_witness:
  "\<exists>c' i xs'. allocate_blessed_list sample_layout sample_gid 9 30 (Some 20) 0 50 False sample_tree = Some (c', i) \<and>
     id_is_valid sample_layout i \<and> lookup sample_tree i = None \<and> cache_inv sample_layout c' xs'"
proof -
  have "20 \<in> set [20, 10 :: addr]" "30 \<notin> set [20, 10 :: addr]" "20 < (30 :: addr)" by simp_all
  from blessed_child_is_cached [OF sample_tree_inv this sample_times(1,2) sample_free sample_times(3), of sample_gid 50]
  show ?thesis by blast
qed

text \<open>The first list that is added to an empty cache becomes its root, with a valid ID.\<close>

theorem blessed_root_is_cached:
  fixes c :: "('d, 'a) lb_state_scheme"
  assumes "cache_inv L c []" and "minimum_required_creation_time c \<le> now"
    and "some_free L (\<lambda>i. smap_find (all_objects c) i = None) (id_gen c) CACHED ctx" and "\<not> gc_running c"
  shows "\<exists>c1 i c' xs'. allocate_blessed_list L gid now e None ctx sz False c = Some (c', i) \<and>
    id_is_valid L i \<and> lookup c1 i = Some e \<and> cache_inv L c1 [e] \<and> cache_inv L c' xs' \<and> evicts c1 [e] c' xs'"
proof -
  define c0 where "c0 = (allocate_list e None now c)\<lparr>pending_list := None\<rparr>"
  have e: "e \<notin> set []" and lt: "\<forall>q. None = Some q \<longrightarrow> q < e" by simp_all
  note A = allocated [where p = None and now = now, OF assms(1) e lt, folded c0_def]
  have f: "all_objects c0 = all_objects c" "id_gen c0 = id_gen c" "gc_running c0 = gc_running c"
    "minimum_required_creation_time c0 = minimum_required_creation_time c"
    by (simp_all add: c0_def allocate_list_def)
  obtain c1 i c' xs' where R: "insert_entry L (tree_callbacks L gid now) now e CACHED ctx sz c0 = Some (c', i)"
    "id_is_valid L i" "lookup c1 i = Some e" "cache_inv L c1 [e]" "cache_inv L c' xs'" "evicts c1 [e] c' xs'"
    by (rule tree.broker.insert_root_spec [OF A(1,2), unfolded f, OF assms(2-4)]) (rule that; assumption)
  have "allocate_blessed_list L gid now e None ctx sz False c = Some (c', i)"
    using R(1) by (simp add: allocate_blessed_list_def bless_def c0_def)
  then show ?thesis using R by blast
qed

definition sample_empty :: "nat lb_state" where
  "sample_empty = \<lparr>objs = (\<lambda>_. mk_entry None 0), id_gen = mk_id_generator 1 (VALUE_MASK sample_layout),
     memory_limits = mk_cache_limits 1000 900 800, count_limits = mk_cache_limits 100 900 800,
     maximum_age_threshold = 15, all_objects = [],
     root_object = None, oldest_object = None, deepest_youngest_object = None,
     pinned_object_id = 0, minimum_required_creation_time = 5, total_size = 0, gc_running = False,
     timeout_source_id = 0, is_enabled = False, sources = [],
     broker = USB_BROKER, checks = no_override_table, contents = (\<lambda>_. []),
     killed_register = {}, signals = [], bug_reports = 0, pending_list = None, default_cache_mode_request = REQ_AUTO\<rparr>"

lemma sample_empty_inv: "cache_inv sample_layout sample_empty []"
proof -
  have "cache.truncate sample_empty =
      cache.truncate (mk_cache sample_layout 5 1000 100 15 900 800 900 800 (\<lambda>_. mk_entry None 0))"
    by (simp add: sample_empty_def mk_cache_def cache.defs)
  moreover have "cache_inv sample_layout (mk_cache sample_layout 5 1000 100 15 900 800 900 800 (\<lambda>_. mk_entry None 0)) []"
    by (rule cache_inv_mk_cache [OF sample_layout_ok]) (simp add: parents_older_def mk_entry_def)
  ultimately show ?thesis using cache_inv_truncate by blast
qed

theorem blessed_root_is_cached_witness:
  "\<exists>c' i xs'. allocate_blessed_list sample_layout sample_gid 9 10 None 0 0 False sample_empty = Some (c', i) \<and>
     id_is_valid sample_layout i \<and> cache_inv sample_layout c' xs'"
proof -
  have "minimum_required_creation_time sample_empty \<le> 9" "\<not> gc_running sample_empty" by (simp_all add: sample_empty_def)
  moreover have "some_free sample_layout (\<lambda>i. smap_find (all_objects sample_empty) i = None) (id_gen sample_empty) CACHED 0"
    unfolding some_free_def by (intro exI [of _ 1]) (simp add: sample_empty_def mk_id_generator_def one_le_VALUE_MASK [OF sample_layout_ok])
  ultimately show ?thesis using blessed_root_is_cached [OF sample_empty_inv, of 9 0 sample_gid 10 0] by blast
qed

section \<open>Pinning and resizing\<close>

text \<open>C12: Pinning a cached list pins it and the lists above it, and no others; the list stays in the
  cache while the collector may remove lists that were pinned before. Pinning an unknown or the
  invalid ID leaves nothing pinned. The result tells whether a list is pinned.\<close>

theorem pin_pins_path:
  fixes c :: "('d, 'a) lb_state_scheme"
  assumes "cache_inv L c xs" and "\<not> gc_running c"
  shows "\<exists>c' xs'. pin L (tree_callbacks L gid now) now i c = Some (c', id_is_valid L i \<and> lookup c i \<noteq> None) \<and>
    cache_inv L c' xs' \<and> set xs' \<subseteq> set xs \<and>
    (\<forall>e. id_is_valid L i \<and> lookup c i = Some e \<longrightarrow>
       lookup c' i = Some e \<and> {a \<in> set xs'. pinned (objs c' a)} = set (chain (objs c') e)) \<and>
    (\<not> (id_is_valid L i \<and> lookup c i \<noteq> None) \<longrightarrow> (\<forall>a \<in> set xs'. \<not> pinned (objs c' a)))"
proof -
  obtain c' xs' where R: "pin L (tree_callbacks L gid now) now i c = Some (c', id_is_valid L i \<and> lookup c i \<noteq> None)"
    "cache_inv L c' xs'" "set xs' \<subseteq> set xs"
    "\<And>e. id_is_valid L i \<Longrightarrow> lookup c i = Some e \<Longrightarrow>
       lookup c' i = Some e \<and> {a \<in> set xs'. pinned (objs c' a)} = set (chain (objs c') e)"
    "\<not> (id_is_valid L i \<and> lookup c i \<noteq> None) \<Longrightarrow> \<forall>a \<in> set xs'. \<not> pinned (objs c' a)"
    by (rule tree.broker.pin_spec [OF assms]) (rule that; assumption)
  show ?thesis
    by (intro exI [of _ c'] exI [of _ xs'] conjI allI impI R(1-3)) (use R(4,5) in auto)
qed

theorem pin_pins_path_witness:
  "\<exists>c' xs'. pin sample_layout (tree_callbacks sample_layout sample_gid 9) 9 2 sample_tree = Some (c', True) \<and>
     cache_inv sample_layout c' xs' \<and> lookup c' 2 = Some 20"
  using pin_pins_path [OF sample_tree_inv sample_times(3), of sample_gid 9 2] sample_lookup(2) sample_valid(2) by auto

text \<open>Changing the size of a cached list adjusts the total size by the difference, marks the list as
  used now, and keeps the cache consistent; the collector runs only if the list has grown and the
  soft memory limit is exceeded.\<close>

theorem resize_accounts:
  fixes c :: "('d, 'a) lb_state_scheme"
  assumes "cache_inv L c xs" and "lookup c i = Some a" and "minimum_required_creation_time c < now" and "used_before c now"
    and "\<not> gc_running c"
  shows "\<exists>c2 c' xs'. set_object_size (tree_callbacks L gid now) now i sz c = Some (c', True) \<and>
    cache_inv L c2 (moved_to_end (objs c) a xs) \<and> object_size (objs c2 a) = sz \<and>
    total_size c2 + object_size (objs c a) = total_size c + sz \<and> last_used (objs c2 a) = now \<and>
    cache_inv L c' xs' \<and> evicts c2 (moved_to_end (objs c) a xs) c' xs' \<and>
    (sz \<le> object_size (objs c a) \<or> \<not> exceeds_soft (memory_limits c) (total_size c2) \<longrightarrow> c' = c2)"
proof -
  obtain c2 c' xs' where R: "set_object_size (tree_callbacks L gid now) now i sz c = Some (c', True)"
    "cache_inv L c2 (moved_to_end (objs c) a xs)" "cache_inv L c' xs'"
    "evicts c2 (moved_to_end (objs c) a xs) c' xs'"
    "sz \<le> object_size (objs c a) \<or> \<not> exceeds_soft (memory_limits c) (total_size c2) \<Longrightarrow> c' = c2"
    "object_size (objs c2 a) = sz" "total_size c2 + object_size (objs c a) = total_size c + sz"
    "last_used (objs c2 a) = now"
    by (rule tree.broker.set_object_size_spec [OF assms]) (rule that; assumption)
  then show ?thesis by (intro exI [of _ c2] exI [of _ c'] exI [of _ xs'] conjI impI)
qed

theorem resize_accounts_witness:
  "\<exists>c' xs'. set_object_size (tree_callbacks sample_layout sample_gid 9) 9 2 50 sample_tree = Some (c', True) \<and>
     cache_inv sample_layout c' xs'"
  using resize_accounts [OF sample_tree_inv sample_lookup(2) sample_times, of sample_gid 50] by blast

section \<open>Purging\<close>

text \<open>C8: Purging the subtree of a list below the root, none of whose lists is pinned, always ends. It
  removes exactly this list and the lists below it, clears the item that referred to it, announces
  each removed list once, and leaves cache and lists consistent.\<close>

theorem purge_subtree_removes:
  fixes c :: "('d, 'a) lb_state_scheme"
  assumes "cache_inv L c xs" and "tree_linked L c xs" and "lookup c i = Some e"
    and "parent (objs c e) \<noteq> None" and "\<forall>b \<in> below c xs e. \<not> pinned (objs c b)"
  shows "\<exists>c'. purge_subtree L gid now i invalid_id None c = Some (c', PURGED) \<and>
    cache_inv L c' (filter (\<lambda>a. a \<notin> below c xs e) xs) \<and> tree_linked L c' (filter (\<lambda>a. a \<notin> below c xs e) xs) \<and>
    announced c xs c' (filter (\<lambda>a. a \<notin> below c xs e) xs) \<and> bug_reports c' = bug_reports c"
  using purge_subtree_below [OF assms, of gid now] by (auto simp: tree_kept_def)

theorem purge_subtree_removes_witness:
  "\<exists>c'. purge_subtree sample_layout sample_gid 9 2 invalid_id None sample_tree = Some (c', PURGED) \<and>
     cache_inv sample_layout c' [10] \<and> signals c' = [(2, invalid_id)]"
proof -
  have b: "below sample_tree [20, 10] 20 = {20}" by (auto simp: below_def sample_objs sample_chain)
  have np: "parent (objs sample_tree 20) \<noteq> None" "\<forall>b \<in> below sample_tree [20, 10] 20. \<not> pinned (objs sample_tree b)"
    by (simp_all add: b) (simp_all add: sample_objs sample_heap_def)
  obtain c' where c': "purge_subtree sample_layout sample_gid 9 2 invalid_id None sample_tree = Some (c', PURGED)"
    "cache_inv sample_layout c' [10]" "announced sample_tree [20, 10] c' [10]"
    using purge_subtree_removes [OF sample_tree_inv sample_tree_linked sample_lookup(2) np, of sample_gid 9] by (auto simp: b)
  obtain rs where rs: "distinct rs" "set rs = {20, 10} - {10}" "signals c' = map (\<lambda>a. (cache_id (objs sample_tree a), invalid_id)) rs"
    using c'(3) by (auto simp: announced_def sample_tree_def)
  have "{20, 10} - {10} = {20 :: addr}" by auto
  then have S: "set rs = {20}" using rs(2) by (simp only:)
  then have "length rs = 1" using distinct_card [OF rs(1)] by simp
  then obtain x where "rs = [x]" by (auto simp: length_Suc_conv)
  with S have "rs = [20]" by simp
  then show ?thesis using c' rs(3) by (simp add: sample_objs sample_heap_def)
qed

end
