(* ===== verification/Tree_Reach.thy ===== *)
theory Tree_Reach
  imports Tree_Props
begin

text \<open>
  All sequences of operations on the cached lists: a step relation over the operations of the list
  tree manager, of the cache and of its timer, with a clock that advances between operations. In
  every reachable state the cache is consistent and the next operation returns.
\<close>

section \<open>One operation\<close>

definition cache_ok :: "ctx_layout \<Rightarrow> 'a cache_scheme \<Rightarrow> time_point \<Rightarrow> bool" where
  "cache_ok L c t \<longleftrightarrow> (\<exists>xs. cache_inv L c xs) \<and> used_before c t \<and> minimum_required_creation_time c \<le> t \<and> \<not> gc_running c"

lemma cache_okE:
  assumes "cache_ok L c t" and "t < now"
  obtains xs where "cache_inv L c xs" and "used_before c now" and "minimum_required_creation_time c < now" and "\<not> gc_running c"
  using assms that by (fastforce simp: cache_ok_def used_before_def)

lemma cache_ok_later: "cache_ok L c t \<Longrightarrow> t \<le> now \<Longrightarrow> cache_ok L c now"
  by (fastforce simp: cache_ok_def used_before_def)

lemma cache_ok_truncate: "cache.truncate c = cache.truncate c' \<Longrightarrow> cache_ok L c t = cache_ok L c' t"
  unfolding cache_ok_def used_before_def using cache_inv_truncate [of c c' L] truncate_eqD [of c c'] by presburger

lemma evicts_ok:
  assumes "cache_inv L c xs" and "cache_inv L c' xs'" and "evicts c xs c' xs'"
    and "used_before c t" and "minimum_required_creation_time c \<le> t" and "\<not> gc_running c"
  shows "cache_ok L c' t"
proof -
  have F: "gc_frame c c'" "set xs' \<subseteq> set xs" using assms(3) by (simp_all add: evicts_def)
  have "used_before c' t"
    using assms(4) F(2) gc_frameD(5) [OF F(1)] unfolding used_before_iff [OF assms(1)] used_before_iff [OF assms(2)] by auto
  then show ?thesis using assms gc_frameD(10,12) [OF F(1)] by (auto simp: cache_ok_def)
qed

lemma use_id_ok:
  fixes c :: "'a cache_scheme"
  assumes ok: "cache_ok L c t" and "t < now"
  shows "cache_ok L (fst (use_id now i c)) now"
    and "snd (use_id now i c) = USED_ENTRY_INVALID_ID \<longleftrightarrow> lookup c i = None"
    and "lookup (fst (use_id now i c)) j = lookup c j"
proof -
  obtain xs where I: "cache_inv L c xs" "used_before c now" "minimum_required_creation_time c < now" "\<not> gc_running c"
    by (rule cache_okE [OF assms])
  have "cache_ok L (fst (use_id now i c)) now \<and> (snd (use_id now i c) = USED_ENTRY_INVALID_ID \<longleftrightarrow> lookup c i = None) \<and>
    lookup (fst (use_id now i c)) j = lookup c j"
  proof (cases "lookup c i")
    case None
    then show ?thesis using cache_ok_later [OF ok] assms(2) by (simp add: use_id_def)
  next
    case (Some e)
    have e: "e \<in> set xs" using lookup_member [OF I(1) Some] by simp
    obtain h' where U: "use_entry now e c =
        (c\<lparr>objs := h', oldest_object := hd_opt (moved_to_end (objs c) e xs), deepest_youngest_object := Some e\<rparr>,
         int (length (chain (objs c) e)) - 1)"
      and N: "\<And>a. nolinks (h' a) = nolinks (touched (objs c) e now a)"
      and I': "cache_inv L (fst (use_entry now e c)) (moved_to_end (objs c) e xs)"
      using use_entry_inv [OF I(1) e I(3,2)] by metis
    have "last_used (h' a) \<le> now" if "a \<in> set xs" for a
      using touched_fields(6) [of h' _ "objs c" e now, OF N] that I(2) used_before_iff [OF I(1)] by auto
    then have "used_before (fst (use_entry now e c)) now"
      using used_before_iff [OF I'] set_moved_to_end [OF chain_members [OF I(1) e]] by (simp add: U)
    moreover have "int (length (chain (objs c) e)) - 1 \<noteq> USED_ENTRY_INVALID_ID"
      by (subst chain_Cons) (simp add: USED_ENTRY_INVALID_ID_def)
    ultimately show ?thesis
      using Some I' I(3,4) by (auto simp: use_id_def cache_ok_def U lookup_def)
  qed
  then show "cache_ok L (fst (use_id now i c)) now" "snd (use_id now i c) = USED_ENTRY_INVALID_ID \<longleftrightarrow> lookup c i = None"
    "lookup (fst (use_id now i c)) j = lookup c j" by blast+
qed

lemma pin_ok:
  fixes c :: "('d, 'a) lb_state_scheme"
  assumes "cache_ok L c now"
  shows "\<exists>c'. pin L (tree_callbacks L gid now) now i c = Some (c', id_is_valid L i \<and> lookup c i \<noteq> None) \<and> cache_ok L c' now"
proof -
  obtain xs where I: "cache_inv L c xs" "used_before c now" "minimum_required_creation_time c \<le> now" "\<not> gc_running c"
    using assms by (auto simp: cache_ok_def)
  obtain c' xs' where R: "pin L (tree_callbacks L gid now) now i c = Some (c', id_is_valid L i \<and> lookup c i \<noteq> None)"
    "cache_inv L c' xs'" "set xs' \<subseteq> set xs" "\<not> gc_running c'" "\<And>a. last_used (objs c' a) = last_used (objs c a)"
    "minimum_required_creation_time c' = minimum_required_creation_time c"
    by (rule tree.broker.pin_spec [OF I(1,4)]) (rule that; assumption)
  have "used_before c' now" using I(2) R(3,5) unfolding used_before_iff [OF I(1)] used_before_iff [OF R(2)] by auto
  then show ?thesis using R I(3) by (auto simp: cache_ok_def)
qed

lemma use_list_ok:
  fixes c :: "('d, 'a) lb_state_scheme"
  assumes "cache_ok L c t" and "t < now"
  shows "\<exists>c'. use_list L gid now i pin_it c = Some (c', id_is_valid L i \<and> lookup c i \<noteq> None) \<and> cache_ok L c' now"
proof -
  note U = use_id_ok [OF assms, of i]
  obtain c2 where P: "pin L (tree_callbacks L gid now) now i (fst (use_id now i c)) =
      Some (c2, id_is_valid L i \<and> lookup c i \<noteq> None)" "cache_ok L c2 now"
    using pin_ok [OF U(1), of gid i] U(3) by auto
  show ?thesis
    using cache_ok_later [OF assms(1) less_imp_le [OF assms(2)]] U P
    by (auto simp: use_list_def case_prod_beta Let_def)
qed

lemma resize_ok:
  fixes c :: "('d, 'a) lb_state_scheme"
  assumes ok: "cache_ok L c t" and "t < now"
  shows "\<exists>c'. set_object_size (tree_callbacks L gid now) now i sz c = Some (c', lookup c i \<noteq> None) \<and> cache_ok L c' now"
proof (cases "lookup c i")
  case None
  then show ?thesis using cache_ok_later [OF ok] assms(2) by (simp add: set_object_size_unknown)
next
  case (Some a)
  obtain xs where I: "cache_inv L c xs" "used_before c now" "minimum_required_creation_time c < now" "\<not> gc_running c"
    by (rule cache_okE [OF assms])
  obtain c2 c' xs' where R: "set_object_size (tree_callbacks L gid now) now i sz c = Some (c', True)"
    "cache_inv L c2 (moved_to_end (objs c) a xs)" "cache_inv L c' xs'"
    "evicts c2 (moved_to_end (objs c) a xs) c' xs'" "used_before c2 now"
    "minimum_required_creation_time c2 = minimum_required_creation_time c" "\<not> gc_running c2"
    by (rule tree.broker.set_object_size_spec [OF I(1) Some I(3,2,4)]) (rule that; assumption)
  show ?thesis using R(1) Some evicts_ok [OF R(2-5) _ R(7)] R(6) I(3) by auto
qed

lemma gc_ok:
  fixes c :: "('d, 'a) lb_state_scheme"
  assumes "cache_ok L c now"
  shows "\<exists>c'. trigger_gc gid (removal_callbacks L) now c = Some c' \<and> cache_ok L c' now"
proof -
  obtain xs where I: "cache_inv L c xs" "used_before c now" "minimum_required_creation_time c \<le> now" "\<not> gc_running c"
    using assms by (auto simp: cache_ok_def)
  show ?thesis
    using tree.gc_control_evicts [OF I(1,4), where gid = gid and now = now] evicts_ok [OF I(1) _ _ I(2-4)] unfolding trigger_gc_def by blast
qed

lemma timer_ok:
  fixes c :: "('d, 'a) lb_state_scheme"
  assumes "cache_ok L c now"
  shows "\<exists>c'. timer_fired gid (removal_callbacks L) now sid c = Some c' \<and> cache_ok L c' now"
proof -
  obtain c' where c': "trigger_gc gid (removal_callbacks L) now c = Some c'" "cache_ok L c' now" using gc_ok [OF assms] by blast
  have "cache_ok L (c'\<lparr>sources := s\<rparr>) now" for s
    using c'(2) cache_ok_truncate [of "c'\<lparr>sources := s\<rparr>" c'] by (simp add: cache.defs)
  then show ?thesis using c'(1) by (simp add: timer_fired_def)
qed

lemma add_child_ok:
  fixes c :: "('d, 'a) lb_state_scheme"
  assumes ok: "cache_ok L c t" and "t < now" and p: "lookup c j = Some p" and e: "e \<notin> snd ` set (all_objects c)" and "p < e"
    and free: "some_free L (\<lambda>i. smap_find (all_objects c) i = None) (id_gen c) CACHED ctx"
  shows "\<exists>c' i. allocate_blessed_list L gid now e (Some p) ctx sz pin_it c = Some (c', i) \<and> id_is_valid L i \<and> cache_ok L c' now"
proof -
  obtain xs where I: "cache_inv L c xs" "used_before c now" "minimum_required_creation_time c < now" "\<not> gc_running c"
    by (rule cache_okE [OF assms(1,2)])
  have m: "p \<in> set xs" "e \<notin> set xs" using lookup_member [OF I(1) p] e cache_invD(5) [OF I(1)] by (auto simp: ids_ok_def)
  define c0 where "c0 = (allocate_list e (Some p) now c)\<lparr>pending_list := None\<rparr>"
  have lt: "\<forall>q. Some p = Some q \<longrightarrow> q < e" using assms(5) by simp
  note A = allocated [where p = "Some p" and now = now, OF I(1) m(2) lt, folded c0_def]
  have f: "all_objects c0 = all_objects c" "id_gen c0 = id_gen c" "gc_running c0 = gc_running c"
    "minimum_required_creation_time c0 = minimum_required_creation_time c"
    by (simp_all add: c0_def allocate_list_def)
  obtain c1 i c' ys xs' where R: "insert_entry L (tree_callbacks L gid now) now e CACHED ctx sz c0 = Some (c', i)"
    "id_is_valid L i" "cache_inv L c1 ys" "cache_inv L c' xs'" "evicts c1 ys c' xs'"
    "used_before c1 now" "minimum_required_creation_time c1 = now" "\<not> gc_running c1"
    by (rule tree.broker.insert_child_spec [OF A(1) m A(2), unfolded f A(3), OF I(3,2) order_refl free I(4)])
      (rule that; assumption)
  have ok': "cache_ok L c' now" using evicts_ok [OF R(3-6) _ R(8)] R(7) by simp
  then obtain c2 where "pin L (tree_callbacks L gid now) now i c' = Some (c2, id_is_valid L i \<and> lookup c' i \<noteq> None)" "cache_ok L c2 now"
    using pin_ok by blast
  then show ?thesis
    using R(1,2) ok' by (cases pin_it) (simp_all add: allocate_blessed_list_def bless_def c0_def)
qed

lemma add_root_ok:
  fixes c :: "('d, 'a) lb_state_scheme"
  assumes ok: "cache_ok L c t" and "t < now" and none: "all_objects c = []"
    and free: "some_free L (\<lambda>i. smap_find (all_objects c) i = None) (id_gen c) CACHED ctx"
  shows "\<exists>c' i. allocate_blessed_list L gid now e None ctx sz pin_it c = Some (c', i) \<and> id_is_valid L i \<and> cache_ok L c' now"
proof -
  obtain xs where I': "cache_inv L c xs" "used_before c now" "minimum_required_creation_time c < now" "\<not> gc_running c"
    by (rule cache_okE [OF assms(1,2)])
  have "xs = []" using cache_invD(5) [OF I'(1)] none by (simp add: ids_ok_def)
  then have I: "cache_inv L c []" using I'(1) by simp
  define c0 where "c0 = (allocate_list e None now c)\<lparr>pending_list := None\<rparr>"
  have e: "e \<notin> set []" and lt: "\<forall>q. None = Some q \<longrightarrow> q < e" by simp_all
  note A = allocated [where p = None and now = now, OF I e lt, folded c0_def]
  have f: "all_objects c0 = all_objects c" "id_gen c0 = id_gen c" "gc_running c0 = gc_running c"
    "minimum_required_creation_time c0 = minimum_required_creation_time c"
    by (simp_all add: c0_def allocate_list_def)
  obtain c1 i c' xs' where R: "insert_entry L (tree_callbacks L gid now) now e CACHED ctx sz c0 = Some (c', i)"
    "id_is_valid L i" "cache_inv L c1 [e]" "cache_inv L c' xs'" "evicts c1 [e] c' xs'"
    "last_used (objs c1 e) = now" "minimum_required_creation_time c1 = now" "\<not> gc_running c1"
    by (rule tree.broker.insert_root_spec [OF A(1,2), unfolded f, OF less_imp_le [OF I'(3)] free I'(4)]) (rule that; assumption)
  have "used_before c1 now" using used_before_iff [OF R(3)] R(6) by simp
  then have ok': "cache_ok L c' now" using evicts_ok [OF R(3-5) _ _ R(8)] R(7) by simp
  then obtain c2 where "pin L (tree_callbacks L gid now) now i c' = Some (c2, id_is_valid L i \<and> lookup c' i \<noteq> None)" "cache_ok L c2 now"
    using pin_ok by blast
  then show ?thesis
    using R(1,2) ok' by (cases pin_it) (simp_all add: allocate_blessed_list_def bless_def c0_def)
qed

lemma reinsert_ok:
  fixes c :: "('d, 'a) lb_state_scheme"
  assumes ok: "cache_ok L c t" and e: "lookup c i = Some e"
    and free: "some_free L (\<lambda>j. smap_find (smap_erase i (all_objects c)) j = None) (id_gen c) (get_cache_mode L i) (get_context L i)"
  shows "\<exists>c' j. reinsert_list L i c = Some (c', j) \<and> id_is_valid L j \<and> lookup c' j = Some e \<and>
    signals c' = signals c @ [(i, j)] \<and> cache_ok L c' t"
proof -
  obtain xs where I: "cache_inv L c xs" "used_before c t" "minimum_required_creation_time c \<le> t" "\<not> gc_running c"
    using ok by (auto simp: cache_ok_def)
  have m: "e \<in> set xs" "cache_id (objs c e) = i" using lookup_member [OF I(1) e] by simp_all
  obtain c1 j where R: "insert_again L (Some e) c = Some (c1, j)" "cache_inv L c1 xs" "id_is_valid L j" "lookup c1 j = Some e"
    using insert_again_spec [OF I(1) m(1), unfolded m(2), OF free] by metis
  have f: "minimum_required_creation_time c1 = minimum_required_creation_time c" "gc_running c1 = gc_running c"
    "\<And>a. last_used (objs c1 a) = last_used (objs c a)" "signals c1 = signals c"
    using R(1) by (auto simp: insert_again_def Let_def set_id_def split: if_splits Option.bind_splits)
  have ok1: "cache_ok L c1 t"
    using I R(2) f(1-3) used_before_iff [OF I(1)] used_before_iff [OF R(2)] by (auto simp: cache_ok_def)
  let ?c = "emit_list_invalidate i j (check_list_invalidate L i j c1)"
  have t: "cache.truncate ?c = cache.truncate c1"
    by (simp add: emit_list_invalidate_def check_list_invalidate_def split: broker_kind.splits)
  have "cache_ok L ?c t" using ok1 cache_ok_truncate [OF t] by blast
  moreover have "lookup ?c j = Some e" using R(4) truncate_eqD(6) [OF t] by (simp add: lookup_def)
  moreover have "signals ?c = signals c @ [(i, j)]"
    using f(4) by (simp add: emit_list_invalidate_def check_list_invalidate_def split: broker_kind.splits)
  moreover have "reinsert_list L i c = Some (?c, j)" using e R(1) m(2) by (simp add: reinsert_list_def)
  ultimately show ?thesis using R(3) by blast
qed

section \<open>All sequences of operations\<close>

definition start_state :: "ctx_layout \<Rightarrow> ('d, 'a) lb_state_scheme \<Rightarrow> time_point \<Rightarrow> bool" where
  "start_state L c t \<longleftrightarrow> ctx_layout_ok L \<and>
     (\<exists>mh ch age mhi mlo chi clo h. parents_older h \<and> cache.truncate c = mk_cache L t mh ch age mhi mlo chi clo h)"

inductive reach :: "ctx_layout \<Rightarrow> ((nat \<times> nat) list \<Rightarrow> nat) \<Rightarrow> ('d, 'a) lb_state_scheme \<Rightarrow> time_point \<Rightarrow> bool" for L gid where
  start: "start_state L c t \<Longrightarrow> reach L gid c t"
| use: "reach L gid c t \<Longrightarrow> t < now \<Longrightarrow> use_list L gid now i pin_it c = Some (c', b) \<Longrightarrow> reach L gid c' now"
| add_root: "reach L gid c t \<Longrightarrow> t < now \<Longrightarrow> all_objects c = [] \<Longrightarrow>
    some_free L (\<lambda>i. smap_find (all_objects c) i = None) (id_gen c) CACHED ctx \<Longrightarrow>
    allocate_blessed_list L gid now e None ctx sz pin_it c = Some (c', i) \<Longrightarrow> reach L gid c' now"
| add_child: "reach L gid c t \<Longrightarrow> t < now \<Longrightarrow> lookup c j = Some p \<Longrightarrow> e \<notin> snd ` set (all_objects c) \<Longrightarrow> p < e \<Longrightarrow>
    some_free L (\<lambda>i. smap_find (all_objects c) i = None) (id_gen c) CACHED ctx \<Longrightarrow>
    allocate_blessed_list L gid now e (Some p) ctx sz pin_it c = Some (c', i) \<Longrightarrow> reach L gid c' now"
| resize: "reach L gid c t \<Longrightarrow> t < now \<Longrightarrow> set_object_size (tree_callbacks L gid now) now i sz c = Some (c', b) \<Longrightarrow> reach L gid c' now"
| repin: "reach L gid c t \<Longrightarrow> t < now \<Longrightarrow> pin L (tree_callbacks L gid now) now i c = Some (c', b) \<Longrightarrow> reach L gid c' now"
| rekey: "reach L gid c t \<Longrightarrow> lookup c i = Some e \<Longrightarrow>
    some_free L (\<lambda>j. smap_find (smap_erase i (all_objects c)) j = None) (id_gen c) (get_cache_mode L i) (get_context L i) \<Longrightarrow>
    reinsert_list L i c = Some (c', j) \<Longrightarrow> reach L gid c' t"
| timer: "reach L gid c t \<Longrightarrow> t < now \<Longrightarrow> timer_fired gid (removal_callbacks L) now sid c = Some c' \<Longrightarrow> reach L gid c' now"
| force: "reach L gid c t \<Longrightarrow> force_list_into_cache L tid us i on c = (c', s) \<Longrightarrow> reach L gid c' t"

lemma start_ok: "start_state L c t \<Longrightarrow> cache_ok L c t"
proof -
  assume "start_state L c t"
  then obtain mh ch age mhi mlo chi clo h where *: "ctx_layout_ok L" "parents_older h"
    "cache.truncate c = mk_cache L t mh ch age mhi mlo chi clo h" by (auto simp: start_state_def)
  then have t: "cache.truncate c = cache.truncate (mk_cache L t mh ch age mhi mlo chi clo h)" by (simp add: mk_cache_def cache.defs)
  have "cache_ok L (mk_cache L t mh ch age mhi mlo chi clo h) t"
    unfolding cache_ok_def using cache_inv_mk_cache [OF *(1,2), of t mh ch age mhi mlo chi clo]
    by (intro conjI exI [of _ "[]"]) (simp_all add: used_before_def mk_cache_def)
  then show ?thesis using cache_ok_truncate [OF t] by blast
qed

lemma force_ok: "force_list_into_cache L tid us i on c = (c', s) \<Longrightarrow> cache_ok L c t \<Longrightarrow> cache_ok L c' t"
proof -
  assume f: "force_list_into_cache L tid us i on c = (c', s)" and ok: "cache_ok L c t"
  have "cache.truncate c' = cache.truncate c"
    using f by (auto simp: force_list_into_cache_def check_put_override_def check_remove_override_def Let_def
        split: if_splits broker_kind.splits prod.splits)
  with ok show ?thesis using cache_ok_truncate by blast
qed

lemma reach_ok: "reach L gid c t \<Longrightarrow> cache_ok L c t"
proof (induction rule: reach.induct)
  case (use c t now i pin_it c' b)
  then show ?case using use_list_ok [OF use.IH use.hyps(2), of gid i pin_it] by auto
next
  case (add_root c t now ctx e sz pin_it c' i)
  then show ?case using add_root_ok [OF add_root.IH add_root.hyps(2-4), of gid e sz pin_it] by auto
next
  case (add_child c t now j p e ctx sz pin_it c' i)
  then show ?case using add_child_ok [OF add_child.IH add_child.hyps(2-6), of gid sz pin_it] by auto
next
  case (resize c t now i sz c' b)
  then show ?case using resize_ok [OF resize.IH resize.hyps(2), of gid i sz] by auto
next
  case (repin c t now i c' b)
  then show ?case using pin_ok [OF cache_ok_later [OF repin.IH less_imp_le [OF repin.hyps(2)]], of gid i] by auto
next
  case (rekey c t i e c' j)
  then show ?case using reinsert_ok [OF rekey.IH rekey.hyps(2,3)] by auto
next
  case (timer c t now sid c')
  then show ?case using timer_ok [OF cache_ok_later [OF timer.IH less_imp_le [OF timer.hyps(2)]], of gid sid] by auto
qed (auto intro: start_ok force_ok)

section \<open>What holds in all reachable states\<close>


lemma sample_reach: "reach sample_layout sample_gid sample_empty 5"
proof (rule reach.start)
  have "cache.truncate sample_empty = mk_cache sample_layout 5 1000 100 15 900 800 900 800 (\<lambda>_. mk_entry None 0)"
    by (simp add: sample_empty_def mk_cache_def cache.defs)
  moreover have "parents_older (\<lambda>_. mk_entry None 0)" by (simp add: parents_older_def mk_entry_def)
  ultimately show "start_state sample_layout sample_empty 5" unfolding start_state_def using sample_layout_ok by blast
qed




text \<open>C22: Giving a cached list a new ID returns a valid ID under which the list is found, emits one
  signal that tells the old and the new ID, and leaves the cache consistent.\<close>

theorem reinsert_list_announces:
  fixes c :: "('d, 'a) lb_state_scheme"
  assumes "cache_ok L c t" and "lookup c i = Some e"
    and "some_free L (\<lambda>j. smap_find (smap_erase i (all_objects c)) j = None) (id_gen c) (get_cache_mode L i) (get_context L i)"
  shows "\<exists>c' j. reinsert_list L i c = Some (c', j) \<and> id_is_valid L j \<and> lookup c' j = Some e \<and>
    signals c' = signals c @ [(i, j)] \<and> cache_ok L c' t"
  using reinsert_ok [OF assms] .

theorem reinsert_list_announces_witness:
  "\<exists>c' j. reinsert_list sample_layout 2 sample_tree = Some (c', j) \<and> lookup c' j = Some 20 \<and> signals c' = [(2, j)]"
proof -
  have ok: "cache_ok sample_layout sample_tree 9"
    using sample_tree_inv sample_times by (auto simp: cache_ok_def)
  have "make_list_id sample_layout 2 (get_cache_mode sample_layout 2) (get_context sample_layout 2) = 2"
    "2 \<le> VALUE_MASK sample_layout"
    by (simp_all add: make_list_id_def get_cache_mode_def get_context_def get_nocache_bit_def sample_layout_def NOCACHE_BIT_def VALUE_MASK_def)
  then have "some_free sample_layout (\<lambda>j. smap_find (smap_erase 2 (all_objects sample_tree)) j = None) (id_gen sample_tree)
      (get_cache_mode sample_layout 2) (get_context sample_layout 2)"
    unfolding some_free_def by (intro exI [of _ 2]) (simp add: sample_tree_def mk_id_generator_def)
  from reinsert_list_announces [OF ok sample_lookup(2) this] show ?thesis by (auto simp: sample_tree_def)
qed

end
