(* ===== verification/List_Tiles.thy ===== *)
theory List_Tiles
  imports Listtree_Manager
begin

text \<open>
  Tiles of long lists (\<^verbatim>\<open>ListTile_\<close>, \<^verbatim>\<open>ListThreads\<close> and \<^verbatim>\<open>ListTiles_\<close> in
  \<^verbatim>\<open>src/common/lists_base.hh\<close>). A long list keeps up to three tiles of consecutive items in
  memory. Tiles are filled by worker threads, which take them from one queue that all lists
  share. A tile is named by its list and its slot in the list's backing store. The function
  that fills a tile is the parameter \<open>filler\<close> (\<^verbatim>\<open>TiledListFillerIface\<close>): for a list, the index
  of the first item, the number of items and whether it may continue, it gives the count it
  returns, the data it has written, and the error. Worker and reader interleave at the points
  where they hold a lock; \<open>being_filled\<close> is the list ID of the work item whose worker holds the
  lock of the tile. A reader that waits for that lock waits for the worker.
  The threads run asynchronously, as in the programs.
\<close>

section \<open>State\<close>

datatype tile_state = FREE | FILLING | READY | CANCELED | TILE_ERROR

record 'd tile =
  items :: "'d list_item list"
  base :: nat
  stored_items_count :: nat
  tstate :: tile_state
  terror :: list_error
  cancel_filling_request :: bool
  being_filled :: "list_id option"

datatype location = UP | CENTER | DOWN

type_synonym tile_ref = "addr \<times> nat"
type_synonym 'd filler = "list_id \<Rightarrow> nat \<Rightarrow> nat \<Rightarrow> bool \<Rightarrow> int \<times> 'd list \<times> list_error"

record 'd tile_pool =
  tiles :: "tile_ref \<Rightarrow> 'd tile"
  work :: "(tile_ref \<times> list_id) list"
  active :: "addr \<Rightarrow> location \<Rightarrow> nat option"
  pool_killed :: killed_lists
  number_of_entries :: "addr \<Rightarrow> nat"

abbreviation u32_wrap :: "nat \<Rightarrow> nat" where
  "u32_wrap n \<equiv> n mod 2 ^ 32"

definition maximum_number_of_active_tiles :: nat where
  "maximum_number_of_active_tiles = 3"

definition maximum_number_of_hot_items :: "nat \<Rightarrow> nat" where
  "maximum_number_of_hot_items ts = maximum_number_of_active_tiles * ts"

definition mk_tile :: "'d list_item list \<Rightarrow> 'd tile" where
  "mk_tile its = \<lparr>items = its, base = 0, stored_items_count = 0, tstate = FREE, terror = ERR_INTERNAL,
     cancel_filling_request = False, being_filled = None\<rparr>"

definition set_tile :: "tile_ref \<Rightarrow> 'd tile \<Rightarrow> 'd tile_pool \<Rightarrow> 'd tile_pool" where
  "set_tile r t s = s\<lparr>tiles := (tiles s)(r := t)\<rparr>"

section \<open>One tile\<close>

definition is_tile_for :: "nat \<Rightarrow> nat \<Rightarrow> 'd tile \<Rightarrow> bool" where
  "is_tile_for ts idx t \<longleftrightarrow> idx \<ge> base t \<and> idx < u32_wrap (base t + ts)"

definition reset_tile ::
  "ctx_layout \<Rightarrow> ('d \<Rightarrow> 'd) \<Rightarrow> list_error \<Rightarrow> tile_state \<Rightarrow> tile_ref \<Rightarrow> 'd tile_pool \<Rightarrow> 'd tile_pool" where
  "reset_tile L rd err st r s =
     (let t = tiles s r
      in (set_tile r (t\<lparr>items := map (reset_item rd) (items t), base := 0, stored_items_count := 0,
                        terror := err, tstate := st\<rparr>) s)
         \<lparr>pool_killed := fold killed (filter (id_is_valid L) (map child (items t))) (pool_killed s)\<rparr>)"

definition is_free :: "'d tile \<Rightarrow> bool" where
  "is_free t \<longleftrightarrow> being_filled t = None \<and> tstate t = FREE"

definition canceled_notification ::
  "ctx_layout \<Rightarrow> ('d \<Rightarrow> 'd) \<Rightarrow> list_error \<Rightarrow> tile_ref \<Rightarrow> 'd tile_pool \<Rightarrow> 'd tile_pool" where
  "canceled_notification L rd err r s =
     reset_tile L rd err (if err = ERR_OK then CANCELED else TILE_ERROR) r s"

definition done_notification :: "nat \<Rightarrow> tile_ref \<Rightarrow> 'd tile_pool \<Rightarrow> 'd tile_pool" where
  "done_notification count r s =
     (let t = tiles s r
      in set_tile r (t\<lparr>stored_items_count := (stored_items_count t + count) mod 2 ^ 16, tstate := READY\<rparr>) s)"

definition activate_tile :: "nat \<Rightarrow> nat \<Rightarrow> tile_ref \<Rightarrow> 'd tile_pool \<Rightarrow> 'd tile_pool" where
  "activate_tile ts idx r s =
     set_tile r ((tiles s r)\<lparr>base := idx - idx mod ts, tstate := FILLING, cancel_filling_request := False\<rparr>) s"

definition cancel_tile :: "tile_ref \<Rightarrow> 'd tile_pool \<Rightarrow> 'd tile_pool" where
  "cancel_tile r s = set_tile r ((tiles s r)\<lparr>cancel_filling_request := True\<rparr>) s"

text \<open>\<^verbatim>\<open>wait_for_ready_state()\<close>: \<open>None\<close> as long as the tile is being filled.\<close>

definition tile_ready :: "'d tile \<Rightarrow> (list_error + unit) option" where
  "tile_ready t =
     (if tstate t = FILLING then None
      else if tstate t \<noteq> READY then Some (Inl (terror t)) else Some (Inr ()))"

definition tile_size_of :: "'d tile \<Rightarrow> (list_error + nat) option" where
  "tile_size_of t = map_option (\<lambda>r. case r of Inl e \<Rightarrow> Inl e | Inr _ \<Rightarrow> Inr (stored_items_count t)) (tile_ready t)"

text \<open>An index beyond the array is undefined: \<open>None\<close>.\<close>

definition get_list_item_by_raw_index :: "nat \<Rightarrow> 'd tile \<Rightarrow> (list_error + 'd list_item) option" where
  "get_list_item_by_raw_index raw_index t =
     (case tile_ready t of
        None \<Rightarrow> None
      | Some (Inl e) \<Rightarrow> Some (Inl e)
      | Some (Inr _) \<Rightarrow> let i = raw_index mod 2 ^ 16 in if i < length (items t) then Some (Inr (items t ! i)) else None)"

section \<open>The threads that fill tiles\<close>

definition enqueue :: "tile_ref \<Rightarrow> list_id \<Rightarrow> 'd tile_pool \<Rightarrow> 'd tile_pool" where
  "enqueue r i s = s\<lparr>work := work s @ [(r, i)]\<rparr>"

text \<open>\<^verbatim>\<open>ItemProvider::next()\<close> hands out the items of the tile from the first on.\<close>

definition provide_items :: "'d list \<Rightarrow> 'd list_item list \<Rightarrow> 'd list_item list" where
  "provide_items ds its = map2 (\<lambda>d it. it\<lparr>specific_data := d\<rparr>) ds its @ drop (length ds) its"

definition do_fill_tile ::
  "ctx_layout \<Rightarrow> ('d \<Rightarrow> 'd) \<Rightarrow> nat \<Rightarrow> 'd filler \<Rightarrow> tile_ref \<Rightarrow> list_id \<Rightarrow> 'd tile_pool \<Rightarrow> 'd tile_pool" where
  "do_fill_tile L rd ts filler r i s =
     (let t = tiles s r;
          (count, ds, err) = filler i (base t) ts (\<not> cancel_filling_request t);
          s1 = set_tile r (t\<lparr>items := provide_items ds (items t)\<rparr>) s
      in if count > 0 then done_notification (nat count) r s1
         else if count < 0 then canceled_notification L rd err r s1
         else s1)"

text \<open>A worker takes a tile from the queue and locks it; later it has filled the tile and unlocks it.\<close>

definition worker_take :: "'d tile_pool \<Rightarrow> 'd tile_pool option" where
  "worker_take s =
     (case work s of
        [] \<Rightarrow> None
      | (r, i) # ws \<Rightarrow> Some (set_tile r ((tiles s r)\<lparr>being_filled := Some i\<rparr>) (s\<lparr>work := ws\<rparr>)))"

definition worker_done ::
  "ctx_layout \<Rightarrow> ('d \<Rightarrow> 'd) \<Rightarrow> nat \<Rightarrow> 'd filler \<Rightarrow> tile_ref \<Rightarrow> 'd tile_pool \<Rightarrow> 'd tile_pool" where
  "worker_done L rd ts filler r s =
     (case being_filled (tiles s r) of
        None \<Rightarrow> s
      | Some i \<Rightarrow>
          let s1 = do_fill_tile L rd ts filler r i s
          in set_tile r ((tiles s1 r)\<lparr>being_filled := None\<rparr>) s1)"

definition cancel_all_queued_fillers :: "ctx_layout \<Rightarrow> ('d \<Rightarrow> 'd) \<Rightarrow> 'd tile_pool \<Rightarrow> 'd tile_pool" where
  "cancel_all_queued_fillers L rd s =
     (fold (\<lambda>(r, _). canceled_notification L rd ERR_OK r) (work s) s)\<lparr>work := []\<rparr>"

fun remove_first_work :: "tile_ref \<Rightarrow> (tile_ref \<times> list_id) list \<Rightarrow> (tile_ref \<times> list_id) list" where
  "remove_first_work r [] = []"
| "remove_first_work r (w # ws) = (if fst w = r then ws else w # remove_first_work r ws)"

text \<open>A reader that cannot lock the tile waits until the worker that fills it has finished.\<close>

definition cancel_filler ::
  "ctx_layout \<Rightarrow> ('d \<Rightarrow> 'd) \<Rightarrow> nat \<Rightarrow> 'd filler \<Rightarrow> tile_ref \<Rightarrow> 'd tile_pool \<Rightarrow> 'd tile_pool" where
  "cancel_filler L rd ts filler r s =
     (let s1 = cancel_tile r s;
          st = tstate (tiles s1 r)
      in if being_filled (tiles s1 r) = None
         then let s2 = (if st = FILLING then s1\<lparr>work := remove_first_work r (work s1)\<rparr> else s1)
              in if st \<noteq> CANCELED then canceled_notification L rd ERR_OK r s2 else s2
         else worker_done L rd ts filler r s1)"

section \<open>The tiles of a list\<close>

definition find_free_tile :: "addr \<Rightarrow> 'd tile_pool \<Rightarrow> nat" where
  "find_free_tile l s =
     (case find (\<lambda>k. is_free (tiles s (l, k))) [0, 1, 2] of None \<Rightarrow> maximum_number_of_active_tiles | Some k \<Rightarrow> k)"

definition contains :: "nat \<Rightarrow> addr \<Rightarrow> nat \<Rightarrow> 'd tile_pool \<Rightarrow> location option" where
  "contains ts l idx s =
     find (\<lambda>loc. case active s l loc of None \<Rightarrow> False | Some k \<Rightarrow> is_tile_for ts idx (tiles s (l, k))) [UP, CENTER, DOWN]"

definition index_in_adjacent_tile :: "nat \<Rightarrow> nat \<Rightarrow> nat \<Rightarrow> location option \<Rightarrow> nat" where
  "index_in_adjacent_tile ts idx nitems direction =
     (case direction of
        None \<Rightarrow> u32_wrap nitems
      | Some UP \<Rightarrow> if idx \<ge> ts then idx - ts else u32_wrap (nitems + 2 ^ 32 - 1)
      | Some CENTER \<Rightarrow> idx
      | Some DOWN \<Rightarrow> if u32_wrap (idx + ts) < nitems then u32_wrap (idx + ts) else 0)"

definition clear_tiles ::
  "ctx_layout \<Rightarrow> ('d \<Rightarrow> 'd) \<Rightarrow> nat \<Rightarrow> 'd filler \<Rightarrow> addr \<Rightarrow> 'd tile_pool \<Rightarrow> 'd tile_pool" where
  "clear_tiles L rd ts filler l s =
     (let s1 = cancel_all_queued_fillers L rd s;
          s2 = fold (\<lambda>k s. if is_free (tiles s (l, k)) then s
                            else reset_tile L rd ERR_OK FREE (l, k) (cancel_filler L rd ts filler (l, k) s))
                 [0, 1, 2] s1
      in s2\<lparr>active := (active s2)(l := (\<lambda>_. None))\<rparr>)"

definition set_active :: "addr \<Rightarrow> location \<Rightarrow> nat option \<Rightarrow> 'd tile_pool \<Rightarrow> 'd tile_pool" where
  "set_active l loc k s = s\<lparr>active := (active s)(l := (active s l)(loc := k))\<rparr>"

definition start_tile :: "nat \<Rightarrow> addr \<Rightarrow> list_id \<Rightarrow> nat \<Rightarrow> nat \<Rightarrow> 'd tile_pool \<Rightarrow> 'd tile_pool" where
  "start_tile ts l i k idx s = enqueue (l, k) i (activate_tile ts idx (l, k) s)"

text \<open>A missing free tile would be an access beyond the array: \<open>None\<close>.\<close>

definition slide ::
  "ctx_layout \<Rightarrow> ('d \<Rightarrow> 'd) \<Rightarrow> nat \<Rightarrow> 'd filler \<Rightarrow> addr \<Rightarrow> list_id \<Rightarrow> nat \<Rightarrow> nat \<Rightarrow> location \<Rightarrow> location \<Rightarrow>
   'd tile_pool \<Rightarrow> 'd tile_pool option" where
  "slide L rd ts filler l i idx nitems tile_to_push_out tile_to_keep s =
     (let temp = active s l tile_to_push_out;
          s1 = set_active l tile_to_keep temp
                 (set_active l CENTER (active s l tile_to_keep)
                   (set_active l tile_to_push_out (active s l CENTER) s));
          adjacent_index = index_in_adjacent_tile ts idx nitems (Some tile_to_keep);
          stay = (case temp of None \<Rightarrow> False | Some k \<Rightarrow> is_tile_for ts adjacent_index (tiles s1 (l, k)))
      in if stay then Some s1
         else
           let s2 = (case temp of None \<Rightarrow> s1
                     | Some k \<Rightarrow> reset_tile L rd ERR_OK FREE (l, k) (cancel_filler L rd ts filler (l, k) s1))
           in do {
                s3 \<leftarrow> (if active s2 l CENTER = None
                       then let k = find_free_tile l s2
                            in if k < maximum_number_of_active_tiles
                               then Some (start_tile ts l i k idx (set_active l CENTER (Some k) s2)) else None
                       else Some s2);
                Some (case temp of None \<Rightarrow> s3 | Some k \<Rightarrow> start_tile ts l i k adjacent_index s3)
              })"

fun slide_up ::
  "ctx_layout \<Rightarrow> ('d \<Rightarrow> 'd) \<Rightarrow> nat \<Rightarrow> 'd filler \<Rightarrow> addr \<Rightarrow> list_id \<Rightarrow> nat \<Rightarrow> nat \<Rightarrow> nat \<Rightarrow>
   'd tile_pool \<Rightarrow> 'd tile_pool option" where
  "slide_up L rd ts filler l i idx nitems 0 s = Some s"
| "slide_up L rd ts filler l i idx nitems (Suc n) s =
     do {
       s1 \<leftarrow> slide L rd ts filler l i (u32_wrap (idx + n * ts)) nitems DOWN UP s;
       slide_up L rd ts filler l i idx nitems n s1
     }"

fun slide_down ::
  "ctx_layout \<Rightarrow> ('d \<Rightarrow> 'd) \<Rightarrow> nat \<Rightarrow> 'd filler \<Rightarrow> addr \<Rightarrow> list_id \<Rightarrow> nat \<Rightarrow> nat \<Rightarrow> nat \<Rightarrow>
   'd tile_pool \<Rightarrow> 'd tile_pool option" where
  "slide_down L rd ts filler l i idx nitems 0 s = Some s"
| "slide_down L rd ts filler l i idx nitems (Suc n) s =
     do {
       s1 \<leftarrow> slide L rd ts filler l i (u32_wrap (idx + 2 ^ 32 - n * ts)) nitems UP DOWN s;
       slide_down L rd ts filler l i idx nitems n s1
     }"

definition fill_tiles ::
  "ctx_layout \<Rightarrow> ('d \<Rightarrow> 'd) \<Rightarrow> nat \<Rightarrow> 'd filler \<Rightarrow> addr \<Rightarrow> list_id \<Rightarrow> nat \<Rightarrow> nat \<Rightarrow> 'd tile_pool \<Rightarrow> 'd tile_pool" where
  "fill_tiles L rd ts filler l i center_idx nitems s =
     (let s0 = clear_tiles L rd ts filler l s
      in if nitems = 0 then s0
         else
           let s1 = start_tile ts l i 0 center_idx (set_active l CENTER (Some 0) s0);
               center = base (tiles s1 (l, 0))
           in if nitems \<le> ts then s1
              else
                let s2 = start_tile ts l i 1 (if center < nitems - ts then u32_wrap (center + ts) else 0)
                           (set_active l DOWN (Some 1) s1)
                in if nitems \<le> 2 * ts then s2
                   else start_tile ts l i 2 (if center > 0 then center - ts else u32_wrap (nitems - 1))
                          (set_active l UP (Some 2) s2))"

definition tiles_empty :: "addr \<Rightarrow> 'd tile_pool \<Rightarrow> bool" where
  "tiles_empty l s \<longleftrightarrow> list_all (\<lambda>loc. active s l loc = None) [UP, CENTER, DOWN]"

definition compute_number_of_required_slides :: "location option \<Rightarrow> bool \<Rightarrow> nat \<Rightarrow> location option \<times> nat" where
  "compute_number_of_required_slides direction is_first_item spanned =
     (case direction of
        Some UP \<Rightarrow> (direction, if is_first_item then 0 else spanned - 1)
      | Some DOWN \<Rightarrow> (direction, if is_first_item then spanned - 1 else 0)
      | Some CENTER \<Rightarrow>
          let ret = (if spanned \<ge> 2 then spanned - 2 else 0)
          in (if ret > 0 then Some (if is_first_item then UP else DOWN) else direction, ret)
      | None \<Rightarrow> (direction, maximum_number_of_active_tiles))"

definition number_of_spanned_tiles :: "nat \<Rightarrow> nat \<Rightarrow> nat \<Rightarrow> nat" where
  "number_of_spanned_tiles ts first count = 1 + (first mod ts + count - 1) div ts"

definition check_overlapping_range_for_prefetch ::
  "nat \<Rightarrow> addr \<Rightarrow> nat \<Rightarrow> nat \<Rightarrow> 'd tile_pool \<Rightarrow> location option \<times> nat" where
  "check_overlapping_range_for_prefetch ts l first count s =
     (let spanned = number_of_spanned_tiles ts first count
      in if contains ts l first s \<noteq> None
         then compute_number_of_required_slides (contains ts l first s) True spanned
         else if spanned > 1 \<and> contains ts l (u32_wrap (first + count - 1)) s \<noteq> None
         then compute_number_of_required_slides (contains ts l (u32_wrap (first + count - 1)) s) False spanned
         else (None, maximum_number_of_active_tiles))"

definition prefetch_center_index :: "nat \<Rightarrow> nat \<Rightarrow> nat \<Rightarrow> location option \<Rightarrow> nat \<Rightarrow> bool \<Rightarrow> nat" where
  "prefetch_center_index ts first spanned direction slides auto_slide =
     (if auto_slide \<and> spanned < maximum_number_of_active_tiles \<or>
         direction = None \<and> spanned < maximum_number_of_active_tiles \<or>
         direction = Some DOWN \<and> slides = 1 \<or> slides = 0
      then first else u32_wrap (first + ts))"

text \<open>The result tells whether the range can be iterated over in memory. The exception for an invalid
  slide direction is the left case.\<close>

definition prefetch ::
  "ctx_layout \<Rightarrow> ('d \<Rightarrow> 'd) \<Rightarrow> nat \<Rightarrow> 'd filler \<Rightarrow> addr \<Rightarrow> list_id \<Rightarrow> nat \<Rightarrow> nat \<Rightarrow> nat \<Rightarrow> bool \<Rightarrow>
   'd tile_pool \<Rightarrow> ('d tile_pool \<times> (list_error + bool)) option" where
  "prefetch L rd ts filler l i first count nitems auto_slide s =
     (if count = 0 then Some (s, Inr False)
      else if count + first mod ts > maximum_number_of_hot_items ts then Some (s, Inr False)
      else
        let spanned = number_of_spanned_tiles ts first count;
            (direction, req) = check_overlapping_range_for_prefetch ts l first count s
        in if req = 0 \<and> \<not> (auto_slide \<and> (direction = Some UP \<or> direction = Some DOWN)) then Some (s, Inr True)
           else
             let slides = (if req = 0 then 1 else req);
                 center_index = prefetch_center_index ts first spanned direction slides auto_slide
             in (case direction of
                   Some CENTER \<Rightarrow> Some (s, Inl ERR_INTERNAL)
                 | Some UP \<Rightarrow> map_option (\<lambda>s'. (s', Inr True)) (slide_up L rd ts filler l i center_index nitems slides s)
                 | Some DOWN \<Rightarrow> map_option (\<lambda>s'. (s', Inr True)) (slide_down L rd ts filler l i center_index nitems slides s)
                 | None \<Rightarrow> Some (fill_tiles L rd ts filler l i center_index nitems s, Inr True)))"

definition get_list_item_unsafe :: "addr \<Rightarrow> nat \<Rightarrow> 'd tile_pool \<Rightarrow> (list_error + 'd list_item) option" where
  "get_list_item_unsafe l idx s =
     (case active s l CENTER of
        None \<Rightarrow> None
      | Some k \<Rightarrow> get_list_item_by_raw_index (u32_wrap (idx + 2 ^ 32 - base (tiles s (l, k)))) (tiles s (l, k)))"

end
