(* ===== verification/Tile_Inv.thy ===== *)
theory Tile_Inv
  imports List_Tiles
begin

text \<open>
  The invariant of the tile pool. \<open>tile_filler\<close> is the interface of the functions that fill tiles
  (\<^verbatim>\<open>TiledListFillerIface::fill()\<close>): what they return, that the data they write belongs to the items
  it is written to, that any data will do for the items they leave out, which items they never leave out
  (\<open>served\<close>), and for which lists they may give nothing at all (\<open>silent\<close>). The operations on single tiles keep every tile and the work queue well
  formed (\<open>pool_wf\<close>); the operations on the tiles of a list also keep the table of active tiles in
  step with the states of the tiles (\<open>active_ok\<close>).
\<close>

section \<open>The interface of the fillers\<close>

locale tile_filler =
  fixes ts :: nat
    and filler :: "'d filler"
    and names :: "list_id \<Rightarrow> addr \<Rightarrow> bool"
    and right :: "addr \<Rightarrow> nat \<Rightarrow> 'd \<Rightarrow> bool"
    and served :: "addr \<Rightarrow> nat \<Rightarrow> bool"
    and silent :: "addr \<Rightarrow> bool"
  assumes ts_pos: "0 < ts"
    and ts_u16: "ts < 2 ^ 16"
    and fill_count: "filler i b ts c = (n, ds, e) \<Longrightarrow> 0 < n \<Longrightarrow> length ds \<le> nat n \<and> nat n \<le> ts"
    and fill_data: "filler i b ts c = (n, ds, e) \<Longrightarrow> 0 < n \<Longrightarrow> names i l \<Longrightarrow> j < length ds \<Longrightarrow>
      right l (b + j) (ds ! j)"
    and fill_rest: "filler i b ts c = (n, ds, e) \<Longrightarrow> names i l \<Longrightarrow> length ds \<le> j \<Longrightarrow> j < nat n \<Longrightarrow> right l (b + j) d"
    and fill_served: "filler i b ts c = (n, ds, e) \<Longrightarrow> 0 < n \<Longrightarrow> names i l \<Longrightarrow> served l k \<Longrightarrow>
      b \<le> k \<Longrightarrow> k < b + ts \<Longrightarrow> k < b + nat n"
    and fill_zero: "filler i b ts c = (0, ds, e) \<Longrightarrow> names i l \<Longrightarrow> silent l"
    and fill_error: "filler i b ts c = (n, ds, e) \<Longrightarrow> n < 0 \<Longrightarrow> e \<noteq> ERR_OK"

section \<open>Invariants\<close>

definition tile_wf ::
  "nat \<Rightarrow> (list_id \<Rightarrow> addr \<Rightarrow> bool) \<Rightarrow> (addr \<Rightarrow> nat \<Rightarrow> 'd \<Rightarrow> bool) \<Rightarrow> (addr \<Rightarrow> nat \<Rightarrow> bool) \<Rightarrow> addr \<Rightarrow> 'd tile \<Rightarrow> bool" where
  "tile_wf ts names right served l t \<longleftrightarrow>
     length (items t) = ts \<and> base t mod ts = 0 \<and>
     (\<forall>i. being_filled t = Some i \<longrightarrow> names i l \<and> tstate t = FILLING) \<and>
     (tstate t \<noteq> READY \<longrightarrow> stored_items_count t = 0) \<and>
     (tstate t \<in> {FREE, CANCELED, TILE_ERROR} \<longrightarrow> base t = 0) \<and>
     (tstate t = TILE_ERROR \<longrightarrow> terror t \<noteq> ERR_OK) \<and>
     (tstate t = READY \<longrightarrow> 0 < stored_items_count t \<and> stored_items_count t \<le> ts \<and>
        (\<forall>j < stored_items_count t. right l (base t + j) (specific_data (items t ! j))) \<and>
        (\<forall>k. served l k \<longrightarrow> base t \<le> k \<longrightarrow> k < base t + ts \<longrightarrow> k < base t + stored_items_count t))"

definition pool_wf ::
  "nat \<Rightarrow> (list_id \<Rightarrow> addr \<Rightarrow> bool) \<Rightarrow> (addr \<Rightarrow> nat \<Rightarrow> 'd \<Rightarrow> bool) \<Rightarrow> (addr \<Rightarrow> nat \<Rightarrow> bool) \<Rightarrow>
   (addr \<Rightarrow> bool) \<Rightarrow> 'd tile_pool \<Rightarrow> bool" where
  "pool_wf ts names right served silent s \<longleftrightarrow>
     (\<forall>l k. tile_wf ts names right served l (tiles s (l, k))) \<and> distinct (map fst (work s)) \<and>
     (\<forall>r i. (r, i) \<in> set (work s) \<longrightarrow>
        names i (fst r) \<and> tstate (tiles s r) = FILLING \<and> being_filled (tiles s r) = None) \<and>
     (\<forall>l k. tstate (tiles s (l, k)) = FILLING \<longrightarrow> being_filled (tiles s (l, k)) = None \<longrightarrow>
        (l, k) \<in> fst ` set (work s) \<or> silent l)"

definition active_ok :: "addr \<Rightarrow> 'd tile_pool \<Rightarrow> bool" where
  "active_ok l s \<longleftrightarrow>
     (\<forall>a b k. active s l a = Some k \<longrightarrow> active s l b = Some k \<longrightarrow> a = b) \<and>
     (\<forall>a k. active s l a = Some k \<longrightarrow> k < 3) \<and>
     (\<forall>k < 3. tstate (tiles s (l, k)) \<noteq> FREE \<longleftrightarrow> (\<exists>a. active s l a = Some k))"

text \<open>The bases of the active tiles of a list.\<close>

definition view :: "addr \<Rightarrow> 'd tile_pool \<Rightarrow> location \<Rightarrow> nat option" where
  "view l s loc = map_option (\<lambda>k. base (tiles s (l, k))) (active s l loc)"

text \<open>The cancellation of a tile before it is used again.\<close>

definition drop_tile ::
  "ctx_layout \<Rightarrow> ('d \<Rightarrow> 'd) \<Rightarrow> nat \<Rightarrow> 'd filler \<Rightarrow> tile_ref \<Rightarrow> 'd tile_pool \<Rightarrow> 'd tile_pool" where
  "drop_tile L rd ts filler r s = reset_tile L rd ERR_OK FREE r (cancel_filler L rd ts filler r s)"

section \<open>Frames\<close>

text \<open>An operation on one tile leaves the others and the table of active tiles alone.\<close>

definition only_tile :: "tile_ref \<Rightarrow> 'd tile_pool \<Rightarrow> 'd tile_pool \<Rightarrow> bool" where
  "only_tile r s s' \<longleftrightarrow>
     (\<forall>q. q \<noteq> r \<longrightarrow> tiles s' q = tiles s q) \<and> active s' = active s \<and> number_of_entries s' = number_of_entries s"

lemma set_tile_simps [simp]:
  "tiles (set_tile r t s) = (tiles s)(r := t)" "work (set_tile r t s) = work s"
  "active (set_tile r t s) = active s" "pool_killed (set_tile r t s) = pool_killed s"
  "number_of_entries (set_tile r t s) = number_of_entries s"
  by (simp_all add: set_tile_def)

lemma reset_tile_simps [simp]:
  "tiles (reset_tile L rd e st r s) = (tiles s)(r := (tiles s r)\<lparr>items := map (reset_item rd) (items (tiles s r)),
     base := 0, stored_items_count := 0, terror := e, tstate := st\<rparr>)"
  "work (reset_tile L rd e st r s) = work s" "active (reset_tile L rd e st r s) = active s"
  "number_of_entries (reset_tile L rd e st r s) = number_of_entries s"
  by (simp_all add: reset_tile_def Let_def)

lemma canceled_notification_simps [simp]:
  "tiles (canceled_notification L rd e r s) = (tiles s)(r := (tiles s r)\<lparr>items := map (reset_item rd) (items (tiles s r)),
     base := 0, stored_items_count := 0, terror := e, tstate := if e = ERR_OK then CANCELED else TILE_ERROR\<rparr>)"
  "work (canceled_notification L rd e r s) = work s" "active (canceled_notification L rd e r s) = active s"
  "number_of_entries (canceled_notification L rd e r s) = number_of_entries s"
  by (simp_all add: canceled_notification_def)

lemma start_tile_simps [simp]:
  "tiles (start_tile ts l i k idx s) = (tiles s)((l, k) := (tiles s (l, k))\<lparr>base := idx - idx mod ts,
     tstate := FILLING, cancel_filling_request := False\<rparr>)"
  "work (start_tile ts l i k idx s) = work s @ [((l, k), i)]" "active (start_tile ts l i k idx s) = active s"
  "number_of_entries (start_tile ts l i k idx s) = number_of_entries s"
  by (simp_all add: start_tile_def enqueue_def activate_tile_def)

lemma set_active_simps [simp]:
  "tiles (set_active l loc k s) = tiles s" "work (set_active l loc k s) = work s"
  "active (set_active l loc k s) = (active s)(l := (active s l)(loc := k))"
  "number_of_entries (set_active l loc k s) = number_of_entries s"
  by (simp_all add: set_active_def)

lemma only_tile_refl: "only_tile r s s"
  by (simp add: only_tile_def)

lemma only_tile_trans: "only_tile r s s1 \<Longrightarrow> only_tile r s1 s2 \<Longrightarrow> only_tile r s s2"
  by (simp add: only_tile_def)

lemma only_tile_steps:
  "only_tile r s (set_tile r t s)" "only_tile r s (reset_tile L rd e st r s)"
  "only_tile r s (canceled_notification L rd e r s)" "only_tile r s (done_notification n r s)"
  "only_tile r s (cancel_tile r s)" "only_tile r s (s\<lparr>work := w\<rparr>)"
  by (simp_all add: only_tile_def done_notification_def cancel_tile_def Let_def)

lemma do_fill_tile_frame:
  "only_tile r s (do_fill_tile L rd ts filler r i s) \<and> work (do_fill_tile L rd ts filler r i s) = work s"
  by (simp add: do_fill_tile_def Let_def only_tile_def done_notification_def split: prod.split)

lemma worker_done_frame:
  "only_tile r s (worker_done L rd ts filler r s) \<and> work (worker_done L rd ts filler r s) = work s"
  using do_fill_tile_frame [of r s L rd ts filler]
  by (simp add: worker_done_def only_tile_def Let_def split: option.split)

lemma length_provide_items [simp]: "length (provide_items ds its) = length its"
  by (simp add: provide_items_def)

lemma provide_items_nth:
  "j < length ds \<Longrightarrow> j < length its \<Longrightarrow> specific_data (provide_items ds its ! j) = ds ! j"
  by (simp add: provide_items_def nth_append)

lemma filter_absent: "r \<notin> fst ` set ws \<Longrightarrow> filter (\<lambda>w. fst w \<noteq> r) ws = ws"
  by (rule filter_True) force

lemma remove_first_work_filter:
  "distinct (map fst ws) \<Longrightarrow> remove_first_work r ws = filter (\<lambda>w. fst w \<noteq> r) ws"
  by (induction ws) (auto simp: filter_absent)

section \<open>Single tiles\<close>

context tile_filler
begin

lemma tile_wf_start:
  assumes "tile_wf ts names right served l t" "tstate t = FREE"
  shows "tile_wf ts names right served l (t\<lparr>base := idx - idx mod ts, tstate := FILLING, cancel_filling_request := False\<rparr>)"
  using assms by (auto simp: tile_wf_def minus_mod_eq_mult_div)

text \<open>What a worker leaves behind.\<close>

lemma worker_done_tile:
  fixes L rd
  assumes "tile_wf ts names right served l (tiles s (l, k))" "being_filled (tiles s (l, k)) = Some i"
  defines "t' \<equiv> tiles (worker_done L rd ts filler (l, k) s) (l, k)"
  shows "tile_wf ts names right served l t'" "being_filled t' = None" "tstate t' \<noteq> FREE"
    "tstate t' = FILLING \<longrightarrow> fst (filler i (base (tiles s (l, k))) ts (\<not> cancel_filling_request (tiles s (l, k)))) = 0"
proof -
  define t where "t = tiles s (l, k)"
  obtain n ds e where f: "filler i (base t) ts (\<not> cancel_filling_request t) = (n, ds, e)"
    by (metis prod_cases3)
  have wf: "tile_wf ts names right served l t" and "names i l" "tstate t = FILLING" "stored_items_count t = 0"
    using assms by (auto simp: t_def tile_wf_def)
  note t' = t'_def worker_done_def do_fill_tile_def Let_def assms(2) f [unfolded t_def]
  consider (pos) "0 < n" | (neg) "n < 0" | (zero) "n = 0" by linarith
  then have "tile_wf ts names right served l t' \<and> being_filled t' = None \<and> tstate t' \<noteq> FREE \<and> (tstate t' = FILLING \<longrightarrow> n = 0)"
  proof cases
    case pos
    have n: "length ds \<le> nat n" "nat n \<le> ts" using fill_count [OF f pos] by simp_all
    have "t' = t\<lparr>items := provide_items ds (items t), stored_items_count := nat n, tstate := READY, being_filled := None\<rparr>"
      using pos n ts_u16 \<open>stored_items_count t = 0\<close> by (simp add: t' t_def done_notification_def)
    moreover have "right l (base t + j) (specific_data (provide_items ds (items t) ! j))" if "j < nat n" for j
    proof (cases "j < length ds")
      case True
      then show ?thesis using n wf fill_data [OF f pos \<open>names i l\<close> True] by (simp add: provide_items_nth tile_wf_def)
    next
      case False
      then show ?thesis using fill_rest [OF f \<open>names i l\<close> _ that] by simp
    qed
    ultimately show ?thesis using wf pos n fill_served [OF f pos \<open>names i l\<close>] by (simp add: tile_wf_def)
  next
    case neg
    have "t' = t\<lparr>items := map (reset_item rd) (provide_items ds (items t)), base := 0, stored_items_count := 0,
      terror := e, tstate := TILE_ERROR, being_filled := None\<rparr>"
      using neg fill_error [OF f neg] by (simp add: t' t_def)
    then show ?thesis using wf neg fill_error [OF f neg] by (simp add: tile_wf_def)
  next
    case zero
    have "t' = t\<lparr>items := provide_items ds (items t), being_filled := None\<rparr>"
      using zero by (simp add: t' t_def)
    then show ?thesis using wf zero \<open>tstate t = FILLING\<close> by (simp add: tile_wf_def)
  qed
  then show "tile_wf ts names right served l t'" "being_filled t' = None" "tstate t' \<noteq> FREE"
    "tstate t' = FILLING \<longrightarrow> fst (filler i (base (tiles s (l, k))) ts (\<not> cancel_filling_request (tiles s (l, k)))) = 0"
    using f by (auto simp: t_def)
qed

lemma pool_wfI:
  assumes "\<And>l k. tile_wf ts names right served l (tiles s (l, k))" "distinct (map fst (work s))"
    "\<And>r i. (r, i) \<in> set (work s) \<Longrightarrow>
       names i (fst r) \<and> tstate (tiles s r) = FILLING \<and> being_filled (tiles s r) = None"
    "\<And>l k. tstate (tiles s (l, k)) = FILLING \<Longrightarrow> being_filled (tiles s (l, k)) = None \<Longrightarrow>
       (l, k) \<in> fst ` set (work s) \<or> silent l"
  shows "pool_wf ts names right served silent s"
  using assms by (auto simp: pool_wf_def)

lemma pool_wf_update:
  assumes wf: "pool_wf ts names right served silent s" and only: "only_tile (l, k) s s'"
    and t: "tile_wf ts names right served l (tiles s' (l, k))" and w: "work s' = filter (\<lambda>w. fst w \<noteq> (l, k)) (work s)"
    and stuck: "tstate (tiles s' (l, k)) = FILLING \<Longrightarrow> being_filled (tiles s' (l, k)) = None \<Longrightarrow> silent l"
  shows "pool_wf ts names right served silent s'"
proof (rule pool_wfI)
  show "tile_wf ts names right served l' (tiles s' (l', k'))" for l' k'
    using wf only t by (cases "(l', k') = (l, k)") (auto simp: pool_wf_def only_tile_def)
  show "distinct (map fst (work s'))" using wf w by (simp add: pool_wf_def distinct_map_filter)
  fix r i assume "(r, i) \<in> set (work s')"
  then show "names i (fst r) \<and> tstate (tiles s' r) = FILLING \<and> being_filled (tiles s' r) = None"
    using wf only w by (cases r) (auto simp: pool_wf_def only_tile_def)
next
  fix l' k' assume a: "tstate (tiles s' (l', k')) = FILLING" "being_filled (tiles s' (l', k')) = None"
  show "(l', k') \<in> fst ` set (work s') \<or> silent l'"
  proof (cases "(l', k') = (l, k)")
    case False
    then have "tiles s' (l', k') = tiles s (l', k')" using only by (auto simp: only_tile_def)
    then have "(l', k') \<in> fst ` set (work s) \<or> silent l'" using wf a by (simp add: pool_wf_def)
    then show ?thesis using w False by force
  qed (use stuck a in auto)
qed

lemma pool_wf_tile: "pool_wf ts names right served silent s \<Longrightarrow> tile_wf ts names right served l (tiles s (l, k))"
  by (simp add: pool_wf_def)

lemma not_queued:
  assumes "pool_wf ts names right served silent s" "tstate (tiles s r) \<noteq> FILLING \<or> being_filled (tiles s r) \<noteq> None"
  shows "filter (\<lambda>w. fst w \<noteq> r) (work s) = work s"
  using assms by (auto simp: pool_wf_def filter_id_conv)

lemma worker_done_wf:
  assumes "pool_wf ts names right served silent s"
  shows "pool_wf ts names right served silent (worker_done L rd ts filler (l, k) s)"
proof (cases "being_filled (tiles s (l, k))")
  case (Some i)
  note t = worker_done_tile [OF pool_wf_tile [OF assms] Some, where L = L and rd = rd]
  have "names i l" using pool_wf_tile [OF assms, of l k] Some by (simp add: tile_wf_def)
  then have "tstate (tiles (worker_done L rd ts filler (l, k) s) (l, k)) = FILLING \<Longrightarrow> silent l"
    using t(4) fill_zero by (metis prod.collapse)
  then show ?thesis
    using assms worker_done_frame [of "(l, k)" s L rd ts filler] t(1) not_queued [OF assms, of "(l, k)"] Some
    by (intro pool_wf_update [OF assms]) auto
qed (simp add: worker_done_def assms)

lemma worker_take_wf:
  assumes wf: "pool_wf ts names right served silent s" and "worker_take s = Some s'"
  shows "pool_wf ts names right served silent s'"
proof -
  obtain l k i ws where w: "work s = ((l, k), i) # ws" and s': "s' = set_tile (l, k) ((tiles s (l, k))\<lparr>being_filled := Some i\<rparr>) (s\<lparr>work := ws\<rparr>)"
    using assms(2) by (auto simp: worker_take_def split: list.splits)
  have "names i l" "tstate (tiles s (l, k)) = FILLING" "distinct (map fst (work s))" using wf w by (auto simp: pool_wf_def)
  then show ?thesis
    using w s' pool_wf_tile [OF wf, of l k]
    by (intro pool_wf_update [OF wf, of l k]) (auto simp: only_tile_def tile_wf_def filter_absent)
qed

lemma cancel_filler_spec:
  fixes L rd l k
  assumes wf: "pool_wf ts names right served silent s"
  defines "s' \<equiv> cancel_filler L rd ts filler (l, k) s"
  shows "only_tile (l, k) s s'" "work s' = filter (\<lambda>w. fst w \<noteq> (l, k)) (work s)"
    "tile_wf ts names right served l (tiles s' (l, k))" "being_filled (tiles s' (l, k)) = None"
proof -
  define s1 where "s1 = cancel_tile (l, k) s"
  have wf1: "tile_wf ts names right served l (tiles s1 (l, k))"
    using pool_wf_tile [OF wf, of l k] by (simp add: s1_def cancel_tile_def tile_wf_def)
  have same: "tstate (tiles s1 (l, k)) = tstate (tiles s (l, k))" "work s1 = work s"
    "being_filled (tiles s1 (l, k)) = being_filled (tiles s (l, k))" "only_tile (l, k) s s1"
    by (simp_all add: s1_def cancel_tile_def only_tile_def)
  have "only_tile (l, k) s s' \<and> work s' = filter (\<lambda>w. fst w \<noteq> (l, k)) (work s) \<and>
    tile_wf ts names right served l (tiles s' (l, k)) \<and> being_filled (tiles s' (l, k)) = None"
  proof (cases "being_filled (tiles s (l, k))")
    case None
    define s2 where "s2 = (if tstate (tiles s (l, k)) = FILLING then s1\<lparr>work := remove_first_work (l, k) (work s1)\<rparr> else s1)"
    have s2: "tiles s2 = tiles s1" "active s2 = active s1" "number_of_entries s2 = number_of_entries s1"
      "work s2 = filter (\<lambda>w. fst w \<noteq> (l, k)) (work s)"
      using wf same not_queued [OF wf, of "(l, k)"] by (auto simp: s2_def remove_first_work_filter pool_wf_def)
    have "s' = (if tstate (tiles s (l, k)) \<noteq> CANCELED then canceled_notification L rd ERR_OK (l, k) s2 else s2)"
      using None same by (simp add: s'_def cancel_filler_def Let_def s2_def flip: s1_def)
    then show ?thesis
      using s2 same wf1 None by (auto simp: only_tile_def tile_wf_def)
  next
    case (Some i)
    then have "s' = worker_done L rd ts filler (l, k) s1"
      by (simp add: s'_def cancel_filler_def Let_def same flip: s1_def)
    then show ?thesis
      using worker_done_frame [of "(l, k)" s1 L rd ts filler] same not_queued [OF wf, of "(l, k)"]
        worker_done_tile [OF wf1, of i L rd] Some by (auto intro: only_tile_trans)
  qed
  then show "only_tile (l, k) s s'" "work s' = filter (\<lambda>w. fst w \<noteq> (l, k)) (work s)"
    "tile_wf ts names right served l (tiles s' (l, k))" "being_filled (tiles s' (l, k)) = None" by simp_all
qed

lemma drop_tile_spec:
  fixes L rd l k
  assumes wf: "pool_wf ts names right served silent s"
  defines "s' \<equiv> drop_tile L rd ts filler (l, k) s"
  shows "only_tile (l, k) s s'" "work s' = filter (\<lambda>w. fst w \<noteq> (l, k)) (work s)"
    "pool_wf ts names right served silent s'" "is_free (tiles s' (l, k))"
proof -
  note c = cancel_filler_spec [OF wf, where L = L and rd = rd and l = l and k = k]
  show f: "only_tile (l, k) s s'" "work s' = filter (\<lambda>w. fst w \<noteq> (l, k)) (work s)" "is_free (tiles s' (l, k))"
    using c by (simp_all add: s'_def drop_tile_def only_tile_def is_free_def)
  have "tile_wf ts names right served l (tiles s' (l, k))" using c by (simp add: s'_def drop_tile_def tile_wf_def)
  then show "pool_wf ts names right served silent s'"
    using f(2) by (rule pool_wf_update [OF wf f(1)]) (use f(3) in \<open>simp add: is_free_def\<close>)
qed

lemma start_tile_wf:
  assumes wf: "pool_wf ts names right served silent s" and "names i l" "is_free (tiles s (l, k))"
  shows "pool_wf ts names right served silent (start_tile ts l i k idx s)"
proof (rule pool_wfI)
  have free: "tstate (tiles s (l, k)) = FREE" "being_filled (tiles s (l, k)) = None" using assms(3) by (auto simp: is_free_def)
  then have new: "(l, k) \<notin> fst ` set (work s)" using wf by (force simp: pool_wf_def)
  show "tile_wf ts names right served l' (tiles (start_tile ts l i k idx s) (l', k'))" for l' k'
    using pool_wf_tile [OF wf] tile_wf_start [OF pool_wf_tile [OF wf] free(1)] by simp
  show "distinct (map fst (work (start_tile ts l i k idx s)))" using wf new by (simp add: pool_wf_def)
  fix r j assume "(r, j) \<in> set (work (start_tile ts l i k idx s))"
  then show "names j (fst r) \<and> tstate (tiles (start_tile ts l i k idx s) r) = FILLING \<and>
    being_filled (tiles (start_tile ts l i k idx s) r) = None"
    using wf free assms(2) by (cases r) (auto simp: pool_wf_def)
next
  fix l' k' assume "tstate (tiles (start_tile ts l i k idx s) (l', k')) = FILLING"
    "being_filled (tiles (start_tile ts l i k idx s) (l', k')) = None"
  then show "(l', k') \<in> fst ` set (work (start_tile ts l i k idx s)) \<or> silent l'"
    using wf by (auto simp: pool_wf_def split: if_splits)
qed

lemma set_active_wf: "pool_wf ts names right served silent (set_active l loc k s) = pool_wf ts names right served silent s"
  by (simp add: pool_wf_def)

end

end
