(* ===== verification/Tile_Moves.thy ===== *)
theory Tile_Moves
  imports Tile_Inv
begin

text \<open>
  The operations on the tiles of one list: clearing, filling and sliding keep the invariant of the
  pool, and what they do to the bases of the active tiles.
\<close>

section \<open>Other lists\<close>

text \<open>Clearing a list empties the work queue, so that queued tiles of other lists become canceled.\<close>

definition others_kept :: "addr \<Rightarrow> 'd tile_pool \<Rightarrow> 'd tile_pool \<Rightarrow> bool" where
  "others_kept l s s' \<longleftrightarrow> number_of_entries s' = number_of_entries s \<and>
     (\<forall>l'. l' \<noteq> l \<longrightarrow> active s' l' = active s l' \<and>
       (\<forall>k. tiles s' (l', k) = tiles s (l', k) \<or>
            tstate (tiles s (l', k)) = FILLING \<and> tstate (tiles s' (l', k)) = CANCELED))"

lemma others_kept_active_ok:
  assumes "others_kept l s s'" "l' \<noteq> l"
  shows "active_ok l' s' = active_ok l' s"
proof -
  have "active s' l' = active s l'" and free: "tstate (tiles s' (l', k)) = FREE \<longleftrightarrow> tstate (tiles s (l', k)) = FREE" for k
    using assms unfolding others_kept_def by (blast, metis tile_state.distinct(1,5))
  then show ?thesis by (simp only: active_ok_def free)
qed

lemma others_kept_refl: "others_kept l s s"
  by (simp add: others_kept_def)

lemma others_kept_trans:
  assumes "others_kept l s s1" "others_kept l s1 s2"
  shows "others_kept l s s2"
  using assms unfolding others_kept_def by (metis tile_state.distinct(11))

lemma only_tile_others: "only_tile (l, k) s s' \<Longrightarrow> others_kept l s s'"
  by (simp add: only_tile_def others_kept_def)

lemma start_tile_others: "others_kept l s (start_tile ts l i k idx s)"
  by (simp add: others_kept_def)

lemma set_active_others: "others_kept l s (set_active l loc k s)"
  by (simp add: others_kept_def)

section \<open>Clearing\<close>

definition canceled_tile :: "('d \<Rightarrow> 'd) \<Rightarrow> 'd tile \<Rightarrow> 'd tile" where
  "canceled_tile rd t = t\<lparr>items := map (reset_item rd) (items t), base := 0, stored_items_count := 0,
     terror := ERR_OK, tstate := CANCELED\<rparr>"

lemma cancel_queue_tiles:
  fixes L rd s
  assumes "distinct (map fst ws)"
  defines "s' \<equiv> fold (\<lambda>(r, _). canceled_notification L rd ERR_OK r) ws s"
  shows "tiles s' r = (if r \<in> fst ` set ws then canceled_tile rd (tiles s r) else tiles s r) \<and>
    active s' = active s \<and> number_of_entries s' = number_of_entries s"
  using assms(1) unfolding s'_def
proof (induction ws arbitrary: s)
  case (Cons w ws)
  obtain q i where w: "w = (q, i)" by (rule prod.exhaust)
  show ?case using Cons.IH [of "canceled_notification L rd ERR_OK q s"] Cons.prems
    by (auto simp: w canceled_tile_def)
qed simp

context tile_filler
begin

lemma cancel_all_spec:
  fixes L rd
  assumes wf: "pool_wf ts names right served silent s"
  defines "s' \<equiv> cancel_all_queued_fillers L rd s"
  shows "pool_wf ts names right served silent s'" "work s' = []" "active s' = active s"
    "number_of_entries s' = number_of_entries s"
    "tiles s' r = tiles s r \<or> tstate (tiles s r) = FILLING \<and> tstate (tiles s' r) = CANCELED"
proof -
  have d: "distinct (map fst (work s))" using wf by (simp add: pool_wf_def)
  have t: "tiles s' r = (if r \<in> fst ` set (work s) then canceled_tile rd (tiles s r) else tiles s r)" for r
    using cancel_queue_tiles [OF d, of L rd s] by (simp add: s'_def cancel_all_queued_fillers_def)
  have q: "tstate (tiles s r) = FILLING \<and> being_filled (tiles s r) = None" if "r \<in> fst ` set (work s)" for r
    using wf that by (auto simp: pool_wf_def)
  show "work s' = []" "active s' = active s" "number_of_entries s' = number_of_entries s"
    using cancel_queue_tiles [OF d, of L rd s] by (simp_all add: s'_def cancel_all_queued_fillers_def)
  then show "pool_wf ts names right served silent s'"
  proof (intro pool_wfI)
    show "tile_wf ts names right served l (tiles s' (l, k))" for l k
      using pool_wf_tile [OF wf, of l k] q [of "(l, k)"] by (auto simp: t tile_wf_def canceled_tile_def)
    show "(l, k) \<in> fst ` set (work s') \<or> silent l"
      if "tstate (tiles s' (l, k)) = FILLING" "being_filled (tiles s' (l, k)) = None" for l k
      using that wf by (auto simp: t canceled_tile_def pool_wf_def split: if_splits)
  qed auto
  show "tiles s' r = tiles s r \<or> tstate (tiles s r) = FILLING \<and> tstate (tiles s' r) = CANCELED"
    using q [of r] by (simp add: t canceled_tile_def)
qed

text \<open>The loop of \<^verbatim>\<open>clear()\<close> over the tiles.\<close>

lemma clear_slots_spec:
  fixes L rd l ks
  assumes "pool_wf ts names right served silent s" "work s = []"
  defines "s' \<equiv> fold (\<lambda>k s. if is_free (tiles s (l, k)) then s else drop_tile L rd ts filler (l, k) s) ks s"
  shows "pool_wf ts names right served silent s' \<and> work s' = [] \<and> others_kept l s s' \<and> active s' = active s \<and>
    (\<forall>k. (k \<in> set ks \<or> is_free (tiles s (l, k))) \<longrightarrow> is_free (tiles s' (l, k))) \<and>
    (\<forall>k. k \<notin> set ks \<longrightarrow> tiles s' (l, k) = tiles s (l, k))"
  using assms(1,2) unfolding s'_def
proof (induction ks arbitrary: s)
  case Nil then show ?case by (simp add: others_kept_refl)
next
  case (Cons k ks)
  let ?s1 = "if is_free (tiles s (l, k)) then s else drop_tile L rd ts filler (l, k) s"
  note d = drop_tile_spec [OF Cons.prems(1), where L = L and rd = rd and l = l and k = k]
  have 1: "pool_wf ts names right served silent ?s1" "work ?s1 = []" "others_kept l s ?s1" "active ?s1 = active s"
    "is_free (tiles ?s1 (l, k))" "\<And>j. j \<noteq> k \<Longrightarrow> tiles ?s1 (l, j) = tiles s (l, j)"
    using d Cons.prems by (auto simp: others_kept_refl only_tile_others only_tile_def)
  show ?case
    using Cons.IH [OF 1(1,2)] 1 by (fastforce intro: others_kept_trans)
qed

lemma clear_tiles_spec:
  fixes L rd l
  assumes wf: "pool_wf ts names right served silent s"
  defines "s' \<equiv> clear_tiles L rd ts filler l s"
  shows "pool_wf ts names right served silent s'" "work s' = []" "others_kept l s s'" "active s' l = (\<lambda>_. None)"
    "\<forall>k < 3. is_free (tiles s' (l, k))"
proof -
  define s1 where "s1 = cancel_all_queued_fillers L rd s"
  define s2 where "s2 = fold (\<lambda>k s. if is_free (tiles s (l, k)) then s else drop_tile L rd ts filler (l, k) s) [0, 1, 2] s1"
  note c = cancel_all_spec [OF wf, where L = L and rd = rd, folded s1_def]
  note f = clear_slots_spec [OF c(1,2), where l = l and L = L and rd = rd and ks = "[0, 1, 2]", folded s2_def]
  have s': "s' = s2\<lparr>active := (active s2)(l := (\<lambda>_. None))\<rparr>"
    by (simp add: s'_def clear_tiles_def Let_def s2_def s1_def drop_tile_def del: fold_simps)
  have "others_kept l s s1" using c(3-5) by (auto simp: others_kept_def)
  then have "others_kept l s s2" using f others_kept_trans by blast
  then show "others_kept l s s'" by (simp add: others_kept_def s')
  have "pool_wf ts names right served silent s2" using f by blast
  then show "pool_wf ts names right served silent s'" by (simp add: s' pool_wf_def)
  show "work s' = []" "active s' l = (\<lambda>_. None)" using f by (simp_all add: s')
  have "k \<in> set [0, 1, 2]" if "k < 3" for k :: nat using that by auto
  then have "is_free (tiles s2 (l, k))" if "k < 3" for k using f that by blast
  then show "\<forall>k < 3. is_free (tiles s' (l, k))" by (simp add: s')
qed

end

section \<open>Aligned indices\<close>

definition align :: "nat \<Rightarrow> nat \<Rightarrow> nat" where
  "align ts idx = idx - idx mod ts"

lemma align_le: "align ts idx \<le> idx" by (simp add: align_def)

lemma align_mod [simp]: "align ts idx mod ts = 0" by (simp add: align_def minus_mod_eq_mult_div)

lemma align_aligned [simp]: "b mod ts = 0 \<Longrightarrow> align ts b = b" by (simp add: align_def)

lemma less_align: "0 < ts \<Longrightarrow> idx < align ts idx + ts"
  by (simp add: align_def minus_mod_eq_mult_div) (metis add.commute mod_less_divisor mult_div_mod_eq nat_add_left_cancel_less)

lemma align_unique:
  assumes "b mod ts = 0" "b \<le> idx" "idx < b + ts"
  shows "b = align ts idx"
proof -
  obtain q where q: "b = ts * q" using assms(1) by (auto simp: mod_eq_0_iff_dvd)
  obtain j where j: "idx = b + j" "j < ts" using assms(2,3) by (metis le_Suc_ex nat_add_left_cancel_less)
  then have "idx mod ts = j" using q by simp
  then show ?thesis using j by (simp add: align_def)
qed

lemma is_tile_for_base:
  assumes "is_tile_for ts idx t" "base t mod ts = 0"
  shows "base t = align ts idx"
proof (rule align_unique [OF assms(2)])
  show "base t \<le> idx" using assms(1) by (simp add: is_tile_for_def)
  have "u32_wrap (base t + ts) \<le> base t + ts" by simp
  then show "idx < base t + ts" using assms(1) unfolding is_tile_for_def by linarith
qed

lemma is_tile_for_iff:
  assumes "0 < ts" "base t mod ts = 0" "base t + ts < 2 ^ 32"
  shows "is_tile_for ts idx t \<longleftrightarrow> base t = align ts idx"
proof
  assume "base t = align ts idx"
  then show "is_tile_for ts idx t"
    using assms(3) align_le [of ts idx] less_align [OF assms(1), of idx] by (simp add: is_tile_for_def)
qed (rule is_tile_for_base [OF _ assms(2)])

section \<open>Sliding\<close>

lemma all_locations: "(\<forall>loc. P loc) \<longleftrightarrow> P UP \<and> P CENTER \<and> P DOWN"
  by (metis location.exhaust)

definition opposite :: "location \<Rightarrow> location \<Rightarrow> bool" where
  "opposite a b \<longleftrightarrow> a = UP \<and> b = DOWN \<or> a = DOWN \<and> b = UP"

text \<open>The table of active tiles after a slide.\<close>

definition rotate :: "location \<Rightarrow> location \<Rightarrow> (location \<Rightarrow> 'x) \<Rightarrow> location \<Rightarrow> 'x" where
  "rotate push keep f = f(push := f CENTER, CENTER := f keep, keep := f push)"

lemma rotate_bij:
  assumes "opposite push keep"
  shows "(\<exists>a. rotate push keep f a = x) \<longleftrightarrow> (\<exists>a. f a = x)"
    "(\<forall>a b k. rotate push keep f a = Some k \<longrightarrow> rotate push keep f b = Some k \<longrightarrow> a = b) \<longleftrightarrow>
     (\<forall>a b k. f a = Some k \<longrightarrow> f b = Some k \<longrightarrow> a = b)"
proof -
  define p where "p = rotate push keep (\<lambda>a. a)"
  have fp: "rotate push keep f = f \<circ> p" for f :: "location \<Rightarrow> 'y"
    using assms by (auto simp: p_def rotate_def opposite_def fun_eq_iff split: location.splits)
  have "bij p"
    using assms by (intro o_bij [of "p \<circ> p"]) (auto simp: p_def rotate_def opposite_def fun_eq_iff)
  then show "(\<exists>a. rotate push keep f a = x) \<longleftrightarrow> (\<exists>a. f a = x)" unfolding fp comp_def by (metis bij_pointE)
  show "(\<forall>a b k. rotate push keep f a = Some k \<longrightarrow> rotate push keep f b = Some k \<longrightarrow> a = b) \<longleftrightarrow>
     (\<forall>a b k. f a = Some k \<longrightarrow> f b = Some k \<longrightarrow> a = b)" unfolding fp comp_def using \<open>bij p\<close> by (metis bij_pointE)
qed

lemma active_ok_rotate:
  assumes "active_ok l s" "opposite push keep" "active s' l = rotate push keep (active s l)"
    "\<And>k. k < 3 \<Longrightarrow> tstate (tiles s' (l, k)) = FREE \<longleftrightarrow> tstate (tiles s (l, k)) = FREE"
  shows "active_ok l s'"
proof -
  note inj = rotate_bij(2) [OF assms(2), of "active s l"]
  have bound: "(\<forall>a k. rotate push keep (active s l) a = Some k \<longrightarrow> k < 3) = (\<forall>a k. active s l a = Some k \<longrightarrow> k < 3)"
    using rotate_bij(1) [OF assms(2), where f = "active s l"] by metis
  show ?thesis
    using assms(1,4) unfolding active_ok_def assms(3) inj bound rotate_bij(1) [OF assms(2)] by simp
qed

definition slid :: "addr \<Rightarrow> location \<Rightarrow> location \<Rightarrow> 'd tile_pool \<Rightarrow> 'd tile_pool" where
  "slid l push keep s = s\<lparr>active := (active s)(l := rotate push keep (active s l))\<rparr>"

lemma slid_simps [simp]:
  "tiles (slid l push keep s) = tiles s" "work (slid l push keep s) = work s"
  "number_of_entries (slid l push keep s) = number_of_entries s"
  "active (slid l push keep s) l = rotate push keep (active s l)"
  by (simp_all add: slid_def)

lemma slid_others: "others_kept l s (slid l push keep s)"
  by (simp add: others_kept_def slid_def)

lemma slide_slid:
  "set_active l keep (active s l push) (set_active l CENTER (active s l keep) (set_active l push (active s l CENTER) s)) =
     slid l push keep s"
  by (simp add: slid_def set_active_def rotate_def)

context tile_filler
begin

lemma slid_wf: "pool_wf ts names right served silent (slid l push keep s) = pool_wf ts names right served silent s"
  by (simp add: pool_wf_def)

text \<open>A slide when all tiles are in use: the tile pushed out is filled anew, or stays when it is the
  tile that is needed.\<close>

lemma slide_full:
  assumes wf: "pool_wf ts names right served silent s" and ok: "active_ok l s" and i: "names i l"
    and o: "opposite push keep" and full: "\<forall>loc. active s l loc \<noteq> None"
  shows "\<exists>s'. slide L rd ts filler l i idx n push keep s = Some s' \<and> pool_wf ts names right served silent s' \<and> active_ok l s' \<and>
    others_kept l s s' \<and> active s' l = rotate push keep (active s l) \<and>
    view l s' = (rotate push keep (view l s))(keep := Some (align ts (index_in_adjacent_tile ts idx n (Some keep))))"
proof -
  obtain kp where kp: "active s l push = Some kp" using full by auto
  obtain kc where kc: "active s l CENTER = Some kc" using full by auto
  obtain kk where kk: "active s l keep = Some kk" using full by auto
  have ne: "kp \<noteq> kc" "kp \<noteq> kk" "kp < 3" "tstate (tiles s (l, kp)) \<noteq> FREE"
    using ok kp kc kk o unfolding active_ok_def opposite_def by (metis location.distinct)+
  define adj where "adj = index_in_adjacent_tile ts idx n (Some keep)"
  define s1 where "s1 = slid l push keep s"
  have act: "active s1 l CENTER = Some kk" "active s1 l keep = Some kp" "active s1 l push = Some kc"
    using o kp kc kk by (auto simp: s1_def rotate_def opposite_def)
  have wf1: "pool_wf ts names right served silent s1" and ot1: "others_kept l s s1"
    by (simp_all add: s1_def slid_wf wf slid_others)
  have vw: "view l s' = (rotate push keep (view l s))(keep := Some b)"
    if "active s' l = active s1 l" "\<And>k. k \<noteq> kp \<Longrightarrow> tiles s' (l, k) = tiles s (l, k)" "base (tiles s' (l, kp)) = b" for s' b
    using that o kp kc kk ne by (auto simp: view_def s1_def rotate_def opposite_def fun_eq_iff all_locations)
  show ?thesis
  proof (cases "is_tile_for ts adj (tiles s1 (l, kp))")
    case True
    have "slide L rd ts filler l i idx n push keep s = Some s1"
      using True kp by (simp add: slide_def Let_def adj_def s1_def slide_slid slide_slid [of l keep s push, unfolded kp])
    moreover have "active_ok l s1" by (rule active_ok_rotate [OF ok o]) (simp_all add: s1_def)
    moreover have "base (tiles s (l, kp)) = align ts adj"
      using True pool_wf_tile [OF wf, of l kp] by (intro is_tile_for_base) (auto simp: s1_def tile_wf_def)
    ultimately show ?thesis using wf1 ot1 vw [of s1] by (auto simp: s1_def adj_def)
  next
    case False
    define s2 where "s2 = drop_tile L rd ts filler (l, kp) s1"
    define s3 where "s3 = start_tile ts l i kp adj s2"
    note d = drop_tile_spec [OF wf1, where L = L and rd = rd and l = l and k = kp, folded s2_def]
    have a2: "active s2 l = active s1 l" using d(1) by (simp add: only_tile_def)
    have "slide L rd ts filler l i idx n push keep s = Some s3"
      using False kp act a2
      by (simp add: slide_def Let_def adj_def s3_def s2_def s1_def drop_tile_def slide_slid slide_slid [of l keep s push, unfolded kp])
    moreover have "pool_wf ts names right served silent s3" unfolding s3_def by (rule start_tile_wf [OF d(3) i d(4)])
    moreover have "others_kept l s s3"
      unfolding s3_def by (rule others_kept_trans [OF others_kept_trans [OF ot1 only_tile_others [OF d(1)]] start_tile_others])
    moreover have other: "tiles s3 (l, k) = tiles s (l, k)" if "k \<noteq> kp" for k
      using d(1) that by (simp add: s3_def only_tile_def s1_def)
    moreover have "active_ok l s3"
    proof (rule active_ok_rotate [OF ok o])
      show "active s3 l = rotate push keep (active s l)" using a2 by (simp add: s3_def s1_def)
      show "tstate (tiles s3 (l, k)) = FREE \<longleftrightarrow> tstate (tiles s (l, k)) = FREE" for k
        using other [of k] ne(4) by (cases "k = kp") (simp_all add: s3_def)
    qed
    moreover have "view l s3 = (rotate push keep (view l s))(keep := Some (align ts adj))"
      using other a2 by (intro vw) (auto simp: s3_def align_def)
    ultimately show ?thesis using a2 by (auto simp: s3_def s1_def adj_def)
  qed
qed

text \<open>A slide in a list of two tiles only moves them.\<close>

lemma slide_two:
  assumes "active_ok l s" "opposite push keep" "active s l push = None" "active s l keep \<noteq> None"
  shows "slide L rd ts filler l i idx n push keep s = Some (slid l push keep s) \<and> active_ok l (slid l push keep s) \<and>
    view l (slid l push keep s) = rotate push keep (view l s)"
proof -
  have "slide L rd ts filler l i idx n push keep s = Some (slid l push keep s)"
    using assms slide_slid [of l keep s push]
    by (auto simp: slide_def Let_def rotate_def opposite_def)
  moreover have "active_ok l (slid l push keep s)" by (rule active_ok_rotate [OF assms(1,2)]) simp_all
  moreover have "view l (slid l push keep s) = rotate push keep (view l s)"
    by (auto simp: view_def rotate_def fun_eq_iff)
  ultimately show ?thesis by simp
qed

end

end
