(* ===== verification/Tile_Prefetch.thy ===== *)
theory Tile_Prefetch
  imports Tile_Moves
begin

text \<open>
  Filling and prefetching: the number of active tiles always fits the size of the list, no free tile
  is ever missing, and the exception for an invalid direction is never thrown.
\<close>

definition shape_ok :: "nat \<Rightarrow> nat \<Rightarrow> addr \<Rightarrow> 'd tile_pool \<Rightarrow> bool" where
  "shape_ok ts n l s \<longleftrightarrow>
     tiles_empty l s \<or>
     0 < n \<and> active s l CENTER \<noteq> None \<and>
     (n \<le> ts \<longrightarrow> active s l UP = None \<and> active s l DOWN = None) \<and>
     (ts < n \<and> n \<le> 2 * ts \<longrightarrow> (active s l UP = None) \<noteq> (active s l DOWN = None)) \<and>
     (2 * ts < n \<longrightarrow> active s l UP \<noteq> None \<and> active s l DOWN \<noteq> None)"

lemma tiles_empty_iff: "tiles_empty l s \<longleftrightarrow> (\<forall>loc. active s l loc = None)"
  by (simp add: tiles_empty_def all_locations)

lemma others_kept_shape: "others_kept l s s' \<Longrightarrow> l' \<noteq> l \<Longrightarrow> shape_ok ts n l' s' = shape_ok ts n l' s"
  by (simp add: others_kept_def shape_ok_def tiles_empty_iff)

definition down_base :: "nat \<Rightarrow> nat \<Rightarrow> nat \<Rightarrow> nat" where
  "down_base ts n c = (if c < n - ts then u32_wrap (c + ts) else 0)"

definition up_base :: "nat \<Rightarrow> nat \<Rightarrow> nat \<Rightarrow> nat" where
  "up_base ts n c = (if c > 0 then c - ts else u32_wrap (n - 1))"

context tile_filler
begin

lemma fill_tiles_spec:
  assumes wf: "pool_wf ts names right served silent s" and i: "names i l"
  shows "pool_wf ts names right served silent (fill_tiles L rd ts filler l i c n s) \<and>
    active_ok l (fill_tiles L rd ts filler l i c n s) \<and> shape_ok ts n l (fill_tiles L rd ts filler l i c n s) \<and>
    others_kept l s (fill_tiles L rd ts filler l i c n s) \<and>
    view l (fill_tiles L rd ts filler l i c n s) = (\<lambda>loc. case loc of
        CENTER \<Rightarrow> if n = 0 then None else Some (align ts c)
      | DOWN \<Rightarrow> if n \<le> ts then None else Some (align ts (down_base ts n (align ts c)))
      | UP \<Rightarrow> if n \<le> 2 * ts then None else Some (align ts (up_base ts n (align ts c))))"
proof -
  define s0 where "s0 = clear_tiles L rd ts filler l s"
  define s1 where "s1 = start_tile ts l i 0 c (set_active l CENTER (Some 0) s0)"
  define s2 where "s2 = start_tile ts l i 1 (down_base ts n (align ts c)) (set_active l DOWN (Some 1) s1)"
  define s3 where "s3 = start_tile ts l i 2 (up_base ts n (align ts c)) (set_active l UP (Some 2) s2)"
  note c0 = clear_tiles_spec [OF wf, where L = L and rd = rd and l = l, folded s0_def]
  have free: "is_free (tiles s0 (l, 0))" "is_free (tiles s0 (l, 1))" "is_free (tiles s0 (l, 2))" using c0(5) by simp_all
  have wf1: "pool_wf ts names right served silent s1"
    unfolding s1_def using c0(1) i free by (intro start_tile_wf) (simp_all add: set_active_wf)
  then have wf2: "pool_wf ts names right served silent s2"
    unfolding s2_def using i free by (intro start_tile_wf) (simp_all add: set_active_wf s1_def)
  then have wf3: "pool_wf ts names right served silent s3"
    unfolding s3_def using i free by (intro start_tile_wf) (simp_all add: set_active_wf s1_def s2_def)
  have ot: "others_kept l s s1" "others_kept l s s2" "others_kept l s s3"
    using c0(3) by (simp_all add: s3_def s2_def s1_def others_kept_def)
  have f: "fill_tiles L rd ts filler l i c n s =
      (if n = 0 then s0 else if n \<le> ts then s1 else if n \<le> 2 * ts then s2 else s3)"
    by (simp add: fill_tiles_def Let_def s3_def s2_def s1_def s0_def up_base_def down_base_def align_def)
  have st: "tstate (tiles s0 (l, k)) = FREE" if "k < 3" for k using c0(5) that by (simp add: is_free_def)
  have k3: "(\<forall>k < 3. P k) \<longleftrightarrow> P 0 \<and> P 1 \<and> P (2 :: nat)" for P by (auto simp: numeral_3_eq_3 numeral_2_eq_2 less_Suc_eq)
  have ok: "active_ok l s0" "active_ok l s1" "active_ok l s2" "active_ok l s3"
    using c0(4) st by (auto simp: s3_def s2_def s1_def active_ok_def k3 split: if_splits)
  show ?thesis
    unfolding f using wf1 wf2 wf3 ot ok c0(1,3,4)
    by (auto simp: s3_def s2_def s1_def view_def shape_ok_def tiles_empty_iff fun_eq_iff all_locations align_def)
qed

end

section \<open>Several slides\<close>

text \<open>The bases after sliding up and down.\<close>

fun up_view :: "nat \<Rightarrow> nat \<Rightarrow> nat \<Rightarrow> nat \<Rightarrow> (location \<Rightarrow> nat option) \<Rightarrow> location \<Rightarrow> nat option" where
  "up_view ts n idx 0 v = v"
| "up_view ts n idx (Suc m) v = up_view ts n idx m
     ((rotate DOWN UP v)(UP := Some (align ts (index_in_adjacent_tile ts (u32_wrap (idx + m * ts)) n (Some UP)))))"

fun down_view :: "nat \<Rightarrow> nat \<Rightarrow> nat \<Rightarrow> nat \<Rightarrow> (location \<Rightarrow> nat option) \<Rightarrow> location \<Rightarrow> nat option" where
  "down_view ts n idx 0 v = v"
| "down_view ts n idx (Suc m) v = down_view ts n idx m
     ((rotate UP DOWN v)(DOWN := Some (align ts (index_in_adjacent_tile ts (u32_wrap (idx + 2 ^ 32 - m * ts)) n (Some DOWN)))))"

definition full :: "addr \<Rightarrow> 'd tile_pool \<Rightarrow> bool" where
  "full l s \<longleftrightarrow> (\<forall>loc. active s l loc \<noteq> None)"

lemma full_rotate: "opposite push keep \<Longrightarrow> active s' l = rotate push keep (active s l) \<Longrightarrow> full l s' = full l s"
  by (auto simp: full_def rotate_def opposite_def all_locations)

context tile_filler
begin

text \<open>What the moves of the tiles of a list keep.\<close>

definition moved :: "addr \<Rightarrow> 'd tile_pool \<Rightarrow> 'd tile_pool \<Rightarrow> bool" where
  "moved l s s' \<longleftrightarrow> pool_wf ts names right served silent s' \<and> active_ok l s' \<and> others_kept l s s'"

lemma slide_up_full:
  assumes "pool_wf ts names right served silent s" "active_ok l s" "names i l" "full l s"
  shows "\<exists>s'. slide_up L rd ts filler l i idx n m s = Some s' \<and> moved l s s' \<and> full l s' \<and>
    view l s' = up_view ts n idx m (view l s)"
  using assms
proof (induction m arbitrary: s)
  case 0 then show ?case by (simp add: moved_def others_kept_refl)
next
  case (Suc m)
  have o: "opposite DOWN UP" by (simp add: opposite_def)
  obtain s1 where s1: "slide L rd ts filler l i (u32_wrap (idx + m * ts)) n DOWN UP s = Some s1"
    "pool_wf ts names right served silent s1" "active_ok l s1" "others_kept l s s1" "active s1 l = rotate DOWN UP (active s l)"
    "view l s1 = (rotate DOWN UP (view l s))(UP := Some (align ts (index_in_adjacent_tile ts (u32_wrap (idx + m * ts)) n (Some UP))))"
    using slide_full [OF Suc.prems(1-3) o Suc.prems(4) [unfolded full_def], where L = L and rd = rd and n = n]
    by meson
  have "full l s1" using full_rotate [OF o s1(5)] Suc.prems(4) by simp
  then obtain s' where "slide_up L rd ts filler l i idx n m s1 = Some s'" "moved l s1 s'" "full l s'"
    "view l s' = up_view ts n idx m (view l s1)" using Suc.IH [OF s1(2,3) Suc.prems(3)] by auto
  then show ?case using s1 others_kept_trans by (auto simp: moved_def)
qed

lemma slide_down_full:
  assumes "pool_wf ts names right served silent s" "active_ok l s" "names i l" "full l s"
  shows "\<exists>s'. slide_down L rd ts filler l i idx n m s = Some s' \<and> moved l s s' \<and> full l s' \<and>
    view l s' = down_view ts n idx m (view l s)"
  using assms
proof (induction m arbitrary: s)
  case 0 then show ?case by (simp add: moved_def others_kept_refl)
next
  case (Suc m)
  have o: "opposite UP DOWN" by (simp add: opposite_def)
  obtain s1 where s1: "slide L rd ts filler l i (u32_wrap (idx + 2 ^ 32 - m * ts)) n UP DOWN s = Some s1"
    "pool_wf ts names right served silent s1" "active_ok l s1" "others_kept l s s1" "active s1 l = rotate UP DOWN (active s l)"
    "view l s1 = (rotate UP DOWN (view l s))(DOWN := Some (align ts (index_in_adjacent_tile ts (u32_wrap (idx + 2 ^ 32 - m * ts)) n (Some DOWN))))"
    using slide_full [OF Suc.prems(1-3) o Suc.prems(4) [unfolded full_def], where L = L and rd = rd and n = n]
    by meson
  have "full l s1" using full_rotate [OF o s1(5)] Suc.prems(4) by simp
  then obtain s' where "slide_down L rd ts filler l i idx n m s1 = Some s'" "moved l s1 s'" "full l s'"
    "view l s' = down_view ts n idx m (view l s1)" using Suc.IH [OF s1(2,3) Suc.prems(3)] by auto
  then show ?case using s1 others_kept_trans by (auto simp: moved_def)
qed

end

section \<open>The decision how to prefetch\<close>

lemma spanned_bounds:
  assumes "0 < ts" "0 < count"
  shows "1 \<le> number_of_spanned_tiles ts first count"
    "(number_of_spanned_tiles ts first count - 1) * ts \<le> first mod ts + count - 1"
    "first mod ts + count - 1 < number_of_spanned_tiles ts first count * ts"
  using assms dividend_less_div_times [of ts "first mod ts + count - 1"]
  by (simp_all add: number_of_spanned_tiles_def)

lemma spanned_le_3:
  assumes "0 < ts" "0 < count" "count + first mod ts \<le> maximum_number_of_hot_items ts"
  shows "number_of_spanned_tiles ts first count \<le> 3"
proof -
  have "(number_of_spanned_tiles ts first count - 1) * ts < 3 * ts"
    using spanned_bounds(2) [OF assms(1,2), of first] assms
    unfolding maximum_number_of_hot_items_def maximum_number_of_active_tiles_def by linarith
  then show ?thesis using assms(1) by simp
qed

lemma spanned_in_list:
  assumes "0 < ts" "0 < count" "first + count \<le> n"
  shows "(number_of_spanned_tiles ts first count - 1) * ts < n"
  using spanned_bounds(2) [OF assms(1,2), of first] assms(2,3) mod_less_eq_dividend [of first ts] by linarith

lemma contains_active: "contains ts l idx s = Some loc \<Longrightarrow> active s l loc \<noteq> None"
  unfolding contains_def find_Some_iff by (auto split: option.splits)

lemma contains_is_tile_for:
  "contains ts l idx s = Some loc \<Longrightarrow> \<exists>k. active s l loc = Some k \<and> is_tile_for ts idx (tiles s (l, k))"
  unfolding contains_def find_Some_iff by (auto split: option.splits)

text \<open>The direction and the number of slides.\<close>

lemma check_overlapping_cases:
  assumes "check_overlapping_range_for_prefetch ts l first count s = (d, req)"
    and sp: "1 \<le> number_of_spanned_tiles ts first count" "number_of_spanned_tiles ts first count \<le> 3"
  shows "case d of
      None \<Rightarrow> contains ts l first s = None \<and> req = 3
    | Some CENTER \<Rightarrow> active s l CENTER \<noteq> None \<and> req = 0
    | Some loc \<Rightarrow> active s l loc \<noteq> None \<and> req \<le> number_of_spanned_tiles ts first count - 1 \<or>
        active s l CENTER \<noteq> None \<and> req = 1 \<and> number_of_spanned_tiles ts first count = 3"
proof -
  have c: "(case d' of
      None \<Rightarrow> False
    | Some CENTER \<Rightarrow> active s l CENTER \<noteq> None \<and> r = 0
    | Some loc \<Rightarrow> active s l loc \<noteq> None \<and> r \<le> number_of_spanned_tiles ts first count - 1 \<or>
        active s l CENTER \<noteq> None \<and> r = 1 \<and> number_of_spanned_tiles ts first count = 3)"
    if "contains ts l idx s = Some x" "compute_number_of_required_slides (Some x) b (number_of_spanned_tiles ts first count) = (d', r)"
    for idx x b d' r
    using that(2) contains_active [OF that(1)] sp
    by (auto simp: compute_number_of_required_slides_def Let_def split: location.splits if_splits)
  show ?thesis
  proof (cases "contains ts l first s")
    case (Some x)
    then have "compute_number_of_required_slides (Some x) True (number_of_spanned_tiles ts first count) = (d, req)"
      using assms(1) by (simp add: check_overlapping_range_for_prefetch_def Let_def)
    then show ?thesis using c [OF Some] by (cases d) fastforce+
  next
    case None
    let ?last = "contains ts l (u32_wrap (first + count - 1)) s"
    show ?thesis
    proof (cases "number_of_spanned_tiles ts first count > 1 \<and> ?last \<noteq> None")
      case True
      then obtain x where x: "?last = Some x" by blast
      then have "compute_number_of_required_slides (Some x) False (number_of_spanned_tiles ts first count) = (d, req)"
        using assms(1) None True by (simp add: check_overlapping_range_for_prefetch_def Let_def)
      then show ?thesis using c [OF x] by (cases d) fastforce+
    next
      case False
      then have "d = None \<and> req = 3"
        using assms(1) None by (auto simp: check_overlapping_range_for_prefetch_def Let_def maximum_number_of_active_tiles_def)
      then show ?thesis using None by simp
    qed
  qed
qed

lemma full_shape: "full l s \<Longrightarrow> 2 * ts < n \<Longrightarrow> shape_ok ts n l s"
  by (auto simp: full_def shape_ok_def)

lemma shape_full: "shape_ok ts n l s \<Longrightarrow> 2 * ts < n \<Longrightarrow> active s l loc \<noteq> None \<Longrightarrow> full l s"
  by (cases loc) (auto simp: full_def shape_ok_def tiles_empty_iff all_locations)

context tile_filler
begin

lemma slid_moved:
  assumes "pool_wf ts names right served silent s" "active_ok l s" "shape_ok ts n l s" "opposite push keep" "active s l push = None"
    "active s l keep \<noteq> None"
  shows "moved l s (slid l push keep s) \<and> shape_ok ts n l (slid l push keep s)"
proof -
  have "active_ok l (slid l push keep s)" by (rule active_ok_rotate [OF assms(2,4)]) simp_all
  then show ?thesis
    using assms by (auto simp: moved_def slid_wf slid_others shape_ok_def tiles_empty_iff rotate_def opposite_def)
qed

lemma slide_up_moved:
  assumes s: "pool_wf ts names right served silent s" "active_ok l s" "names i l" "shape_ok ts n l s"
    and m: "2 * ts < n \<and> active s l loc \<noteq> None \<or> n \<le> 2 * ts \<and> m = 1 \<and> active s l UP \<noteq> None"
  shows "\<exists>s'. slide_up L rd ts filler l i idx n m s = Some s' \<and> moved l s s' \<and> shape_ok ts n l s'"
  using m
proof
  assume "2 * ts < n \<and> active s l loc \<noteq> None"
  then show ?thesis
    using slide_up_full [OF s(1-3) shape_full [OF s(4)], where L = L and rd = rd and n = n and idx = idx] full_shape by blast
next
  assume n: "n \<le> 2 * ts \<and> m = 1 \<and> active s l UP \<noteq> None"
  then have "active s l DOWN = None" using s(4) by (auto simp: shape_ok_def tiles_empty_iff)
  then show ?thesis
    using n slide_two [OF s(2), of DOWN UP L rd i "u32_wrap idx" n] slid_moved [OF s(1,2,4), of DOWN UP]
    by (auto simp: opposite_def)
qed

lemma slide_down_moved:
  assumes s: "pool_wf ts names right served silent s" "active_ok l s" "names i l" "shape_ok ts n l s"
    and m: "2 * ts < n \<and> active s l loc \<noteq> None \<or> n \<le> 2 * ts \<and> m = 1 \<and> active s l DOWN \<noteq> None"
  shows "\<exists>s'. slide_down L rd ts filler l i idx n m s = Some s' \<and> moved l s s' \<and> shape_ok ts n l s'"
  using m
proof
  assume "2 * ts < n \<and> active s l loc \<noteq> None"
  then show ?thesis
    using slide_down_full [OF s(1-3) shape_full [OF s(4)], where L = L and rd = rd and n = n and idx = idx] full_shape by blast
next
  assume n: "n \<le> 2 * ts \<and> m = 1 \<and> active s l DOWN \<noteq> None"
  then have "active s l UP = None" using s(4) by (auto simp: shape_ok_def tiles_empty_iff)
  then show ?thesis
    using n slide_two [OF s(2), of UP DOWN L rd i "u32_wrap (idx + 2 ^ 32)" n] slid_moved [OF s(1,2,4), of UP DOWN]
    by (auto simp: opposite_def)
qed

lemma prefetch_moved:
  assumes s: "pool_wf ts names right served silent s" "active_ok l s" "names i l" "shape_ok ts n l s" and range: "first + count \<le> n"
  shows "\<exists>s' b. prefetch L rd ts filler l i first count n auto s = Some (s', Inr b) \<and> moved l s s' \<and> shape_ok ts n l s'"
proof (cases "count = 0 \<or> count + first mod ts > maximum_number_of_hot_items ts")
  case True then show ?thesis using s by (auto simp: prefetch_def moved_def others_kept_refl)
next
  case False
  define sp where "sp = number_of_spanned_tiles ts first count"
  obtain d req where ck: "check_overlapping_range_for_prefetch ts l first count s = (d, req)" by (rule prod.exhaust)
  have sp: "1 \<le> sp" "sp \<le> 3" "(sp - 1) * ts < n"
    using False ts_pos spanned_bounds(1) spanned_le_3 spanned_in_list range by (auto simp: sp_def)
  note dec = check_overlapping_cases [OF ck, folded sp_def, OF sp(1,2)]
  have big: "2 * ts < n" if "sp = 3" using sp(3) that by simp
  have small: "sp - 1 \<le> 1" if "n \<le> 2 * ts" using sp(3) that ts_pos
    by (cases "sp = 3") (use big that sp(2) in auto)
  have keep: "moved l s s" using s by (simp add: moved_def others_kept_refl)
  note pf = prefetch_def Let_def ck sp_def [symmetric]
  show ?thesis
  proof (cases d)
    case None
    then show ?thesis
      using dec False fill_tiles_spec [OF s(1,3), where L = L and rd = rd and n = n] by (auto simp: pf moved_def)
  next
    case (Some loc)
    show ?thesis
    proof (cases "req = 0 \<and> \<not> (auto \<and> (d = Some UP \<or> d = Some DOWN))")
      case True then show ?thesis using False keep s(4) by (auto simp: pf)
    next
      case go: False
      define m where "m = (if req = 0 then 1 else req)"
      define c where "c = prefetch_center_index ts first sp d m auto"
      have eq: "prefetch L rd ts filler l i first count n auto s = (case d of
            Some CENTER \<Rightarrow> Some (s, Inl ERR_INTERNAL)
          | Some UP \<Rightarrow> map_option (\<lambda>s'. (s', Inr True)) (slide_up L rd ts filler l i c n m s)
          | Some DOWN \<Rightarrow> map_option (\<lambda>s'. (s', Inr True)) (slide_down L rd ts filler l i c n m s)
          | None \<Rightarrow> Some (fill_tiles L rd ts filler l i c n s, Inr True))"
        using False go by (auto simp: pf m_def c_def split: option.split location.split)
      have slides: "2 * ts < n \<and> (\<exists>loc. active s l loc \<noteq> None) \<or> n \<le> 2 * ts \<and> m = 1 \<and> active s l x \<noteq> None"
        if "active s l x \<noteq> None \<and> req \<le> sp - 1 \<or> active s l CENTER \<noteq> None \<and> req = 1 \<and> sp = 3" for x
        using that small big by (cases "2 * ts < n") (auto simp: m_def)
      show ?thesis
      proof (cases loc)
        case UP
        have "2 * ts < n \<and> (\<exists>loc. active s l loc \<noteq> None) \<or> n \<le> 2 * ts \<and> m = 1 \<and> active s l UP \<noteq> None"
          using slides [of UP] dec Some UP by simp
        then obtain s' where "slide_up L rd ts filler l i c n m s = Some s'" "moved l s s'" "shape_ok ts n l s'"
          using slide_up_moved [OF s] by blast
        then show ?thesis using go Some UP by (auto simp: eq)
      next
        case DOWN
        have "2 * ts < n \<and> (\<exists>loc. active s l loc \<noteq> None) \<or> n \<le> 2 * ts \<and> m = 1 \<and> active s l DOWN \<noteq> None"
          using slides [of DOWN] dec Some DOWN by simp
        then obtain s' where "slide_down L rd ts filler l i c n m s = Some s'" "moved l s s'" "shape_ok ts n l s'"
          using slide_down_moved [OF s] by blast
        then show ?thesis using go Some DOWN by (auto simp: eq)
      next
        case CENTER then show ?thesis using dec go Some by simp
      qed
    qed
  qed
qed

end

end
