(* ===== verification/Tiled_List.thy ===== *)
theory Tiled_List
  imports Tile_Prefetch
begin

text \<open>
  Lists managed in tiles (\<^verbatim>\<open>TiledList\<close> in \<^verbatim>\<open>src/common/lists.hh\<close>), the iterator over tiles
  (\<^verbatim>\<open>ListTiles_::const_iterator\<close>) and \<^verbatim>\<open>for_each_item()\<close>. A reader that blocks gives the workers
  time: the parameter \<open>run\<close> is what they do meanwhile. \<open>None\<close> stands for a reader that blocks
  forever and for undefined behaviour; the left case of a result is an exception.
\<close>

section \<open>The iterator\<close>

record tile_iter =
  last_tile :: "location option"
  which_tile :: "location option"
  iter_idx :: nat
  first_list_error :: list_error

definition determine_last_tile :: "location option \<Rightarrow> location option" where
  "determine_last_tile first =
     (case first of Some DOWN \<Rightarrow> Some CENTER | Some UP \<Rightarrow> Some DOWN | Some CENTER \<Rightarrow> Some UP | None \<Rightarrow> None)"

definition put_list_error :: "list_error \<Rightarrow> tile_iter \<Rightarrow> tile_iter" where
  "put_list_error e it = (if first_list_error it = ERR_OK then it\<lparr>first_list_error := e\<rparr> else it)"

definition get_list_error_code :: "tile_iter \<Rightarrow> list_error" where
  "get_list_error_code it = (if first_list_error it \<noteq> ERR_OK then first_list_error it else ERR_INTERNAL)"

definition next_tile :: "tile_iter \<Rightarrow> tile_iter \<times> bool" where
  "next_tile it =
     (let w = (if which_tile it = None \<or> which_tile it = last_tile it then None else which_tile it)
      in (case w of
            None \<Rightarrow> (it\<lparr>iter_idx := 0, which_tile := None\<rparr>, False)
          | Some DOWN \<Rightarrow> (it\<lparr>iter_idx := 0, which_tile := Some UP\<rparr>, True)
          | Some UP \<Rightarrow> (it\<lparr>iter_idx := 0, which_tile := Some CENTER\<rparr>, True)
          | Some CENTER \<Rightarrow> (it\<lparr>iter_idx := 0, which_tile := Some DOWN\<rparr>, True)))"

text \<open>The size of the tile the iterator is in, once it is not being filled any more.\<close>

definition current_size :: "addr \<Rightarrow> tile_iter \<Rightarrow> 'd tile_pool \<Rightarrow> (list_error + nat) option" where
  "current_size l it s =
     (case which_tile it of
        None \<Rightarrow> None
      | Some w \<Rightarrow> (case active s l w of None \<Rightarrow> None | Some k \<Rightarrow> tile_size_of (tiles s (l, k))))"

definition iter_step ::
  "('d tile_pool \<Rightarrow> 'd tile_pool) \<Rightarrow> addr \<Rightarrow> tile_iter \<Rightarrow> 'd tile_pool \<Rightarrow> ('d tile_pool \<times> tile_iter \<times> bool) option" where
  "iter_step run l it s =
     (let s' = run s; it' = it\<lparr>iter_idx := (iter_idx it + 1) mod 2 ^ 16\<rparr>
      in (case current_size l it s' of
            None \<Rightarrow> None
          | Some (Inr n) \<Rightarrow> Some (s', if iter_idx it' < n then (it', True) else next_tile it')
          | Some (Inl e) \<Rightarrow> Some (s', next_tile (put_list_error e it'))))"

text \<open>Each round of the loop moves on to the next tile, or is followed by the last one; with the
  three tiles, four rounds are enough (\<open>find_first_total\<close>).\<close>

definition find_first_rounds :: nat where
  "find_first_rounds = 4"

fun find_first ::
  "nat \<Rightarrow> ('d tile_pool \<Rightarrow> 'd tile_pool) \<Rightarrow> addr \<Rightarrow> tile_iter \<Rightarrow> 'd tile_pool \<Rightarrow> ('d tile_pool \<times> tile_iter) option" where
  "find_first 0 run l it s = None"
| "find_first (Suc fuel) run l it s =
     (case which_tile it of
        None \<Rightarrow> Some (s, it)
      | Some w \<Rightarrow>
          if active s l w = None then find_first fuel run l (fst (next_tile it)) s
          else
            let s' = run s
            in (case current_size l it s' of
                  None \<Rightarrow> None
                | Some (Inr n) \<Rightarrow>
                    if iter_idx it < n then Some (s', it)
                    else (case iter_step run l it s' of None \<Rightarrow> None | Some (s'', it', _) \<Rightarrow> find_first fuel run l it' s'')
                | Some (Inl e) \<Rightarrow> find_first fuel run l (fst (next_tile (put_list_error e it))) s'))"

definition mk_iterator ::
  "('d tile_pool \<Rightarrow> 'd tile_pool) \<Rightarrow> addr \<Rightarrow> nat \<Rightarrow> location option \<Rightarrow> 'd tile_pool \<Rightarrow> ('d tile_pool \<times> tile_iter) option" where
  "mk_iterator run l idx which s =
     map_option (\<lambda>(s', it). (s', if which_tile it \<noteq> None then it\<lparr>iter_idx := idx\<rparr> else it))
       (find_first find_first_rounds run l
          \<lparr>last_tile = determine_last_tile which, which_tile = which, iter_idx = 0, first_list_error = ERR_OK\<rparr> s)"

definition iter_next ::
  "('d tile_pool \<Rightarrow> 'd tile_pool) \<Rightarrow> addr \<Rightarrow> tile_iter \<Rightarrow> 'd tile_pool \<Rightarrow> (list_error + 'd tile_pool \<times> tile_iter) option" where
  "iter_next run l it s =
     (if which_tile it = None then Some (Inl (get_list_error_code it))
      else (case iter_step run l it s of
              None \<Rightarrow> None
            | Some (s', it', again) \<Rightarrow>
                if again then map_option Inr (find_first find_first_rounds run l it' s') else Some (Inr (s', it'))))"

definition iter_deref ::
  "('d tile_pool \<Rightarrow> 'd tile_pool) \<Rightarrow> addr \<Rightarrow> tile_iter \<Rightarrow> 'd tile_pool \<Rightarrow> ('d tile_pool \<times> (list_error + 'd list_item)) option" where
  "iter_deref run l it s =
     (case which_tile it of
        None \<Rightarrow> Some (s, Inl (get_list_error_code it))
      | Some w \<Rightarrow>
          let s' = run s
          in (case active s' l w of
                None \<Rightarrow> None
              | Some k \<Rightarrow> map_option (\<lambda>r. (s', r)) (get_list_item_by_raw_index (iter_idx it) (tiles s' (l, k)))))"

definition get_item_id :: "addr \<Rightarrow> tile_iter \<Rightarrow> 'd tile_pool \<Rightarrow> nat option" where
  "get_item_id l it s =
     (case which_tile it of
        None \<Rightarrow> None
      | Some w \<Rightarrow> map_option (\<lambda>k. u32_wrap (base (tiles s (l, k)) + iter_idx it)) (active s l w))"

definition tiles_begin_at ::
  "('d tile_pool \<Rightarrow> 'd tile_pool) \<Rightarrow> nat \<Rightarrow> addr \<Rightarrow> nat \<Rightarrow> 'd tile_pool \<Rightarrow> ('d tile_pool \<times> tile_iter) option" where
  "tiles_begin_at run ts l first s = mk_iterator run l (first mod ts) (contains ts l first s) s"

definition tiles_begin ::
  "('d tile_pool \<Rightarrow> 'd tile_pool) \<Rightarrow> addr \<Rightarrow> 'd tile_pool \<Rightarrow> ('d tile_pool \<times> tile_iter) option" where
  "tiles_begin run l s = mk_iterator run l 0 (Some UP) s"

section \<open>Tiled lists\<close>

definition prefetch_range ::
  "ctx_layout \<Rightarrow> ('d \<Rightarrow> 'd) \<Rightarrow> nat \<Rightarrow> 'd filler \<Rightarrow> addr \<Rightarrow> list_id \<Rightarrow> nat \<Rightarrow> nat \<Rightarrow>
   'd tile_pool \<Rightarrow> ('d tile_pool \<times> (list_error + bool)) option" where
  "prefetch_range L rd ts filler l i first count s =
     prefetch L rd ts filler l i first count (number_of_entries s l) False s"

text \<open>Item IDs are always valid, so the error for an invalid ID does not occur.\<close>

definition materialize ::
  "ctx_layout \<Rightarrow> ('d \<Rightarrow> 'd) \<Rightarrow> nat \<Rightarrow> 'd filler \<Rightarrow> addr \<Rightarrow> list_id \<Rightarrow> nat \<Rightarrow>
   'd tile_pool \<Rightarrow> ('d tile_pool \<times> (list_error + unit)) option" where
  "materialize L rd ts filler l i idx s =
     (if idx \<ge> number_of_entries s l then Some (s, Inl ERR_INTERNAL)
      else map_option (\<lambda>(s', r). (s', case r of Inl e \<Rightarrow> Inl e | Inr b \<Rightarrow> if b then Inr () else Inl ERR_OK))
             (prefetch L rd ts filler l i idx 1 (number_of_entries s l) True s))"

definition tiled_list_at ::
  "ctx_layout \<Rightarrow> ('d \<Rightarrow> 'd) \<Rightarrow> nat \<Rightarrow> 'd filler \<Rightarrow> ('d tile_pool \<Rightarrow> 'd tile_pool) \<Rightarrow> addr \<Rightarrow> list_id \<Rightarrow> nat \<Rightarrow>
   'd tile_pool \<Rightarrow> ('d tile_pool \<times> (list_error + 'd list_item)) option" where
  "tiled_list_at L rd ts filler run l i idx s =
     (case materialize L rd ts filler l i idx s of
        None \<Rightarrow> None
      | Some (s', Inl e) \<Rightarrow> Some (s', Inl e)
      | Some (s', Inr _) \<Rightarrow> let s'' = run s' in map_option (\<lambda>r. (s'', r)) (get_list_item_unsafe l idx s''))"

definition deferred_set_size :: "addr \<Rightarrow> nat \<Rightarrow> 'd tile_pool \<Rightarrow> 'd tile_pool" where
  "deferred_set_size l n s = s\<lparr>number_of_entries := (number_of_entries s)(l := n)\<rparr>"

definition clear_all ::
  "ctx_layout \<Rightarrow> ('d \<Rightarrow> 'd) \<Rightarrow> nat \<Rightarrow> 'd filler \<Rightarrow> addr \<Rightarrow> 'd tile_pool \<Rightarrow> 'd tile_pool" where
  "clear_all L rd ts filler l s =
     (let s' = clear_tiles L rd ts filler l s in s'\<lparr>number_of_entries := (number_of_entries s')(l := 0)\<rparr>)"

text \<open>The loops that look for a child visit the items of the three tiles; the fuel is their number
  and one.\<close>

fun find_child ::
  "nat \<Rightarrow> ('d tile_pool \<Rightarrow> 'd tile_pool) \<Rightarrow> addr \<Rightarrow> list_id \<Rightarrow> tile_iter \<Rightarrow> 'd tile_pool \<Rightarrow>
   ('d tile_pool \<times> (list_error + ('d list_item \<times> nat) option)) option" where
  "find_child 0 run l child_id it s = None"
| "find_child (Suc fuel) run l child_id it s =
     (if which_tile it = None \<and> iter_idx it = 0 then Some (s, Inr None)
      else (case iter_deref run l it s of
              None \<Rightarrow> None
            | Some (s', Inl e) \<Rightarrow> Some (s', Inl e)
            | Some (s', Inr item) \<Rightarrow>
                if child item = child_id
                then map_option (\<lambda>j. (s', Inr (Some (item, j)))) (get_item_id l it s')
                else (case iter_next run l it s' of
                        None \<Rightarrow> None
                      | Some (Inl e) \<Rightarrow> Some (s', Inl e)
                      | Some (Inr (s'', it')) \<Rightarrow> find_child fuel run l child_id it' s'')))"

definition tiled_lookup_child ::
  "('d tile_pool \<Rightarrow> 'd tile_pool) \<Rightarrow> nat \<Rightarrow> addr \<Rightarrow> list_id \<Rightarrow> 'd tile_pool \<Rightarrow>
   ('d tile_pool \<times> (list_error + ('d list_item \<times> nat) option)) option" where
  "tiled_lookup_child run ts l child_id s =
     (case tiles_begin run l s of
        None \<Rightarrow> None
      | Some (s', it) \<Rightarrow> find_child (maximum_number_of_hot_items ts + 1) run l child_id it s')"

section \<open>Iteration over a range\<close>

text \<open>\<open>apply\<close> is the function called for each item; it works on a value of its own and tells
  whether to continue.\<close>

fun cached_loop ::
  "('d tile_pool \<Rightarrow> 'd tile_pool) \<Rightarrow> addr \<Rightarrow> (nat \<Rightarrow> 'd list_item \<Rightarrow> 'b \<Rightarrow> 'b \<times> bool) \<Rightarrow> nat list \<Rightarrow>
   tile_iter \<Rightarrow> 'd tile_pool \<Rightarrow> 'b \<Rightarrow> ('d tile_pool \<times> 'b \<times> list_error) option" where
  "cached_loop run l f [] it s acc = Some (s, acc, ERR_OK)"
| "cached_loop run l f (i # is) it s acc =
     (case iter_deref run l it s of
        None \<Rightarrow> None
      | Some (s1, Inl e) \<Rightarrow> Some (s1, acc, e)
      | Some (s1, Inr item) \<Rightarrow>
          (case iter_next run l it s1 of
             None \<Rightarrow> None
           | Some (Inl e) \<Rightarrow> Some (s1, acc, e)
           | Some (Inr (s2, it')) \<Rightarrow>
               (case f i item acc of
                  (acc', True) \<Rightarrow> cached_loop run l f is it' s2 acc'
                | (acc', False) \<Rightarrow> Some (s2, acc', ERR_OK))))"

fun subscript_loop ::
  "(nat \<Rightarrow> 's \<Rightarrow> ('s \<times> (list_error + 'd list_item)) option) \<Rightarrow> (nat \<Rightarrow> 'd list_item \<Rightarrow> 'b \<Rightarrow> 'b \<times> bool) \<Rightarrow> nat list \<Rightarrow>
   's \<Rightarrow> 'b \<Rightarrow> ('s \<times> 'b \<times> list_error) option" where
  "subscript_loop at f [] s acc = Some (s, acc, ERR_OK)"
| "subscript_loop at f (i # is) s acc =
     (case at i s of
        None \<Rightarrow> None
      | Some (s1, Inl e) \<Rightarrow> Some (s1, acc, e)
      | Some (s1, Inr item) \<Rightarrow>
          (case f i item acc of
             (acc', True) \<Rightarrow> subscript_loop at f is s1 acc'
           | (acc', False) \<Rightarrow> Some (s1, acc', ERR_OK)))"

definition range_end :: "nat \<Rightarrow> nat \<Rightarrow> nat \<Rightarrow> nat" where
  "range_end first count n = (if count > 0 then min (first + count) n else n)"

text \<open>The list is \<open>None\<close> for a null pointer.\<close>

definition for_each_item_tiled ::
  "ctx_layout \<Rightarrow> ('d \<Rightarrow> 'd) \<Rightarrow> nat \<Rightarrow> 'd filler \<Rightarrow> ('d tile_pool \<Rightarrow> 'd tile_pool) \<Rightarrow> addr option \<Rightarrow> list_id \<Rightarrow> nat \<Rightarrow> nat \<Rightarrow>
   (nat \<Rightarrow> 'd list_item \<Rightarrow> 'b \<Rightarrow> 'b \<times> bool) \<Rightarrow> 'd tile_pool \<Rightarrow> 'b \<Rightarrow> ('d tile_pool \<times> 'b \<times> list_error) option" where
  "for_each_item_tiled L rd ts filler run lst i first count f s acc =
     (case lst of
        None \<Rightarrow> Some (s, acc, ERR_INVALID_ID)
      | Some l \<Rightarrow>
          let bound = range_end first count (number_of_entries s l)
          in if first \<ge> bound then Some (s, acc, ERR_OK)
             else (case prefetch_range L rd ts filler l i first (u32_wrap bound - first) s of
                     None \<Rightarrow> None
                   | Some (s', Inl e) \<Rightarrow> Some (s', acc, e)
                   | Some (s', Inr True) \<Rightarrow>
                       (case tiles_begin_at run ts l first s' of
                          None \<Rightarrow> None
                        | Some (s'', it) \<Rightarrow> cached_loop run l f [first..<bound] it s'' acc)
                   | Some (s', Inr False) \<Rightarrow>
                       subscript_loop (tiled_list_at L rd ts filler run l i) f [first..<bound] s' acc))"

definition flat_list_at :: "'d flat_list \<Rightarrow> nat \<Rightarrow> unit \<Rightarrow> (unit \<times> (list_error + 'd list_item)) option" where
  "flat_list_at xs idx _ = (if idx < length xs then Some ((), Inr (xs ! idx)) else None)"

definition for_each_item_flat ::
  "'d flat_list option \<Rightarrow> nat \<Rightarrow> nat \<Rightarrow> (nat \<Rightarrow> 'd list_item \<Rightarrow> 'b \<Rightarrow> 'b \<times> bool) \<Rightarrow> 'b \<Rightarrow> ('b \<times> list_error) option" where
  "for_each_item_flat lst first count f acc =
     (case lst of
        None \<Rightarrow> Some (acc, ERR_INVALID_ID)
      | Some xs \<Rightarrow>
          let bound = range_end first count (length xs)
          in if first \<ge> bound then Some (acc, ERR_OK)
             else map_option snd (subscript_loop (flat_list_at xs) f [first..<bound] () acc))"

end
