(* ===== verification/Tile_Steps.thy ===== *)
theory Tile_Steps
  imports Tiled_List
begin

text \<open>
  The threads and the reader as a transition system: workers take tiles from the queue and finish
  them, the reader prefetches, clears, sizes a list and changes the links of items. The invariant
  holds in all reachable states, workers come to rest, and at rest no tile is left unfilled.
\<close>

section \<open>Steps\<close>

inductive worker_step ::
  "ctx_layout \<Rightarrow> ('d \<Rightarrow> 'd) \<Rightarrow> nat \<Rightarrow> 'd filler \<Rightarrow> 'd tile_pool \<Rightarrow> 'd tile_pool \<Rightarrow> bool"
  for L rd ts filler where
  take: "worker_take s = Some s' \<Longrightarrow> worker_step L rd ts filler s s'"
| finish: "being_filled (tiles s r) \<noteq> None \<Longrightarrow> worker_step L rd ts filler s (worker_done L rd ts filler r s)"

text \<open>The reader sets the child list of an item, or forgets it.\<close>

definition set_tile_child :: "tile_ref \<Rightarrow> nat \<Rightarrow> list_id \<Rightarrow> 'd tile_pool \<Rightarrow> 'd tile_pool" where
  "set_tile_child r j c s =
     (let t = tiles s r in set_tile r (t\<lparr>items := (items t)[j := set_child_list c (items t ! j)]\<rparr>) s)"

definition fresh_pool :: "nat \<Rightarrow> 'd tile_pool \<Rightarrow> bool" where
  "fresh_pool ts s \<longleftrightarrow>
     (\<forall>r. \<exists>its. tiles s r = mk_tile its \<and> length its = ts) \<and> work s = [] \<and> active s = (\<lambda>_ _. None)"

inductive pool_reach ::
  "ctx_layout \<Rightarrow> ('d \<Rightarrow> 'd) \<Rightarrow> nat \<Rightarrow> 'd filler \<Rightarrow> (list_id \<Rightarrow> addr \<Rightarrow> bool) \<Rightarrow> 'd tile_pool \<Rightarrow> bool"
  for L rd ts filler names where
  start: "fresh_pool ts s \<Longrightarrow> pool_reach L rd ts filler names s"
| worker: "pool_reach L rd ts filler names s \<Longrightarrow> worker_step L rd ts filler s s' \<Longrightarrow>
    pool_reach L rd ts filler names s'"
| prefetched: "pool_reach L rd ts filler names s \<Longrightarrow> names i l \<Longrightarrow> first + count \<le> number_of_entries s l \<Longrightarrow>
    prefetch L rd ts filler l i first count (number_of_entries s l) auto s = Some (s', res) \<Longrightarrow>
    pool_reach L rd ts filler names s'"
| cleared: "pool_reach L rd ts filler names s \<Longrightarrow> pool_reach L rd ts filler names (clear_all L rd ts filler l s)"
| sized: "pool_reach L rd ts filler names s \<Longrightarrow> number_of_entries s l = 0 \<Longrightarrow> tiles_empty l s \<Longrightarrow>
    pool_reach L rd ts filler names (deferred_set_size l n s)"
| linked: "pool_reach L rd ts filler names s \<Longrightarrow> tstate (tiles s r) = READY \<Longrightarrow>
    pool_reach L rd ts filler names (set_tile_child r j c s)"

definition pool_inv ::
  "nat \<Rightarrow> (list_id \<Rightarrow> addr \<Rightarrow> bool) \<Rightarrow> (addr \<Rightarrow> nat \<Rightarrow> 'd \<Rightarrow> bool) \<Rightarrow> (addr \<Rightarrow> nat \<Rightarrow> bool) \<Rightarrow>
   (addr \<Rightarrow> bool) \<Rightarrow> 'd tile_pool \<Rightarrow> bool" where
  "pool_inv ts names right served silent s \<longleftrightarrow>
     pool_wf ts names right served silent s \<and> (\<forall>l. active_ok l s \<and> shape_ok ts (number_of_entries s l) l s)"

section \<open>Worker steps\<close>

text \<open>What worker steps keep of a tile.\<close>

definition tile_settles :: "'d tile \<Rightarrow> 'd tile \<Rightarrow> bool" where
  "tile_settles t t' \<longleftrightarrow>
     (tstate t = FREE \<longleftrightarrow> tstate t' = FREE) \<and>
     (tstate t \<noteq> FILLING \<longrightarrow> t' = t) \<and>
     (tstate t' \<in> {FILLING, READY} \<longrightarrow> base t' = base t)"

lemma tile_settles_refl: "tile_settles t t"
  by (simp add: tile_settles_def)

lemma tile_settles_trans: "tile_settles t t1 \<Longrightarrow> tile_settles t1 t2 \<Longrightarrow> tile_settles t t2"
  by (auto simp: tile_settles_def)

definition settles :: "'d tile_pool \<Rightarrow> 'd tile_pool \<Rightarrow> bool" where
  "settles s s' \<longleftrightarrow> active s' = active s \<and> number_of_entries s' = number_of_entries s \<and>
     (\<forall>r. tile_settles (tiles s r) (tiles s' r))"

lemma settles_refl: "settles s s"
  by (simp add: settles_def tile_settles_refl)

lemma settles_trans: "settles s s1 \<Longrightarrow> settles s1 s2 \<Longrightarrow> settles s s2"
  unfolding settles_def by (metis tile_settles_trans)

lemma settles_active_ok: "settles s s' \<Longrightarrow> active_ok l s' = active_ok l s"
  unfolding settles_def active_ok_def tile_settles_def by simp

lemma settles_shape: "settles s s' \<Longrightarrow> shape_ok ts n l s' = shape_ok ts n l s"
  by (simp add: settles_def shape_ok_def tiles_empty_iff)

context tile_filler
begin

lemma worker_take_settles:
  assumes "pool_wf ts names right served silent s" "worker_take s = Some s'"
  shows "settles s s'"
proof -
  obtain r i ws where w: "work s = (r, i) # ws" "s' = set_tile r ((tiles s r)\<lparr>being_filled := Some i\<rparr>) (s\<lparr>work := ws\<rparr>)"
    using assms(2) by (auto simp: worker_take_def split: list.splits)
  then have "tstate (tiles s r) = FILLING" using assms(1) by (cases r) (auto simp: pool_wf_def)
  then show ?thesis using w by (auto simp: settles_def tile_settles_def)
qed

lemma worker_done_settles:
  assumes wf: "pool_wf ts names right served silent s" and b: "being_filled (tiles s r) \<noteq> None"
  shows "settles s (worker_done L rd ts filler r s)"
proof -
  obtain l k where r: "r = (l, k)" by (rule prod.exhaust)
  let ?s' = "worker_done L rd ts filler r s"
  obtain i where i: "being_filled (tiles s (l, k)) = Some i" using b r by auto
  have fl: "tstate (tiles s r) = FILLING" using pool_wf_tile [OF wf, of l k] i r by (simp add: tile_wf_def)
  have "base (tiles ?s' r) = base (tiles s r)" if "tstate (tiles ?s' r) \<in> {FILLING, READY}"
    using that i fl by (auto simp: r worker_done_def do_fill_tile_def Let_def done_notification_def split: prod.splits if_splits)
  then have "tile_settles (tiles s r) (tiles ?s' r)"
    using fl worker_done_tile(3) [OF pool_wf_tile [OF wf] i, of L rd] by (auto simp: tile_settles_def r)
  then show ?thesis
    using worker_done_frame [of r s L rd ts filler] by (auto simp: settles_def only_tile_def) (metis tile_settles_refl)
qed

lemma worker_step_wf:
  assumes "worker_step L rd ts filler s s'" "pool_wf ts names right served silent s"
  shows "pool_wf ts names right served silent s' \<and> settles s s'"
  using assms
proof cases
  case take then show ?thesis using assms worker_take_wf worker_take_settles by blast
next
  case (finish r)
  then show ?thesis using worker_done_wf [OF assms(2)] worker_done_settles [OF assms(2)] by (cases r) auto
qed

lemma worker_steps_wf:
  assumes "(worker_step L rd ts filler)\<^sup>*\<^sup>* s s'" "pool_wf ts names right served silent s"
  shows "pool_wf ts names right served silent s' \<and> settles s s'"
  using assms
proof induction
  case (step s1 s2) then show ?case using worker_step_wf settles_trans by blast
qed (simp add: settles_refl)

lemma settles_inv: "pool_inv ts names right served silent s \<Longrightarrow> pool_wf ts names right served silent s' \<Longrightarrow> settles s s' \<Longrightarrow>
    pool_inv ts names right served silent s'"
  by (simp add: pool_inv_def settles_active_ok settles_shape) (simp add: settles_def)

section \<open>The invariant\<close>

lemma fresh_inv: "fresh_pool ts s \<Longrightarrow> pool_inv ts names right served silent s"
proof -
  assume f: "fresh_pool ts s"
  have "tile_wf ts names right served l (tiles s (l, k))" and "tstate (tiles s (l, k)) = FREE" for l k
    using f unfolding fresh_pool_def by (metis (no_types, lifting) mk_tile_def tile_wf_def tile.simps mod_0 tile_state.distinct option.distinct(1)) +
  then show ?thesis
    using f by (auto simp: pool_inv_def pool_wf_def active_ok_def shape_ok_def tiles_empty_iff fresh_pool_def)
qed

lemma moved_inv:
  assumes inv: "pool_inv ts names right served silent s" and m: "moved l s s'" "shape_ok ts (number_of_entries s l) l s'"
  shows "pool_inv ts names right served silent s'"
proof -
  have "number_of_entries s' = number_of_entries s" using m(1) by (simp add: moved_def others_kept_def)
  moreover have "active_ok l' s' \<and> shape_ok ts (number_of_entries s l') l' s'" for l'
    using inv m others_kept_active_ok [of l s s' l'] others_kept_shape [of l s s' l']
    by (cases "l' = l") (auto simp: moved_def pool_inv_def)
  ultimately show ?thesis using m(1) by (simp add: moved_def pool_inv_def)
qed

lemma prefetch_inv:
  assumes "pool_inv ts names right served silent s" "names i l" "first + count \<le> number_of_entries s l"
  shows "\<exists>s' b. prefetch L rd ts filler l i first count (number_of_entries s l) auto s = Some (s', Inr b) \<and>
    pool_inv ts names right served silent s'"
  using prefetch_moved [of s l i "number_of_entries s l" first count L rd auto] assms moved_inv
  unfolding pool_inv_def by blast

lemma clear_all_inv:
  assumes "pool_inv ts names right served silent s"
  shows "pool_inv ts names right served silent (clear_all L rd ts filler l s)"
proof -
  have wf: "pool_wf ts names right served silent s" using assms by (simp add: pool_inv_def)
  define s1 where "s1 = clear_tiles L rd ts filler l s"
  note c = clear_tiles_spec [OF wf, where L = L and rd = rd and l = l, folded s1_def]
  have 1: "active_ok l s1" "tiles_empty l s1" using c(4,5) by (auto simp: active_ok_def is_free_def tiles_empty_iff)
  have "clear_all L rd ts filler l s = s1\<lparr>number_of_entries := (number_of_entries s1)(l := 0)\<rparr>"
    by (simp add: clear_all_def Let_def s1_def)
  moreover have "active_ok l' s1" for l'
    using assms 1 others_kept_active_ok [OF c(3), of l'] by (cases "l' = l") (auto simp: pool_inv_def)
  moreover have "shape_ok ts (number_of_entries s1 l') l' s1" if "l' \<noteq> l" for l'
    using assms that others_kept_shape [OF c(3) that] c(3) by (simp add: pool_inv_def others_kept_def)
  ultimately show ?thesis
    using c(1) 1(2) by (auto simp: pool_inv_def pool_wf_def active_ok_def shape_ok_def tiles_empty_iff)
qed

lemma set_tile_child_wf:
  assumes "pool_wf ts names right served silent s" "tstate (tiles s (l, k)) = READY"
  shows "pool_wf ts names right served silent (set_tile_child (l, k) j c s)"
proof (rule pool_wf_update [OF assms(1)])
  show "only_tile (l, k) s (set_tile_child (l, k) j c s)" by (simp add: set_tile_child_def Let_def only_tile_def)
  let ?its = "items (tiles s (l, k))"
  have "specific_data (?its[j := set_child_list c (?its ! j)] ! m) = specific_data (?its ! m)" for m
    by (cases "m = j"; cases "j < length ?its") (simp_all add: set_child_list_def linorder_not_less list_update_beyond)
  then show "tile_wf ts names right served l (tiles (set_tile_child (l, k) j c s) (l, k))"
    using pool_wf_tile [OF assms(1), of l k] by (simp add: set_tile_child_def Let_def tile_wf_def)
  show "work (set_tile_child (l, k) j c s) = filter (\<lambda>w. fst w \<noteq> (l, k)) (work s)"
    using not_queued [OF assms(1), of "(l, k)"] assms(2) by (simp add: set_tile_child_def Let_def)
qed (use assms(2) in \<open>simp add: set_tile_child_def Let_def\<close>)

lemma reach_inv: "pool_reach L rd ts filler names s \<Longrightarrow> pool_inv ts names right served silent s"
proof (induction rule: pool_reach.induct)
  case (start s) then show ?case by (rule fresh_inv)
next
  case (worker s s')
  then show ?case using worker_step_wf settles_inv unfolding pool_inv_def by blast
next
  case (prefetched s i l first count auto s' res)
  then show ?case using prefetch_inv [OF prefetched.IH prefetched.hyps(2,3), of L rd auto] by auto
next
  case (cleared s l) then show ?case by (simp add: clear_all_inv)
next
  case (sized s l n)
  then show ?case
    by (auto simp: pool_inv_def pool_wf_def deferred_set_size_def active_ok_def shape_ok_def tiles_empty_iff)
next
  case (linked s r j c)
  obtain l k where r: "r = (l, k)" by (rule prod.exhaust)
  have "pool_wf ts names right served silent (set_tile_child r j c s)"
    using linked set_tile_child_wf by (simp add: pool_inv_def r)
  moreover have "tstate (tiles (set_tile_child r j c s) q) = tstate (tiles s q)" for q
    by (simp add: set_tile_child_def Let_def)
  moreover have "active (set_tile_child r j c s) = active s" "number_of_entries (set_tile_child r j c s) = number_of_entries s"
    by (simp_all add: set_tile_child_def Let_def)
  ultimately show ?case using linked.IH by (simp add: pool_inv_def active_ok_def shape_ok_def tiles_empty_iff)
qed

end

end
