(* ===== verification/Tile_Access.thy ===== *)
theory Tile_Access
  imports Tile_Steps
begin

text \<open>
  Random access to tiled lists: materialising an item centers the tiles around it, and what the
  reader then gets from the center tile, once the workers are done with it, is the item.
\<close>

section \<open>Materialising\<close>

lemma spanned_one: "0 < ts \<Longrightarrow> number_of_spanned_tiles ts first 1 = 1"
  by (simp add: number_of_spanned_tiles_def)

context tile_filler
begin

lemma prefetch_one:
  assumes "contains ts l idx s = d"
  shows "prefetch L rd ts filler l i idx 1 n True s =
    (case d of
       None \<Rightarrow> Some (fill_tiles L rd ts filler l i idx n s, Inr True)
     | Some CENTER \<Rightarrow> Some (s, Inr True)
     | Some UP \<Rightarrow> map_option (\<lambda>s'. (s', Inr True)) (slide_up L rd ts filler l i idx n 1 s)
     | Some DOWN \<Rightarrow> map_option (\<lambda>s'. (s', Inr True)) (slide_down L rd ts filler l i idx n 1 s))"
proof -
  have "idx mod ts < ts" using ts_pos by simp
  then have "1 + idx mod ts \<le> maximum_number_of_hot_items ts"
    unfolding maximum_number_of_hot_items_def maximum_number_of_active_tiles_def by linarith
  then show ?thesis
    using assms spanned_one [OF ts_pos, of idx]
    by (auto simp: prefetch_def Let_def check_overlapping_range_for_prefetch_def compute_number_of_required_slides_def
        prefetch_center_index_def maximum_number_of_active_tiles_def simp del: slide_up.simps slide_down.simps
        split: option.splits location.splits)
qed

lemma slide_up_center:
  assumes s: "pool_wf ts names right served silent s" "active_ok l s" "names i l" "shape_ok ts n l s" and up: "active s l UP \<noteq> None"
    and eq: "slide_up L rd ts filler l i idx n 1 s = Some s'"
  shows "view l s' CENTER = view l s UP"
proof (cases "2 * ts < n")
  case True
  then show ?thesis
    using slide_up_full [OF s(1-3) shape_full [OF s(4) True up], where L = L and rd = rd and n = n and idx = idx and m = 1] eq
    by (auto simp: rotate_def)
next
  case False
  then have "active s l DOWN = None" using s(4) up by (auto simp: shape_ok_def tiles_empty_iff)
  then show ?thesis
    using slide_two [OF s(2), of DOWN UP L rd i "u32_wrap idx" n] up eq by (auto simp: opposite_def rotate_def)
qed

lemma slide_down_center:
  assumes s: "pool_wf ts names right served silent s" "active_ok l s" "names i l" "shape_ok ts n l s" and down: "active s l DOWN \<noteq> None"
    and eq: "slide_down L rd ts filler l i idx n 1 s = Some s'"
  shows "view l s' CENTER = view l s DOWN"
proof (cases "2 * ts < n")
  case True
  then show ?thesis
    using slide_down_full [OF s(1-3) shape_full [OF s(4) True down], where L = L and rd = rd and n = n and idx = idx and m = 1] eq
    by (auto simp: rotate_def)
next
  case False
  then have "active s l UP = None" using s(4) down by (auto simp: shape_ok_def tiles_empty_iff)
  then show ?thesis
    using slide_two [OF s(2), of UP DOWN L rd i "u32_wrap (idx + 2 ^ 32)" n] down eq by (auto simp: opposite_def rotate_def)
qed

lemma contains_view:
  assumes "pool_wf ts names right served silent s" "contains ts l idx s = Some loc"
  shows "view l s loc = Some (align ts idx)"
proof -
  obtain k where "active s l loc = Some k" "is_tile_for ts idx (tiles s (l, k))" using contains_is_tile_for [OF assms(2)] by blast
  moreover have "base (tiles s (l, k)) mod ts = 0" using pool_wf_tile [OF assms(1), of l k] by (simp add: tile_wf_def)
  ultimately show ?thesis using is_tile_for_base [of ts idx "tiles s (l, k)"] by (simp add: view_def)
qed

lemma materialize_center:
  assumes inv: "pool_inv ts names right served silent s" and i: "names i l" and idx: "idx < number_of_entries s l"
  shows "\<exists>s'. materialize L rd ts filler l i idx s = Some (s', Inr ()) \<and> pool_inv ts names right served silent s' \<and>
    view l s' CENTER = Some (align ts idx)"
proof -
  let ?n = "number_of_entries s l"
  have s: "pool_wf ts names right served silent s" "active_ok l s" "names i l" "shape_ok ts ?n l s"
    using inv i by (simp_all add: pool_inv_def)
  obtain s' b where p: "prefetch L rd ts filler l i idx 1 ?n True s = Some (s', Inr b)" and inv': "pool_inv ts names right served silent s'"
    using prefetch_inv [OF inv i, of idx 1 L rd True] idx by (metis Suc_leI Suc_eq_plus1)
  have "b \<and> view l s' CENTER = Some (align ts idx)"
  proof (cases "contains ts l idx s")
    case None
    then show ?thesis
      using p prefetch_one [OF None, of L rd i ?n] fill_tiles_spec [OF s(1,3), where L = L and rd = rd and n = ?n and c = idx] idx
      by auto
  next
    case (Some loc)
    note v = contains_view [OF s(1) Some] contains_active [OF Some]
    show ?thesis
      using p [unfolded prefetch_one [OF Some]] v slide_up_center [OF s] slide_down_center [OF s]
      by (cases loc) (auto simp del: slide_up.simps slide_down.simps)
  qed
  then show ?thesis using p inv' idx by (auto simp: materialize_def)
qed

section \<open>Reading\<close>

text \<open>The reader gets the item, or the error of the tile, or waits for the tile.\<close>

lemma ready_read:
  assumes wf: "tile_wf ts names right served l (tiles s (l, k))" and k: "active s l CENTER = Some k"
    and rdy: "tstate (tiles s (l, k)) = READY" "base (tiles s (l, k)) = align ts idx"
    and idx: "idx < 2 ^ 32" "served l idx"
  shows "\<exists>it. get_list_item_unsafe l idx s = Some (Inr it) \<and> right l idx (specific_data it)"
proof -
  let ?t = "tiles s (l, k)" and ?j = "idx - align ts idx"
  have j: "align ts idx \<le> idx" "?j < ts" using align_le less_align [OF ts_pos, of idx] by (simp_all add: less_diff_conv2 add.commute align_le)
  have st: "?j < stored_items_count ?t"
    using wf rdy idx(2) align_le [of ts idx] less_align [OF ts_pos, of idx] by (auto simp: tile_wf_def)
  have "idx + 2 ^ 32 - base ?t = ?j + 2 ^ 32" "?j < 2 ^ 32" using rdy(2) j(1) idx(1) by simp_all
  then have "u32_wrap (idx + 2 ^ 32 - base ?t) = ?j" by simp
  moreover have "?j mod 2 ^ 16 = ?j" using j(2) ts_u16 by simp
  ultimately have "get_list_item_unsafe l idx s = Some (Inr (items ?t ! ?j))"
    using rdy(1) k j(2) wf by (simp add: get_list_item_unsafe_def get_list_item_by_raw_index_def tile_ready_def tile_wf_def)
  moreover have "right l (base ?t + ?j) (specific_data (items ?t ! ?j))" using wf rdy(1) st by (auto simp: tile_wf_def)
  ultimately show ?thesis using rdy(2) j(1) by simp
qed

lemma center_outcome:
  assumes inv: "pool_inv ts names right served silent s" and v: "view l s CENTER = Some (align ts idx)"
    and steps: "(worker_step L rd ts filler)\<^sup>*\<^sup>* s s'" and idx: "idx < 2 ^ 32" "served l idx"
  shows "\<exists>k. active s' l CENTER = Some k \<and>
    (case get_list_item_unsafe l idx s' of
       Some (Inr it) \<Rightarrow> tstate (tiles s' (l, k)) = READY \<and> right l idx (specific_data it)
     | Some (Inl e) \<Rightarrow> tstate (tiles s' (l, k)) \<in> {CANCELED, TILE_ERROR} \<and> e = terror (tiles s' (l, k))
     | None \<Rightarrow> tstate (tiles s' (l, k)) = FILLING)"
proof -
  have "pool_wf ts names right served silent s" using inv by (simp add: pool_inv_def)
  then have set: "settles s s'" and wf': "pool_wf ts names right served silent s'" using worker_steps_wf [OF steps] by simp_all
  obtain k where k: "active s' l CENTER = Some k" "base (tiles s (l, k)) = align ts idx"
    using v set by (auto simp: view_def settles_def)
  have "pool_inv ts names right served silent s'" by (rule settles_inv [OF inv wf' set])
  then have nf: "tstate (tiles s' (l, k)) \<noteq> FREE" using k(1) unfolding pool_inv_def active_ok_def by metis
  show ?thesis
  proof (cases "tstate (tiles s' (l, k)) = READY")
    case True
    have "base (tiles s' (l, k)) = align ts idx" using set True k(2) by (simp add: settles_def tile_settles_def)
    then show ?thesis using ready_read [OF pool_wf_tile [OF wf'] k(1) True _ idx] True k(1) by auto
  next
    case False
    then show ?thesis
      using k(1) nf by (cases "tstate (tiles s' (l, k))")
        (auto simp: get_list_item_unsafe_def get_list_item_by_raw_index_def tile_ready_def)
  qed
qed

section \<open>Workers at rest\<close>

lemma rest_no_filling:
  assumes wf: "pool_wf ts names right served silent s" and rest: "\<nexists>s'. worker_step L rd ts filler s s'"
    and fl: "tstate (tiles s (l, k)) = FILLING"
  shows "silent l"
proof -
  have "being_filled (tiles s (l, k)) = None" using rest worker_step.finish [of s "(l, k)" L rd ts filler] by blast
  moreover have "work s = []"
    using rest worker_step.take [of s _ L rd ts filler] by (cases "work s") (force simp: worker_take_def)+
  ultimately show ?thesis using wf fl by (auto simp: pool_wf_def)
qed

lemma queued_tile_filled:
  assumes "work s = ws @ ((l, k), i) # vs" "pool_wf ts names right served silent s"
  shows "\<exists>s'. (worker_step L rd ts filler)\<^sup>*\<^sup>* s s' \<and> pool_wf ts names right served silent s' \<and> being_filled (tiles s' (l, k)) = Some i"
  using assms
proof (induction ws arbitrary: s)
  case Nil
  then have t: "worker_take s = Some (set_tile (l, k) ((tiles s (l, k))\<lparr>being_filled := Some i\<rparr>) (s\<lparr>work := vs\<rparr>))"
    by (simp add: worker_take_def)
  show ?case
    by (rule exI, rule conjI [OF r_into_rtranclp [where r = "worker_step L rd ts filler", OF worker_step.take [OF t]]])
      (simp add: worker_take_wf [OF Nil.prems(2) t])
next
  case (Cons w ws)
  obtain r j where w: "w = (r, j)" by (rule prod.exhaust)
  define s1 where "s1 = set_tile r ((tiles s r)\<lparr>being_filled := Some j\<rparr>) (s\<lparr>work := ws @ ((l, k), i) # vs\<rparr>)"
  have t: "worker_take s = Some s1" using Cons.prems(1) w by (simp add: worker_take_def s1_def)
  have "\<exists>s'. (worker_step L rd ts filler)\<^sup>*\<^sup>* s1 s' \<and> pool_wf ts names right served silent s' \<and> being_filled (tiles s' (l, k)) = Some i"
    by (rule Cons.IH) (simp_all add: s1_def worker_take_wf [OF Cons.prems(2) t, unfolded s1_def])
  then show ?case using worker_step.take [OF t, of L rd ts filler] by (meson converse_rtranclp_into_rtranclp)
qed

text \<open>The workers can always finish a tile that a reader waits for.\<close>

lemma tile_gets_filled:
  assumes wf: "pool_wf ts names right served silent s" and loud: "\<not> silent l"
  shows "\<exists>s'. (worker_step L rd ts filler)\<^sup>*\<^sup>* s s' \<and> tstate (tiles s' (l, k)) \<noteq> FILLING"
proof (cases "tstate (tiles s (l, k)) = FILLING")
  case True
  have "\<exists>s1 i. (worker_step L rd ts filler)\<^sup>*\<^sup>* s s1 \<and> pool_wf ts names right served silent s1 \<and> being_filled (tiles s1 (l, k)) = Some i"
  proof (cases "being_filled (tiles s (l, k))")
    case None
    then have "(l, k) \<in> fst ` set (work s)" using wf True loud unfolding pool_wf_def by blast
    then obtain i where "((l, k), i) \<in> set (work s)" by (metis imageE prod.collapse)
    then obtain ws vs where "work s = ws @ ((l, k), i) # vs" using split_list by metis
    then show ?thesis using queued_tile_filled [OF _ wf] by blast
  qed (use wf in blast)
  then obtain s1 i where s1: "(worker_step L rd ts filler)\<^sup>*\<^sup>* s s1" "pool_wf ts names right served silent s1"
    "being_filled (tiles s1 (l, k)) = Some i" by blast
  let ?s2 = "worker_done L rd ts filler (l, k) s1"
  have "worker_step L rd ts filler s1 ?s2" using s1(3) by (intro worker_step.finish) simp
  moreover have "names i l" using pool_wf_tile [OF s1(2), of l k] s1(3) by (simp add: tile_wf_def)
  then have "tstate (tiles ?s2 (l, k)) \<noteq> FILLING"
    using worker_done_tile(4) [OF pool_wf_tile [OF s1(2)] s1(3), where L = L and rd = rd] fill_zero loud
    by (metis prod.collapse)
  ultimately show ?thesis using s1(1) by (meson rtranclp.rtrancl_into_rtrancl)
qed blast

end

end
