(* ===== verification/Tile_Iter.thy ===== *)
theory Tile_Iter
  imports Tile_Access
begin

text \<open>
  Iteration over a range whose tiles are in memory: starting in the tile of the first item, the
  iterator moves through the tiles in the order up, center, down, and delivers the items in order.
\<close>

section \<open>The order of the tiles\<close>

definition next_location :: "location \<Rightarrow> location" where
  "next_location w = (case w of UP \<Rightarrow> CENTER | CENTER \<Rightarrow> DOWN | DOWN \<Rightarrow> UP)"

lemma next_location_last: "determine_last_tile (Some w) = Some (next_location (next_location w))"
  by (simp add: determine_last_tile_def next_location_def split: location.split)

lemma next_location_cycle [simp]: "next_location (next_location (next_location w)) = w" "next_location w \<noteq> w"
  "next_location (next_location w) \<noteq> w"
  by (simp_all add: next_location_def split: location.split)

lemma next_tile_moves:
  "which_tile it = Some w \<Longrightarrow> last_tile it \<noteq> Some w \<Longrightarrow>
     next_tile it = (it\<lparr>iter_idx := 0, which_tile := Some (next_location w)\<rparr>, True)"
  by (auto simp: next_tile_def next_location_def split: location.split)

lemma next_tile_ends:
  "which_tile it = Some w \<Longrightarrow> last_tile it = Some w \<Longrightarrow> next_tile it = (it\<lparr>iter_idx := 0, which_tile := None\<rparr>, False)"
  by (simp add: next_tile_def)

section \<open>States in which the reader does not block\<close>

text \<open>No tile of the list is being filled, and ready tiles are not empty.\<close>

definition readable :: "('d tile_pool \<Rightarrow> 'd tile_pool) \<Rightarrow> addr \<Rightarrow> 'd tile_pool \<Rightarrow> bool" where
  "readable run l s \<longleftrightarrow> run s = s \<and>
     (\<forall>w k. active s l w = Some k \<longrightarrow> tstate (tiles s (l, k)) \<noteq> FILLING \<and>
        (tstate (tiles s (l, k)) = READY \<longrightarrow> 0 < stored_items_count (tiles s (l, k))))"

text \<open>The number of tiles the iterator has yet to visit.\<close>

definition tiles_left :: "tile_iter \<Rightarrow> nat" where
  "tiles_left it =
     (case which_tile it of
        None \<Rightarrow> 0
      | Some w \<Rightarrow> if last_tile it = Some w then 1 else if last_tile it = Some (next_location w) then 2 else 3)"

lemma tiles_left_next:
  assumes "which_tile it = Some w" "last_tile it \<noteq> None"
  shows "tiles_left (fst (next_tile it)) < tiles_left it"
    "last_tile (fst (next_tile it)) = last_tile it" "iter_idx (fst (next_tile it)) = 0"
proof -
  obtain v where v: "last_tile it = Some v" using assms(2) by blast
  show "tiles_left (fst (next_tile it)) < tiles_left it"
    using assms(1) v by (cases w; cases v) (simp_all add: tiles_left_def next_tile_def next_location_def)
  show "last_tile (fst (next_tile it)) = last_tile it" "iter_idx (fst (next_tile it)) = 0"
    using assms(1) v by (cases w; cases v; simp add: next_tile_def)+
qed

lemma put_list_error_simps [simp]:
  "which_tile (put_list_error e it) = which_tile it" "last_tile (put_list_error e it) = last_tile it"
  "iter_idx (put_list_error e it) = iter_idx it" "tiles_left (put_list_error e it) = tiles_left it"
  by (simp_all add: put_list_error_def tiles_left_def split: option.split)

lemma find_first_total:
  assumes "readable run l s" "last_tile it \<noteq> None" "iter_idx it = 0" "tiles_left it < fuel"
  shows "\<exists>it'. find_first fuel run l it s = Some (s, it')"
  using assms(2-)
proof (induction fuel arbitrary: it)
  case (Suc fuel)
  show ?case
  proof (cases "which_tile it")
    case (Some w)
    have onward: "\<exists>it'. find_first fuel run l (fst (next_tile it0)) s = Some (s, it')"
      if "which_tile it0 = Some w" "last_tile it0 = last_tile it" "tiles_left it0 = tiles_left it" for it0
      using that Suc.prems tiles_left_next [of it0 w] by (intro Suc.IH) auto
    show ?thesis
    proof (cases "active s l w")
      case None then show ?thesis using Some onward [of it] by simp
    next
      case act: (Some k)
      then show ?thesis
        using assms(1) Some Suc.prems(2) onward [of "put_list_error (terror (tiles s (l, k))) it"]
        by (auto simp: readable_def current_size_def tile_size_of_def tile_ready_def Let_def)
    qed
  qed simp
qed simp

lemma find_first_stays:
  assumes "readable run l s" "which_tile it = Some w" "active s l w = Some k" "tstate (tiles s (l, k)) = READY" "iter_idx it = 0"
  shows "find_first (Suc fuel) run l it s = Some (s, it)"
  using assms by (auto simp: readable_def current_size_def tile_size_of_def tile_ready_def Let_def)

section \<open>The loop over a range\<close>

fun visit :: "(nat \<Rightarrow> 'i \<Rightarrow> 'b \<Rightarrow> 'b \<times> bool) \<Rightarrow> (nat \<Rightarrow> 'i) \<Rightarrow> nat list \<Rightarrow> 'b \<Rightarrow> 'b" where
  "visit f item [] acc = acc"
| "visit f item (i # is) acc =
     (case f i (item i) acc of (acc', True) \<Rightarrow> visit f item is acc' | (acc', False) \<Rightarrow> acc')"

definition location_of :: "nat \<Rightarrow> nat \<Rightarrow> location \<Rightarrow> nat \<Rightarrow> location" where
  "location_of ts first w i = (next_location ^^ (i div ts - first div ts)) w"

text \<open>All items of the range are in ready tiles, in the order the iterator takes.\<close>

definition in_memory ::
  "nat \<Rightarrow> addr \<Rightarrow> nat \<Rightarrow> nat \<Rightarrow> location \<Rightarrow> (nat \<Rightarrow> 'd list_item) \<Rightarrow> 'd tile_pool \<Rightarrow> bool" where
  "in_memory ts l first bound w item s \<longleftrightarrow> (bound - 1) div ts \<le> first div ts + 2 \<and>
     (\<forall>i. first \<le> i \<longrightarrow> i < bound \<longrightarrow>
       (\<exists>k. active s l (location_of ts first w i) = Some k \<and> tstate (tiles s (l, k)) = READY \<and>
          i mod ts < stored_items_count (tiles s (l, k)) \<and> stored_items_count (tiles s (l, k)) \<le> ts \<and>
          length (items (tiles s (l, k))) = ts \<and> items (tiles s (l, k)) ! (i mod ts) = item i))"

definition iter_at :: "nat \<Rightarrow> nat \<Rightarrow> location \<Rightarrow> nat \<Rightarrow> tile_iter \<Rightarrow> bool" where
  "iter_at ts first w i it \<longleftrightarrow> last_tile it = determine_last_tile (Some w) \<and>
     which_tile it = Some (location_of ts first w i) \<and> iter_idx it = i mod ts"

lemma location_next_tile:
  assumes "first \<le> i" "Suc i mod ts = 0" "0 < ts"
  shows "location_of ts first w (Suc i) = next_location (location_of ts first w i)"
proof -
  have d: "Suc i div ts = Suc (i div ts)" using assms(2,3) by (simp add: div_Suc)
  have "first div ts \<le> i div ts" by (rule div_le_mono [OF assms(1)])
  then show ?thesis by (simp add: location_of_def d Suc_diff_le)
qed

lemma location_not_last:
  assumes "i div ts \<le> first div ts + 1"
  shows "determine_last_tile (Some w) \<noteq> Some (location_of ts first w i)"
proof -
  have "i div ts - first div ts = 0 \<or> i div ts - first div ts = 1" using assms by linarith
  then show ?thesis by (auto simp: next_location_last location_of_def)
qed

lemma iter_deref_item:
  assumes "readable run l s" "in_memory ts l first bound w item s" "iter_at ts first w i it" "first \<le> i" "i < bound" "ts < 2 ^ 16"
  shows "iter_deref run l it s = Some (s, Inr (item i))"
proof -
  obtain k where k: "active s l (location_of ts first w i) = Some k" "tstate (tiles s (l, k)) = READY"
    "i mod ts < stored_items_count (tiles s (l, k))" "stored_items_count (tiles s (l, k)) \<le> ts"
    "length (items (tiles s (l, k))) = ts" "items (tiles s (l, k)) ! (i mod ts) = item i"
    using assms(2,4,5) unfolding in_memory_def by blast
  have "i mod ts < ts" using k(3,4) by linarith
  then have "i mod ts mod 2 ^ 16 = i mod ts" using assms(6) by simp
  then show ?thesis
    using assms(1,3) k \<open>i mod ts < ts\<close>
    by (simp add: iter_deref_def readable_def iter_at_def Let_def get_list_item_by_raw_index_def tile_ready_def)
qed

lemma iter_next_item:
  assumes rd: "readable run l s" and mem: "in_memory ts l first bound w item s" and at: "iter_at ts first w i it"
    and i: "first \<le> i" "i < bound" and ts: "ts < 2 ^ 16" "0 < ts"
  shows "\<exists>it'. iter_next run l it s = Some (Inr (s, it')) \<and> (Suc i < bound \<longrightarrow> iter_at ts first w (Suc i) it')"
proof -
  let ?w = "location_of ts first w i"
  let ?it = "it\<lparr>iter_idx := Suc (i mod ts)\<rparr>"
  obtain k where k: "active s l ?w = Some k" "tstate (tiles s (l, k)) = READY" "stored_items_count (tiles s (l, k)) \<le> ts"
    "i mod ts < stored_items_count (tiles s (l, k))"
    using mem i unfolding in_memory_def by blast
  have w: "which_tile it = Some ?w" "last_tile it = determine_last_tile (Some w)" using at by (simp_all add: iter_at_def)
  have "Suc (i mod ts) < 2 ^ 16" using ts k(3,4) by linarith
  then have st: "iter_step run l it s = Some (s, if Suc (i mod ts) < stored_items_count (tiles s (l, k)) then (?it, True) else next_tile ?it)"
    using rd k at by (simp add: iter_step_def Let_def readable_def current_size_def iter_at_def tile_size_of_def tile_ready_def)
  show ?thesis
  proof (cases "Suc (i mod ts) < stored_items_count (tiles s (l, k))")
    case True
    then have m: "Suc i mod ts = Suc (i mod ts)" "Suc i div ts = i div ts"
      using k(3) ts(2) by (simp_all add: mod_Suc div_Suc)
    have "find_first find_first_rounds run l ?it s = Some (s, ?it)"
      using rd w k True by (simp add: find_first_rounds_def readable_def current_size_def tile_size_of_def tile_ready_def Let_def numeral_eq_Suc)
    then show ?thesis
      using st True w m by (auto simp: iter_next_def iter_at_def location_of_def)
  next
    case end_of_tile: False
    have same: "Suc i < bound \<Longrightarrow> Suc i mod ts = 0"
    proof (rule ccontr)
      assume b: "Suc i < bound" and m: "Suc i mod ts \<noteq> 0"
      then have m': "Suc i mod ts = Suc (i mod ts)" "Suc i div ts = i div ts" using ts(2) by (auto simp: mod_Suc div_Suc split: if_splits)
      then have "location_of ts first w (Suc i) = ?w" by (simp add: location_of_def)
      then show False using mem i b k(1) m' end_of_tile unfolding in_memory_def by (metis le_SucI option.inject)
    qed
    show ?thesis
    proof (cases "last_tile it = Some ?w")
      case True
      have "\<not> Suc i < bound"
      proof
        assume b: "Suc i < bound"
        have "Suc i div ts = Suc (i div ts)" using same [OF b] ts(2) by (simp add: div_Suc)
        moreover have "Suc i div ts \<le> (bound - 1) div ts" using b by (intro div_le_mono) simp
        ultimately have "i div ts \<le> first div ts + 1" using mem by (simp add: in_memory_def)
        then show False using location_not_last [of i ts first w] True w(2) by simp
      qed
      then show ?thesis
        using st end_of_tile w(1) next_tile_ends [of ?it ?w] True by (simp add: iter_next_def)
    next
      case False
      let ?it' = "?it\<lparr>iter_idx := 0, which_tile := Some (next_location ?w)\<rparr>"
      have nt: "next_tile ?it = (?it', True)" using next_tile_moves [of ?it ?w] w False by simp
      have l: "last_tile ?it' \<noteq> None" "tiles_left ?it' < find_first_rounds"
        using w by (simp_all add: next_location_last tiles_left_def find_first_rounds_def)
      obtain it'' where ff: "find_first find_first_rounds run l ?it' s = Some (s, it'')"
        using find_first_total [OF rd l(1) _ l(2)] by auto
      have "iter_at ts first w (Suc i) it''" if b: "Suc i < bound"
      proof -
        have loc: "location_of ts first w (Suc i) = next_location ?w" by (rule location_next_tile [OF i(1) same [OF b] ts(2)])
        obtain k' where "active s l (next_location ?w) = Some k'" "tstate (tiles s (l, k')) = READY"
          using mem i b unfolding in_memory_def loc [symmetric] by (meson le_SucI)
        then have "find_first find_first_rounds run l ?it' s = Some (s, ?it')"
          using find_first_stays [OF rd, of ?it' "next_location ?w" k' 3] by (simp add: find_first_rounds_def eval_nat_numeral)
        then have "it'' = ?it'" using ff by simp
        then show ?thesis using w loc same [OF b] by (simp add: iter_at_def)
      qed
      then show ?thesis using st end_of_tile nt ff w by (simp add: iter_next_def)
    qed
  qed
qed

lemma cached_loop_visits:
  assumes "readable run l s" "in_memory ts l first bound w item s" "iter_at ts first w i it" "first \<le> i" "i < bound"
    "ts < 2 ^ 16" "0 < ts"
  shows "cached_loop run l f [i..<bound] it s acc = Some (s, visit f item [i..<bound] acc, ERR_OK)"
  using assms(3-5)
proof (induction "bound - i" arbitrary: i it acc)
  case (Suc n)
  obtain it' where it': "iter_next run l it s = Some (Inr (s, it'))" "Suc i < bound \<longrightarrow> iter_at ts first w (Suc i) it'"
    using iter_next_item [OF assms(1,2) Suc.prems assms(6,7)] by blast
  have "cached_loop run l f [Suc i..<bound] it' s a = Some (s, visit f item [Suc i..<bound] a, ERR_OK)" for a
    using Suc it'(2) by (cases "Suc i < bound") auto
  then show ?case
    using it'(1) iter_deref_item [OF assms(1,2) Suc.prems assms(6)] Suc.prems(3)
    by (auto simp: upt_conv_Cons split: prod.split bool.split)
qed simp

end
