(* ===== verification/Tile_Range.thy ===== *)
theory Tile_Range
  imports Tile_Iter
begin

text \<open>
  Ranges that are not in memory: prefetching loads the tiles so that the iterator finds the items of
  the range in order.
\<close>

lemma div_align: "0 < ts \<Longrightarrow> align ts i = ts * (i div ts)"
  by (simp add: align_def minus_mod_eq_mult_div)

lemma align_add: "0 < ts \<Longrightarrow> align ts (i + ts) = align ts i + ts"
  by (simp add: div_align div_add_self2)

text \<open>The tiles of the range, from the location of the first item on.\<close>

definition loaded :: "nat \<Rightarrow> addr \<Rightarrow> nat \<Rightarrow> nat \<Rightarrow> location \<Rightarrow> 'd tile_pool \<Rightarrow> bool" where
  "loaded ts l first bound w s \<longleftrightarrow> contains ts l first s = Some w \<and>
     (\<forall>i. first \<le> i \<longrightarrow> i < bound \<longrightarrow> view l s (location_of ts first w i) = Some (align ts i))"

lemma spanned_tiles:
  assumes "0 < ts" "0 < count"
  shows "number_of_spanned_tiles ts first count = Suc ((first + count - 1) div ts - first div ts)"
proof -
  have "first + count - 1 = ts * (first div ts) + (first mod ts + count - 1)"
    using assms(2) mult_div_mod_eq [of ts first] by linarith
  then have "(first + count - 1) div ts = first div ts + (first mod ts + count - 1) div ts"
    using assms(1) by (metis div_mult_self2 less_not_refl add.commute)
  then show ?thesis by (simp add: number_of_spanned_tiles_def)
qed

lemma contains_first_match:
  assumes "0 < ts" "\<And>loc k. active s l loc = Some k \<Longrightarrow> base (tiles s (l, k)) mod ts = 0 \<and> base (tiles s (l, k)) + ts < 2 ^ 32"
    and w: "view l s w = Some (align ts idx)" and before: "w = CENTER \<and> view l s UP \<noteq> Some (align ts idx) \<or> w = UP"
  shows "contains ts l idx s = Some w"
proof -
  have v: "(case active s l loc of None \<Rightarrow> False | Some k \<Rightarrow> is_tile_for ts idx (tiles s (l, k))) \<longleftrightarrow>
      view l s loc = Some (align ts idx)" for loc
  proof (cases "active s l loc")
    case (Some k)
    then show ?thesis using is_tile_for_iff [OF assms(1), of "tiles s (l, k)" idx] assms(2) [OF Some] by (simp add: view_def)
  qed (simp add: view_def)
  show ?thesis using w before by (auto simp: contains_def v)
qed

lemma down_base_less: "0 < n \<Longrightarrow> down_base ts n c < n"
  unfolding down_base_def by (auto intro: le_less_trans [OF mod_less_eq_dividend])

lemma up_base_less: "0 < n \<Longrightarrow> c < n \<Longrightarrow> up_base ts n c < n"
  unfolding up_base_def by (auto intro: le_less_trans [OF mod_less_eq_dividend])

context tile_filler
begin

text \<open>Where the range ends up when the list is filled anew.\<close>

lemma fill_loads:
  fixes L rd
  assumes wf: "pool_wf ts names right served silent s" and i: "names i l"
    and r: "0 < count" "first + count \<le> n" "n + ts < 2 ^ 32" and sp: "number_of_spanned_tiles ts first count = sp" "sp \<le> 3"
  defines "w \<equiv> if sp < 3 then CENTER else UP"
    and "s' \<equiv> fill_tiles L rd ts filler l i (if sp < 3 then first else u32_wrap (first + ts)) n s"
  shows "loaded ts l first (first + count) w s'"
proof -
  define c where "c = (if sp < 3 then first else first + ts)"
  define q where "q = first div ts"
  have sp': "sp = Suc ((first + count - 1) div ts - q)" using sp(1) spanned_tiles [OF ts_pos r(1)] by (simp add: q_def)
  have last: "(first + count - 1) div ts \<le> q + 2" using sp' sp(2) by simp
  have c32: "c < 2 ^ 32" using r by (auto simp: c_def)
  have s': "s' = fill_tiles L rd ts filler l i c n s" using c32 by (auto simp: s'_def c_def)
  note f = fill_tiles_spec [OF wf i, where L = L and rd = rd and c = c and n = n, folded s']
  have n0: "0 < n" using r by linarith
  have tl: "ts * ((first + count - 1) div ts) < n" using r(1,2) times_div_less_eq_dividend [of ts "first + count - 1"] by linarith
  have va: "view l s' CENTER = Some (align ts c)"
    "ts < n \<Longrightarrow> view l s' DOWN = Some (align ts (down_base ts n (align ts c)))"
    "2 * ts < n \<Longrightarrow> view l s' UP = Some (align ts (up_base ts n (align ts c)))"
    "n \<le> 2 * ts \<Longrightarrow> view l s' UP = None"
    using f n0 by simp_all
  have dn: "view l s' DOWN = Some (align ts c + ts)" if "align ts c + ts < n"
  proof -
    have "align ts c < n - ts" "align ts c + ts < 2 ^ 32" "ts < n" using that r(3) by linarith+
    then have "down_base ts n (align ts c) = align ts c + ts" by (simp add: down_base_def)
    then show ?thesis using va(2) \<open>ts < n\<close> align_add [OF ts_pos, of "align ts c"] by simp
  qed
  have three: "(first + count - 1) div ts = q + 2 \<and> ts * q + 2 * ts < n" if "\<not> sp < 3"
  proof -
    have "(first + count - 1) div ts = q + 2" using that sp(2) sp' by linarith
    then show ?thesis using tl by (simp add: algebra_simps)
  qed
  have tile: "view l s' (location_of ts first w j) = Some (align ts j)" if j: "first \<le> j" "j < first + count" for j
  proof -
    have jd: "q \<le> j div ts" "j div ts \<le> (first + count - 1) div ts" using j by (auto simp: q_def intro!: div_le_mono)
    have aj: "align ts j = ts * (j div ts)" "align ts first = ts * q" by (simp_all add: div_align ts_pos q_def)
    have lt: "ts * (j div ts) < n" using tl jd(2) mult_le_mono2 [OF jd(2), of ts] by linarith
    show ?thesis
    proof (cases "sp < 3")
      case True
      then have "j div ts = q \<or> j div ts = Suc q" using sp' jd by linarith
      then show ?thesis
        using True va(1) dn lt aj by (auto simp: location_of_def w_def c_def q_def next_location_def)
    next
      case False
      have big: "2 * ts < n" "(first + count - 1) div ts = q + 2" using three [OF False] by simp_all
      have ac: "align ts c = ts * q + ts" using False aj(2) align_add [OF ts_pos, of first] by (simp add: c_def)
      have "up_base ts n (align ts c) = ts * q" using ac ts_pos by (simp add: up_base_def)
      then have up: "view l s' UP = Some (ts * q)" using va(3) big(1) by simp
      have "j div ts = q \<or> j div ts = q + 1 \<or> j div ts = q + 2" using jd big(2) by linarith
      then show ?thesis
        using False va(1) dn lt aj ac up
        by (elim disjE) (auto simp: location_of_def w_def next_location_def numeral_2_eq_2 q_def [symmetric] algebra_simps)
    qed
  qed
  have other: "w = CENTER \<and> view l s' UP \<noteq> Some (align ts first) \<or> w = UP"
  proof (cases "sp < 3")
    case True
    have "view l s' UP \<noteq> Some (align ts first)"
    proof (cases "2 * ts < n")
      case b: True
      have "n - 1 < 2 ^ 32" "2 * ts \<le> n - 1" using b r(3) by linarith+
      then have "align ts (n - 1) \<noteq> 0" using less_align [OF ts_pos, of "n - 1"] ts_pos by (intro notI) simp
      then have "align ts (up_base ts n (align ts first)) \<noteq> align ts first"
        using \<open>n - 1 < 2 ^ 32\<close> ts_pos align_le [of ts "align ts first - ts"] by (auto simp: up_base_def)
      then show ?thesis using va(3) b True by (simp add: c_def)
    qed (use va(4) in simp)
    then show ?thesis using True by (simp add: w_def)
  qed (simp add: w_def)
  have cn: "c < n"
  proof (cases "sp < 3")
    case False
    have "first < ts * q + ts" using less_align [OF ts_pos, of first] by (simp add: div_align ts_pos q_def)
    then show ?thesis using three [OF False] False by (simp add: c_def)
  qed (use r in \<open>simp add: c_def\<close>)
  have bn: "b < n" if "view l s' loc = Some b" for loc b
    using that f align_le [of ts c] align_le [of ts "down_base ts n (align ts c)"] align_le [of ts "up_base ts n (align ts c)"] cn
      down_base_less [OF n0, of ts "align ts c"] up_base_less [OF n0, of "align ts c" ts]
    by (auto split: location.splits if_splits)
  have bases: "base (tiles s' (l, k)) mod ts = 0 \<and> base (tiles s' (l, k)) + ts < 2 ^ 32" if "active s' l loc = Some k" for loc k
  proof -
    have "base (tiles s' (l, k)) < n" using bn [of loc] that by (simp add: view_def)
    moreover have "tile_wf ts names right served l (tiles s' (l, k))" using f by (intro pool_wf_tile) simp
    ultimately show ?thesis using r(3) by (simp add: tile_wf_def)
  qed
  have "contains ts l first s' = Some w"
    using tile [of first] r(1) contains_first_match [OF ts_pos bases _ other] by (simp add: location_of_def)
  then show ?thesis using tile by (simp add: loaded_def)
qed

lemma prefetch_fills:
  assumes "0 < count" "count + first mod ts \<le> maximum_number_of_hot_items ts"
    "contains ts l first s = None" "contains ts l (u32_wrap (first + count - 1)) s = None"
  shows "prefetch L rd ts filler l i first count n False s =
    Some (fill_tiles L rd ts filler l i
      (if number_of_spanned_tiles ts first count < 3 then first else u32_wrap (first + ts)) n s, Inr True)"
  using assms
  by (simp add: prefetch_def check_overlapping_range_for_prefetch_def Let_def prefetch_center_index_def
      maximum_number_of_active_tiles_def)

lemma loaded_in_memory:
  assumes ld: "loaded ts l first bound w s1" and set: "settles s1 s2" and wf: "pool_wf ts names right served silent s2"
    and ready: "\<forall>w k. active s2 l w = Some k \<longrightarrow> tstate (tiles s2 (l, k)) = READY"
    and served: "\<forall>i. first \<le> i \<longrightarrow> i < bound \<longrightarrow> served l i" and span: "(bound - 1) div ts \<le> first div ts + 2"
  shows "\<exists>item. in_memory ts l first bound w item s2 \<and> (\<forall>i. first \<le> i \<longrightarrow> i < bound \<longrightarrow> right l i (specific_data (item i)))"
proof -
  define slot where "slot i = the (active s2 l (location_of ts first w i))" for i
  define item where "item i = items (tiles s2 (l, slot i)) ! (i mod ts)" for i
  have t: "active s2 l (location_of ts first w i) = Some (slot i) \<and> tstate (tiles s2 (l, slot i)) = READY \<and>
      i mod ts < stored_items_count (tiles s2 (l, slot i)) \<and> stored_items_count (tiles s2 (l, slot i)) \<le> ts \<and>
      length (items (tiles s2 (l, slot i))) = ts \<and> right l i (specific_data (item i))"
    if i: "first \<le> i" "i < bound" for i
  proof -
    have "view l s1 (location_of ts first w i) = Some (align ts i)" using ld i by (simp add: loaded_def)
    then have a: "active s2 l (location_of ts first w i) = Some (slot i)" "base (tiles s1 (l, slot i)) = align ts i"
      using set by (auto simp: view_def settles_def slot_def)
    have rdy: "tstate (tiles s2 (l, slot i)) = READY" using ready a(1) by blast
    have b: "base (tiles s2 (l, slot i)) = align ts i" using set rdy a(2) by (simp add: settles_def tile_settles_def)
    have wt: "tile_wf ts names right served l (tiles s2 (l, slot i))" by (rule pool_wf_tile [OF wf])
    have i_eq: "i = align ts i + i mod ts" by (simp add: align_def)
    have "i < align ts i + stored_items_count (tiles s2 (l, slot i))"
      using wt rdy b served i align_le [of ts i] less_align [OF ts_pos, of i] by (simp add: tile_wf_def)
    then have st: "i mod ts < stored_items_count (tiles s2 (l, slot i))" using i_eq by linarith
    then have "right l (align ts i + i mod ts) (specific_data (item i))" using wt rdy b by (simp add: tile_wf_def item_def)
    then show ?thesis using a(1) rdy st wt i_eq by (simp add: tile_wf_def)
  qed
  then have "in_memory ts l first bound w item s2" using span unfolding in_memory_def item_def by blast
  then show ?thesis using t by blast
qed

lemma for_each_fresh:
  assumes inv: "pool_inv ts names right served silent s" and i: "names i l" and n: "number_of_entries s l + ts < 2 ^ 32"
    and bound: "bound = range_end first count (number_of_entries s l)" "first < bound"
    and hot: "bound - first + first mod ts \<le> maximum_number_of_hot_items ts"
    and cold: "contains ts l first s = None" "contains ts l (bound - 1) s = None"
    and pf: "prefetch_range L rd ts filler l i first (bound - first) s = Some (s1, res)"
    and steps: "(worker_step L rd ts filler)\<^sup>*\<^sup>* s1 s2" and run: "run s1 = s2" "run s2 = s2"
    and ready: "\<forall>w k. active s2 l w = Some k \<longrightarrow> tstate (tiles s2 (l, k)) = READY"
    and served: "\<forall>i. first \<le> i \<longrightarrow> i < bound \<longrightarrow> served l i"
  shows "\<exists>item. for_each_item_tiled L rd ts filler run (Some l) i first count f s acc =
      Some (s2, visit f item [first..<bound] acc, ERR_OK) \<and>
    (\<forall>i. first \<le> i \<longrightarrow> i < bound \<longrightarrow> right l i (specific_data (item i)))"
proof -
  let ?n = "number_of_entries s l" and ?c = "bound - first"
  define sp where "sp = number_of_spanned_tiles ts first ?c"
  define w where "w = (if sp < 3 then CENTER else UP)"
  have wf: "pool_wf ts names right served silent s" using inv by (simp add: pool_inv_def)
  have b: "bound \<le> ?n" using bound(1) by (auto simp: range_end_def)
  have c: "0 < ?c" "first + ?c = bound" "u32_wrap (first + ?c - 1) = bound - 1" "u32_wrap bound = bound"
    using bound(2) b n by auto
  have sp: "sp \<le> 3" using spanned_le_3 [OF ts_pos c(1) hot] by (simp add: sp_def)
  have "(bound - 1) div ts \<le> first div ts + 2" using sp spanned_tiles [OF ts_pos c(1), of first] c(2) by (simp add: sp_def)
  have s1: "s1 = fill_tiles L rd ts filler l i (if sp < 3 then first else u32_wrap (first + ts)) ?n s" "res = Inr True"
    using pf prefetch_fills [OF c(1) hot cold(1) cold(2) [folded c(3)], of L rd i ?n]
    by (simp_all add: prefetch_range_def sp_def)
  have ld: "loaded ts l first bound w s1"
    using fill_loads [OF wf i c(1) _ n sp_def [symmetric] sp, of L rd] b c(2) by (simp add: s1(1) w_def)
  have wf1: "pool_wf ts names right served silent s1" using fill_tiles_spec [OF wf i] by (simp add: s1(1))
  have wf2: "pool_wf ts names right served silent s2" "settles s1 s2" using worker_steps_wf [OF steps wf1] by simp_all
  obtain item where item: "in_memory ts l first bound w item s2"
    "\<forall>i. first \<le> i \<longrightarrow> i < bound \<longrightarrow> right l i (specific_data (item i))"
    using loaded_in_memory [OF ld wf2(2,1) ready served \<open>(bound - 1) div ts \<le> first div ts + 2\<close>] by blast
  have rd: "readable run l s2"
    using ready run(2) pool_wf_tile [OF wf2(1), of l] by (auto simp: readable_def tile_wf_def)
  define it where "it = \<lparr>last_tile = determine_last_tile (Some w), which_tile = Some w, iter_idx = first mod ts, first_list_error = ERR_OK\<rparr>"
  have "contains ts l first s1 = Some w" using ld by (simp add: loaded_def)
  moreover obtain k where k: "active s1 l w = Some k" using contains_active calculation by fastforce
  moreover have "active s2 l w = Some k" using wf2(2) k by (simp add: settles_def)
  moreover have "0 < stored_items_count (tiles s2 (l, k))" "tstate (tiles s2 (l, k)) = READY"
    using rd ready calculation(3) by (auto simp: readable_def)
  ultimately have begin_at: "tiles_begin_at run ts l first s1 = Some (s2, it)"
    using run(1) by (simp add: tiles_begin_at_def mk_iterator_def find_first_rounds_def eval_nat_numeral Let_def
        current_size_def tile_size_of_def tile_ready_def it_def)
  have "cached_loop run l f [first..<bound] it s2 acc = Some (s2, visit f item [first..<bound] acc, ERR_OK)"
    by (rule cached_loop_visits [OF rd item(1) _ _ bound(2) ts_u16 ts_pos]) (simp_all add: iter_at_def it_def location_of_def)
  then show ?thesis
    using item(2) bound pf s1(2) begin_at c(4) by (auto simp: for_each_item_tiled_def Let_def)
qed

section \<open>Ranges that are partly in memory\<close>

text \<open>A range of three tiles whose first item is in the center tile: the tiles slide up instead of
  down, so that the center tile ends up before the first tile of the range, which is loaded twice.\<close>

lemma prefetch_three_from_center:
  assumes inv: "pool_inv ts names right served silent s" and i: "names i l"
    and r: "0 < count" "first + count \<le> number_of_entries s l" "number_of_entries s l + ts < 2 ^ 32"
    and hot: "count + first mod ts \<le> maximum_number_of_hot_items ts" and sp: "number_of_spanned_tiles ts first count = 3"
    and c: "contains ts l first s = Some CENTER"
  shows "\<exists>s'. prefetch L rd ts filler l i first count (number_of_entries s l) False s = Some (s', Inr True) \<and>
    view l s' UP = Some (align ts first) \<and> view l s' CENTER = view l s UP \<and> view l s' DOWN = Some (align ts first)"
proof -
  let ?n = "number_of_entries s l"
  have s: "pool_wf ts names right served silent s" "active_ok l s" "shape_ok ts ?n l s" using inv by (simp_all add: pool_inv_def)
  have big: "2 * ts < ?n" using spanned_in_list [OF ts_pos r(1,2)] sp by simp
  have full: "full l s" by (rule shape_full [OF s(3) big contains_active [OF c]])
  have "first + ts < 2 ^ 32" using r by linarith
  then have adj: "u32_wrap (first + ts) = first + ts" "index_in_adjacent_tile ts (first + ts) ?n (Some UP) = first"
    by (simp_all add: index_in_adjacent_tile_def)
  have p: "prefetch L rd ts filler l i first count ?n False s =
      map_option (\<lambda>s'. (s', Inr True)) (slide_up L rd ts filler l i (first + ts) ?n 1 s)"
    using r(1) hot sp c adj(1)
    by (simp add: prefetch_def check_overlapping_range_for_prefetch_def compute_number_of_required_slides_def Let_def
        prefetch_center_index_def maximum_number_of_active_tiles_def del: slide_up.simps)
  obtain s' where "slide_up L rd ts filler l i (first + ts) ?n 1 s = Some s'"
    "view l s' = up_view ts ?n (first + ts) 1 (view l s)"
    using slide_up_full [OF s(1,2) i full] by blast
  then show ?thesis
    using p adj contains_view [OF s(1) c] by (auto simp: rotate_def)
qed

text \<open>Access to an item whose tile is followed by a last, partial tile: when the item is not followed by
  as many items as fit into a tile, the first tile of the list is loaded instead of the last one.\<close>

lemma materialize_wraps_early:
  assumes inv: "pool_inv ts names right served silent s" and i: "names i l"
    and n: "2 * ts < number_of_entries s l" "number_of_entries s l + ts < 2 ^ 32" "idx < number_of_entries s l"
    and c: "contains ts l idx s = Some DOWN"
    and partial: "align ts idx + ts < number_of_entries s l" "number_of_entries s l \<le> idx + ts"
  shows "\<exists>s'. materialize L rd ts filler l i idx s = Some (s', Inr ()) \<and> view l s' CENTER = Some (align ts idx) \<and>
    view l s' DOWN = Some 0"
proof -
  let ?n = "number_of_entries s l"
  have s: "pool_wf ts names right served silent s" "active_ok l s" "shape_ok ts ?n l s" using inv by (simp_all add: pool_inv_def)
  have full: "full l s" by (rule shape_full [OF s(3) n(1) contains_active [OF c]])
  have "idx < 2 ^ 32" "idx + ts < 2 ^ 32" using n by linarith+
  then have adj: "u32_wrap (idx + 2 ^ 32) = idx" "index_in_adjacent_tile ts idx ?n (Some DOWN) = 0"
    using partial(2) by (simp_all add: index_in_adjacent_tile_def)
  obtain s' where "slide_down L rd ts filler l i idx ?n 1 s = Some s'" "view l s' = down_view ts ?n idx 1 (view l s)"
    using slide_down_full [OF s(1,2) i full] by blast
  then show ?thesis
    using adj n(3) contains_view [OF s(1) c] prefetch_one [OF c, of L rd i ?n]
    by (auto simp: materialize_def rotate_def simp del: slide_down.simps)
qed

text \<open>A filler that gives nothing leaves the tile neither filled nor queued.\<close>

lemma empty_answer_sticks:
  assumes "pool_wf ts names right served silent s" "being_filled (tiles s (l, k)) = Some i"
    "fst (filler i (base (tiles s (l, k))) ts (\<not> cancel_filling_request (tiles s (l, k)))) = 0"
  shows "tstate (tiles (worker_done L rd ts filler (l, k) s) (l, k)) = FILLING \<and>
    being_filled (tiles (worker_done L rd ts filler (l, k) s) (l, k)) = None \<and>
    (l, k) \<notin> fst ` set (work (worker_done L rd ts filler (l, k) s))"
proof -
  have "tstate (tiles s (l, k)) = FILLING" using pool_wf_tile [OF assms(1), of l k] assms(2) by (simp add: tile_wf_def)
  moreover have "(l, k) \<notin> fst ` set (work s)" using assms(1,2) by (force simp: pool_wf_def)
  ultimately show ?thesis
    using assms(2,3) worker_done_frame [of "(l, k)" s L rd ts filler]
    by (auto simp: worker_done_def do_fill_tile_def Let_def split: prod.splits)
qed

text \<open>Clearing one list cancels the queued tiles of all others.\<close>

lemma clear_cancels_others:
  assumes "pool_wf ts names right served silent s" "((l', k), i) \<in> set (work s)" "l' \<noteq> l"
  shows "tstate (tiles (clear_tiles L rd ts filler l s) (l', k)) = CANCELED"
proof -
  define s1 where "s1 = cancel_all_queued_fillers L rd s"
  have d: "distinct (map fst (work s))" using assms(1) by (simp add: pool_wf_def)
  have "(l', k) \<in> fst ` set (work s)" using assms(2) by force
  then have c1: "tstate (tiles s1 (l', k)) = CANCELED"
    using cancel_queue_tiles [OF d, of L rd s "(l', k)"] by (simp add: s1_def cancel_all_queued_fillers_def canceled_tile_def)
  note c = cancel_all_spec [OF assms(1), where L = L and rd = rd, folded s1_def]
  define s2 where "s2 = fold (\<lambda>k s. if is_free (tiles s (l, k)) then s else drop_tile L rd ts filler (l, k) s) [0, 1, 2] s1"
  have "others_kept l s1 s2" using clear_slots_spec [OF c(1,2)] unfolding s2_def by blast
  then have "tstate (tiles s2 (l', k)) = CANCELED" using c1 assms(3) unfolding others_kept_def by metis
  moreover have "clear_tiles L rd ts filler l s = s2\<lparr>active := (active s2)(l := (\<lambda>_. None))\<rparr>"
    by (simp add: clear_tiles_def Let_def s2_def s1_def drop_tile_def del: fold_simps)
  ultimately show ?thesis by simp
qed

end

end
