(* ===== verification/Url_String.thy ===== *)
theory Url_String
  imports LB_Prelude
begin

text \<open>
  URLs that may hold sensitive data (\<^verbatim>\<open>src/common/urlstring.hh\<close> and \<^verbatim>\<open>urlstring.cc\<close>), with the
  concealed form that goes to the log. A \<^verbatim>\<open>char\<close> is its code; codes above 127 are negative in the
  program and fall through all comparisons, as they do here. The MD5 hash is a library function.
\<close>

datatype sensitivity = GENERIC | CONTAINS_SENSITIVE_DATA

record url_string =
  url :: string
  url_sensitivity :: sensitivity

definition mk_url :: "sensitivity \<Rightarrow> string \<Rightarrow> url_string" where
  "mk_url sens u = \<lparr>url = u, url_sensitivity = sens\<rparr>"

definition url_clear :: "url_string \<Rightarrow> url_string" where
  "url_clear u = u\<lparr>url := []\<rparr>"

definition url_append :: "url_string \<Rightarrow> string \<Rightarrow> url_string" where
  "url_append u src = u\<lparr>url := url u @ src\<rparr>"

abbreviation code :: "char \<Rightarrow> nat" where
  "code c \<equiv> of_char c"

definition rot :: "char \<Rightarrow> nat \<Rightarrow> char" where
  "rot ch b = char_of (b + (code ch - b + 13) mod 26)"

definition conceal_char :: "char \<Rightarrow> char" where
  "conceal_char ch =
     (if code ch \<ge> 97 \<and> code ch \<le> 122 then rot ch 97
      else if code ch \<ge> 65 \<and> code ch \<le> 122 then rot ch 65
      else ch)"

definition copy_concealed :: "string \<Rightarrow> string" where
  "copy_concealed u = map conceal_char u"

definition get_for_logging :: "url_string \<Rightarrow> string" where
  "get_for_logging u =
     (case url_sensitivity u of GENERIC \<Rightarrow> url u | CONTAINS_SENSITIVE_DATA \<Rightarrow> copy_concealed (url u))"

text \<open>\<^verbatim>\<open>Url::OStream\<close>: text and URLs are concatenated; the result is sensitive once a part is.\<close>

definition ostream_url :: "url_string \<Rightarrow> url_string \<Rightarrow> url_string" where
  "ostream_url os src =
     os\<lparr>url := url os @ url src,
        url_sensitivity := (case url_sensitivity src of
            GENERIC \<Rightarrow> url_sensitivity os | CONTAINS_SENSITIVE_DATA \<Rightarrow> CONTAINS_SENSITIVE_DATA)\<rparr>"

definition ostream_text :: "url_string \<Rightarrow> string \<Rightarrow> url_string" where
  "ostream_text os src = os\<lparr>url := url os @ src\<rparr>"

section \<open>What the log shows\<close>

lemma code_char: "n < 256 \<Longrightarrow> code (char_of n) = n"
  by simp

lemma conceal_code:
  "code (conceal_char c) =
     (if 97 \<le> code c \<and> code c \<le> 122 then 97 + (code c - 97 + 13) mod 26
      else if 65 \<le> code c \<and> code c \<le> 122 then 65 + (code c - 65 + 13) mod 26 else code c)"
proof -
  have "97 + (code c - 97 + 13) mod 26 < 256" "65 + (code c - 65 + 13) mod 26 < 256"
    using mod_less_divisor [of 26 "code c - 97 + 13"] mod_less_divisor [of 26 "code c - 65 + 13"] by linarith+
  then show ?thesis by (simp add: conceal_char_def rot_def del: of_char_of)  (simp add: code_char)
qed

lemma rot13_twice: "k < (26 :: nat) \<Longrightarrow> ((k + 13) mod 26 + 13) mod 26 = k"
  by presburger

lemma conceal_letter:
  assumes "code c = b + k" "k < 26" "b = 65 \<or> b = 97"
  shows "code (conceal_char c) = b + (k + 13) mod 26"
  using assms by (auto simp: conceal_code add.commute [of k])

lemma conceal_twice:
  assumes "\<not> (90 < code c \<and> code c < 97)"
  shows "conceal_char (conceal_char c) = c"
proof (cases "97 \<le> code c \<and> code c \<le> 122 \<or> 65 \<le> code c \<and> code c \<le> 90")
  case True
  then have "\<exists>b k. code c = b + k \<and> k < 26 \<and> (b = 65 \<or> b = (97 :: nat))"
    by (rule disjE; (intro exI [of _ "97"] exI [of _ "code c - 97"], force)?, (intro exI [of _ "65"] exI [of _ "code c - 65"], force)?)
  then obtain b k where b: "code c = b + k" "k < 26" "b = 65 \<or> b = 97" by blast
  have "code (conceal_char (conceal_char c)) = b + ((k + 13) mod 26 + 13) mod 26"
    by (rule conceal_letter [OF conceal_letter [OF b] _ b(3)]) simp
  then have "code (conceal_char (conceal_char c)) = code c" using rot13_twice [OF b(2)] b(1) by simp
  then show ?thesis by (metis char_of_char)
next
  case False
  then have "conceal_char c = c" using assms by (auto simp: conceal_char_def)
  then show ?thesis by simp
qed

end
