(* ===== verification/Upnp_Filler.thy ===== *)
theory Upnp_Filler
  imports Tile_Range Url_String
begin

text \<open>
  The function that fills the tiles of UPnP media lists (\<^verbatim>\<open>src/dlna/dbus_upnp_list_filler.cc\<close>). The
  UPnP stack behind D-Bus is the parameter \<open>upnp_env\<close>: the object path of a cached list, whether a
  proxy for the path can be created, whether the server has the quirk that makes its cover art
  unusable, and the answer to the D-Bus method that lists a part of the children of a container,
  each of them a dictionary.
\<close>

section \<open>Data\<close>

datatype item_kind = OPAQUE | DIRECTORY | REGULAR_FILE

record upnp_item =
  dbus_path :: string
  display_name_utf8 :: string
  album_art_url :: url_string
  kind :: item_kind

definition empty_upnp_item :: upnp_item where
  "empty_upnp_item = \<lparr>dbus_path = [], display_name_utf8 = [], album_art_url = mk_url GENERIC [], kind = OPAQUE\<rparr>"

definition mk_upnp_item :: "string \<Rightarrow> string \<Rightarrow> url_string \<Rightarrow> bool \<Rightarrow> upnp_item" where
  "mk_upnp_item p n u is_container =
     \<lparr>dbus_path = p, display_name_utf8 = n, album_art_url = u, kind = if is_container then DIRECTORY else REGULAR_FILE\<rparr>"

definition reset_upnp_item :: "upnp_item \<Rightarrow> upnp_item" where
  "reset_upnp_item d = \<lparr>dbus_path = [], display_name_utf8 = [], album_art_url = url_clear (album_art_url d), kind = OPAQUE\<rparr>"

definition media_list_tile_size :: nat where
  "media_list_tile_size = 8"

type_synonym upnp_dict = "(string \<times> string) list"

section \<open>Errors\<close>

datatype g_io_error =
  G_IO_ERROR_FAILED | G_IO_ERROR_EXISTS | G_IO_ERROR_IS_DIRECTORY | G_IO_ERROR_NOT_DIRECTORY |
  G_IO_ERROR_NOT_EMPTY | G_IO_ERROR_NOT_REGULAR_FILE | G_IO_ERROR_NOT_SYMBOLIC_LINK |
  G_IO_ERROR_NOT_MOUNTABLE_FILE | G_IO_ERROR_FILENAME_TOO_LONG | G_IO_ERROR_INVALID_FILENAME |
  G_IO_ERROR_TOO_MANY_LINKS | G_IO_ERROR_NO_SPACE | G_IO_ERROR_INVALID_ARGUMENT |
  G_IO_ERROR_NOT_MOUNTED | G_IO_ERROR_ALREADY_MOUNTED | G_IO_ERROR_CLOSED | G_IO_ERROR_READ_ONLY |
  G_IO_ERROR_CANT_CREATE_BACKUP | G_IO_ERROR_WRONG_ETAG | G_IO_ERROR_TIMED_OUT |
  G_IO_ERROR_WOULD_RECURSE | G_IO_ERROR_WOULD_MERGE | G_IO_ERROR_FAILED_HANDLED |
  G_IO_ERROR_TOO_MANY_OPEN_FILES | G_IO_ERROR_NOT_INITIALIZED | G_IO_ERROR_ADDRESS_IN_USE |
  G_IO_ERROR_PARTIAL_INPUT | G_IO_ERROR_INVALID_DATA | G_IO_ERROR_DBUS_ERROR | G_IO_ERROR_BROKEN_PIPE
  | G_IO_ERROR_NOT_CONNECTED | G_IO_ERROR_MESSAGE_TOO_LARGE | G_IO_ERROR_NOT_FOUND |
  G_IO_ERROR_PERMISSION_DENIED | G_IO_ERROR_CONNECTION_REFUSED | G_IO_ERROR_PROXY_AUTH_FAILED |
  G_IO_ERROR_PROXY_NEED_AUTH | G_IO_ERROR_PROXY_NOT_ALLOWED | G_IO_ERROR_NOT_SUPPORTED |
  G_IO_ERROR_CANCELLED | G_IO_ERROR_PENDING | G_IO_ERROR_BUSY | G_IO_ERROR_WOULD_BLOCK |
  G_IO_ERROR_HOST_NOT_FOUND | G_IO_ERROR_HOST_UNREACHABLE | G_IO_ERROR_NETWORK_UNREACHABLE |
  G_IO_ERROR_PROXY_FAILED | G_IO_ERROR_NO_SUCH_DEVICE

text \<open>A \<^verbatim>\<open>GError\<close> of the I/O domain with a code the program knows, or any other.\<close>

datatype gerror = IO_ERROR g_io_error | OTHER_ERROR

definition io_error_to_list_error :: "gerror \<Rightarrow> list_error" where
  "io_error_to_list_error g =
     (case g of
        OTHER_ERROR \<Rightarrow> ERR_PROTOCOL
      | IO_ERROR c \<Rightarrow> (case c of
        G_IO_ERROR_NOT_FOUND \<Rightarrow> ERR_EMPTY
      | G_IO_ERROR_PERMISSION_DENIED \<Rightarrow> ERR_PERMISSION_DENIED
      | G_IO_ERROR_CONNECTION_REFUSED \<Rightarrow> ERR_PERMISSION_DENIED
      | G_IO_ERROR_PROXY_AUTH_FAILED \<Rightarrow> ERR_PERMISSION_DENIED
      | G_IO_ERROR_PROXY_NEED_AUTH \<Rightarrow> ERR_PERMISSION_DENIED
      | G_IO_ERROR_PROXY_NOT_ALLOWED \<Rightarrow> ERR_PERMISSION_DENIED
      | G_IO_ERROR_NOT_SUPPORTED \<Rightarrow> ERR_NOT_SUPPORTED
      | G_IO_ERROR_CANCELLED \<Rightarrow> ERR_INTERRUPTED
      | G_IO_ERROR_PENDING \<Rightarrow> ERR_BUSY_3000
      | G_IO_ERROR_BUSY \<Rightarrow> ERR_BUSY_3000
      | G_IO_ERROR_WOULD_BLOCK \<Rightarrow> ERR_BUSY_3000
      | G_IO_ERROR_HOST_NOT_FOUND \<Rightarrow> ERR_NET_IO
      | G_IO_ERROR_HOST_UNREACHABLE \<Rightarrow> ERR_NET_IO
      | G_IO_ERROR_NETWORK_UNREACHABLE \<Rightarrow> ERR_NET_IO
      | G_IO_ERROR_PROXY_FAILED \<Rightarrow> ERR_NET_IO
      | G_IO_ERROR_NO_SUCH_DEVICE \<Rightarrow> ERR_NET_IO
      | _ \<Rightarrow> ERR_PROTOCOL))"

section \<open>Filling a tile\<close>

record upnp_env =
  object_path :: "list_id \<Rightarrow> string"
  proxy_available :: "string \<Rightarrow> bool"
  art_not_usable :: "list_id \<Rightarrow> bool"
  request_alphabetically_sorted :: bool
  list_children :: "bool \<Rightarrow> string \<Rightarrow> nat \<Rightarrow> nat \<Rightarrow> string list \<Rightarrow> gerror + upnp_dict list"

record dict_fields =
  f_display_name :: "string option"
  f_path :: "string option"
  f_album_art_url :: "string option"
  f_container :: "bool option"

definition read_field :: "string \<times> string \<Rightarrow> dict_fields \<Rightarrow> dict_fields" where
  "read_field kv f =
     (case kv of (key, val) \<Rightarrow>
        if key = ''DisplayName'' then f\<lparr>f_display_name := Some val\<rparr>
        else if key = ''Path'' then f\<lparr>f_path := Some val\<rparr>
        else if key = ''AlbumArtURL'' then f\<lparr>f_album_art_url := Some val\<rparr>
        else if key = ''Type'' then f\<lparr>f_container := Some (val = ''container'')\<rparr>
        else f)"

definition fill_list_item_from_upnp_data :: "upnp_dict \<Rightarrow> upnp_item option" where
  "fill_list_item_from_upnp_data child_data =
     (let f = fold read_field child_data
                \<lparr>f_display_name = None, f_path = None, f_album_art_url = None, f_container = None\<rparr>
      in (case (f_display_name f, f_path f, f_container f) of
            (Some n, Some p, Some c) \<Rightarrow>
              Some (mk_upnp_item p n
                (case f_album_art_url f of Some u \<Rightarrow> mk_url GENERIC u | None \<Rightarrow> mk_url GENERIC []) c)
          | _ \<Rightarrow> None))"

text \<open>The loop over the children stops after the first malformed one, which is counted.\<close>

fun fill_children :: "upnp_dict list \<Rightarrow> int \<times> upnp_item list \<times> list_error" where
  "fill_children [] = (0, [], ERR_OK)"
| "fill_children (d # ds) =
     (case fill_list_item_from_upnp_data d of
        None \<Rightarrow> (1, [], ERR_PROTOCOL)
      | Some it \<Rightarrow> (case fill_children ds of (n, xs, e) \<Rightarrow> (n + 1, it # xs, e)))"

definition children_filter :: "bool \<Rightarrow> string list" where
  "children_filter no_art = [''DisplayName'', ''Path'', ''Type''] @ (if no_art then [] else [''AlbumArtURL''])"

definition upnp_fill :: "upnp_env \<Rightarrow> upnp_item filler" where
  "upnp_fill W list_id idx count may_continue =
     (let path = object_path W list_id
      in if \<not> proxy_available W path then (-1, [], ERR_NOT_FOUND)
         else (case list_children W (request_alphabetically_sorted W) path idx count
                      (children_filter (art_not_usable W list_id)) of
                 Inl g \<Rightarrow> (-1, [], io_error_to_list_error g)
               | Inr children \<Rightarrow> fill_children (take count children)))"

section \<open>The interface of the fillers\<close>

text \<open>Some answer of the server gives the data of an item, or it is malformed.\<close>

definition upnp_answer :: "upnp_env \<Rightarrow> list_id \<Rightarrow> nat \<Rightarrow> nat \<Rightarrow> upnp_dict list \<Rightarrow> bool" where
  "upnp_answer W i b n children \<longleftrightarrow>
     list_children W (request_alphabetically_sorted W) (object_path W i) b n
       (children_filter (art_not_usable W i)) = Inr children"

definition upnp_right :: "upnp_env \<Rightarrow> (list_id \<Rightarrow> addr \<Rightarrow> bool) \<Rightarrow> addr \<Rightarrow> nat \<Rightarrow> upnp_item \<Rightarrow> bool" where
  "upnp_right W names l k d \<longleftrightarrow>
     (\<exists>i b children. names i l \<and> upnp_answer W i b media_list_tile_size children \<and> b \<le> k \<and>
        k < b + min media_list_tile_size (length children) \<and>
        (case fill_list_item_from_upnp_data (children ! (k - b)) of Some it \<Rightarrow> d = it | None \<Rightarrow> True))"

text \<open>Whenever the server answers a request for the part of the list that has the item, the item is
  in the answer, and no item before it is malformed.\<close>

definition upnp_served :: "upnp_env \<Rightarrow> (list_id \<Rightarrow> addr \<Rightarrow> bool) \<Rightarrow> addr \<Rightarrow> nat \<Rightarrow> bool" where
  "upnp_served W names l k \<longleftrightarrow>
     (\<forall>i b children. names i l \<and> upnp_answer W i b media_list_tile_size children \<and> b \<le> k \<and>
        k < b + media_list_tile_size \<longrightarrow>
        k < b + length children \<and> (\<forall>j < k - b. fill_list_item_from_upnp_data (children ! j) \<noteq> None))"

text \<open>The server may answer with an empty list.\<close>

definition upnp_silent :: "upnp_env \<Rightarrow> (list_id \<Rightarrow> addr \<Rightarrow> bool) \<Rightarrow> addr \<Rightarrow> bool" where
  "upnp_silent W names l \<longleftrightarrow> (\<exists>i b. names i l \<and> upnp_answer W i b media_list_tile_size [])"

lemma io_error_failed: "io_error_to_list_error g \<noteq> ERR_OK"
  by (simp add: io_error_to_list_error_def split: gerror.split g_io_error.split)

lemma fill_children_count:
  "fill_children ds = (n, xs, e) \<Longrightarrow>
     0 \<le> n \<and> nat n \<le> length ds \<and> length xs \<le> nat n \<and>
     (\<forall>j < nat n. case fill_list_item_from_upnp_data (ds ! j) of Some it \<Rightarrow> j < length xs \<and> xs ! j = it | None \<Rightarrow> length xs \<le> j)"
proof (induction ds arbitrary: n xs e)
  case (Cons d ds)
  show ?case
  proof (cases "fill_list_item_from_upnp_data d")
    case (Some it)
    obtain m ys e' where f: "fill_children ds = (m, ys, e')" by (metis prod_cases3)
    have eq: "n = m + 1" "xs = it # ys" using Cons.prems Some f by simp_all
    have IH: "0 \<le> m" "nat m \<le> length ds" "length ys \<le> nat m"
      "\<And>j. j < nat m \<Longrightarrow> case fill_list_item_from_upnp_data (ds ! j) of Some it \<Rightarrow> j < length ys \<and> ys ! j = it | None \<Rightarrow> length ys \<le> j"
      using Cons.IH [OF f] by auto
    have "case fill_list_item_from_upnp_data ((d # ds) ! j) of Some a \<Rightarrow> j < length xs \<and> xs ! j = a | None \<Rightarrow> length xs \<le> j"
      if "j < nat n" for j
    proof (cases j)
      case (Suc j')
      then have "j' < nat m" using that IH(1) by (simp add: eq nat_add_distrib)
      then show ?thesis using IH(4) [of j'] by (auto simp: eq Suc split: option.splits)
    qed (simp add: eq Some)
    then show ?thesis using IH by (auto simp: eq nat_add_distrib)
  qed (use Cons.prems in auto)
qed simp

lemma fill_children_reaches:
  "fill_children ds = (n, xs, e) \<Longrightarrow> k < length ds \<Longrightarrow> \<forall>j < k. fill_list_item_from_upnp_data (ds ! j) \<noteq> None \<Longrightarrow> k < nat n"
proof (induction ds arbitrary: n xs e k)
  case (Cons d ds)
  obtain m ys e' where f: "fill_children ds = (m, ys, e')" by (metis prod_cases3)
  have m: "0 \<le> m" using fill_children_count [OF f] by simp
  show ?case
  proof (cases k)
    case 0 then show ?thesis using Cons.prems(1) f m by (auto split: option.splits)
  next
    case (Suc k')
    have "k' < nat m" using Cons.IH [OF f, of k'] Cons.prems(2,3) Suc by fastforce
    moreover have "n = m + 1" using Cons.prems(1,3) f Suc by (auto split: option.splits)
    ultimately show ?thesis using Suc m by (simp add: nat_add_distrib)
  qed
qed simp

lemma upnp_fill_positive:
  assumes "upnp_fill W i b media_list_tile_size c = (n, xs, e)" "0 < n"
  obtains children where "upnp_answer W i b media_list_tile_size children"
    "fill_children (take media_list_tile_size children) = (n, xs, e)"
  using assms by (auto simp: upnp_fill_def upnp_answer_def Let_def split: if_splits sum.splits)

interpretation upnp: tile_filler media_list_tile_size "upnp_fill W" names "upnp_right W names" "upnp_served W names" "upnp_silent W names"
  for W names
proof
  show "0 < media_list_tile_size" "media_list_tile_size < 2 ^ 16" by (simp_all add: media_list_tile_size_def)
next
  fix i b c n xs e
  assume a: "upnp_fill W i b media_list_tile_size c = (n, xs, e)"
  show "n < 0 \<Longrightarrow> e \<noteq> ERR_OK"
  proof (rule ccontr)
    assume "n < 0" "\<not> e \<noteq> ERR_OK"
    then show False
      using a io_error_failed fill_children_count [of "take media_list_tile_size ds" n xs e for ds]
      by (auto simp: upnp_fill_def Let_def split: if_splits sum.splits)
  qed
  show "upnp_silent W names l" if z: "upnp_fill W i' b' media_list_tile_size c' = (0, ds, e')" and n: "names i' l" for i' b' c' ds e' l
  proof -
    obtain children where ans: "upnp_answer W i' b' media_list_tile_size children"
      and "fill_children (take media_list_tile_size children) = (0, ds, e')"
      using z by (auto simp: upnp_fill_def upnp_answer_def Let_def split: if_splits sum.splits)
    then have "children = []"
      using fill_children_reaches [of "take media_list_tile_size children" 0 ds e' 0] by (auto simp: media_list_tile_size_def)
    then show ?thesis using ans n by (auto simp: upnp_silent_def)
  qed
  have bounds: "length xs \<le> nat n \<and> nat n \<le> media_list_tile_size" if p: "0 < n"
  proof -
    obtain ds where "fill_children (take media_list_tile_size ds) = (n, xs, e)" using upnp_fill_positive [OF a p] by blast
    then show ?thesis using fill_children_count [of "take media_list_tile_size ds" n xs e] by simp
  qed
  have right: "upnp_right W names l (b + j) d"
    if "names i l" "j < nat n" "j < length xs \<Longrightarrow> d = xs ! j" for l j d
  proof -
    have "0 < n" using that(2) by simp
    then obtain ds where ans: "upnp_answer W i b media_list_tile_size ds"
      and f: "fill_children (take media_list_tile_size ds) = (n, xs, e)"
      using upnp_fill_positive [OF a] by blast
    show ?thesis
      unfolding upnp_right_def using that ans fill_children_count [OF f]
      by (intro exI [of _ i] exI [of _ b] exI [of _ ds]) (force split: option.splits)
  qed
  show "k < b + nat n" if p: "0 < n" and k: "names i l" "upnp_served W names l k" "b \<le> k" "k < b + media_list_tile_size" for l k
  proof -
    obtain ds where ans: "upnp_answer W i b media_list_tile_size ds"
      and f: "fill_children (take media_list_tile_size ds) = (n, xs, e)"
      using upnp_fill_positive [OF a p] by blast
    have "k < b + length ds \<and> (\<forall>j < k - b. fill_list_item_from_upnp_data (ds ! j) \<noteq> None)"
      using k ans unfolding upnp_served_def by blast
    then have "k - b < nat n" using k(3,4) by (intro fill_children_reaches [OF f]) auto
    then show ?thesis using k(3) by linarith
  qed
  show "length xs \<le> nat n \<and> nat n \<le> media_list_tile_size" if "0 < n" by (rule bounds [OF that])
  show "upnp_right W names l (b + j) (xs ! j)" if "0 < n" "names i l" "j < length xs" for l j
    using right [of l j] that bounds by simp
  show "upnp_right W names l (b + j) d" if "names i l" "length xs \<le> j" "j < nat n" for l j d
    using right [of l j d] that by simp
qed

end
