(* ===== verification/Tile_Props.thy ===== *)
theory Tile_Props
  imports Upnp_Filler Samples
begin

text \<open>
  Properties of the tiled lists of UPnP media containers, with a sample server for the witnesses, and
  of the concealed URLs. Below, \<open>names\<close> relates the IDs a list has had to the list.
\<close>

section \<open>A sample server\<close>

text \<open>One container of 20 items, each named by as many letters as its index.\<close>

definition sample_dict :: "nat \<Rightarrow> upnp_dict" where
  "sample_dict k = [(''DisplayName'', replicate k CHR ''x''), (''Path'', ''/p''), (''Type'', ''item'')]"

definition sample_env :: upnp_env where
  "sample_env = \<lparr>object_path = (\<lambda>_. ''/c''), proxy_available = (\<lambda>_. True), art_not_usable = (\<lambda>_. False),
     request_alphabetically_sorted = True,
     list_children = (\<lambda>_ _ b n _. if b < 20 then Inr (map sample_dict [b..<min (b + n) 20]) else Inl OTHER_ERROR)\<rparr>"

definition sample_names :: "list_id \<Rightarrow> addr \<Rightarrow> bool" where
  "sample_names i l \<longleftrightarrow> i = 5 \<and> l = 2"

definition sample_pool :: "nat \<Rightarrow> upnp_item tile_pool" where
  "sample_pool n = \<lparr>tiles = (\<lambda>_. mk_tile (replicate 8 (new_list_item empty_upnp_item))), work = [],
     active = (\<lambda>_ _. None), pool_killed = {}, number_of_entries = (\<lambda>_. n)\<rparr>"

definition sample_item :: "nat \<Rightarrow> upnp_item" where
  "sample_item k = mk_upnp_item ''/p'' (replicate k CHR ''x'') (mk_url GENERIC []) False"

abbreviation sample_reach :: "upnp_item tile_pool \<Rightarrow> bool" where
  "sample_reach \<equiv> pool_reach sample_layout reset_upnp_item media_list_tile_size (upnp_fill sample_env) sample_names"

lemma sample_fresh: "sample_reach (sample_pool n)"
  by (rule pool_reach.start) (auto simp: fresh_pool_def sample_pool_def media_list_tile_size_def)

lemma sample_parse: "fill_list_item_from_upnp_data (sample_dict k) = Some (sample_item k)"
  by (simp add: fill_list_item_from_upnp_data_def sample_dict_def read_field_def sample_item_def Let_def)

lemma sample_answer:
  "upnp_answer sample_env i b media_list_tile_size children \<longleftrightarrow> b < 20 \<and> children = map sample_dict [b..<min (b + 8) 20]"
  by (auto simp: upnp_answer_def sample_env_def media_list_tile_size_def)

lemma sample_served: "k < 20 \<Longrightarrow> upnp_served sample_env sample_names 2 k"
  unfolding upnp_served_def sample_answer by (auto simp: sample_parse media_list_tile_size_def)

lemma sample_not_silent: "\<not> upnp_silent sample_env sample_names 2"
  by (auto simp: upnp_silent_def sample_answer)

lemma sample_right: "k < 20 \<Longrightarrow> upnp_right sample_env sample_names 2 k d \<Longrightarrow> d = sample_item k"
  by (auto simp: upnp_right_def sample_answer sample_parse)

section \<open>Properties\<close>

text \<open>C3: In every state that the reader and the worker threads can reach, the tiles of every media list
  are well formed: queued tiles are waiting to be filled and nobody else has them, ready tiles hold
  the data the server gave for exactly their items, the active tiles of a list are distinct and just
  those in use, and their number fits the size of the list.\<close>

theorem tiles_consistent:
  assumes "pool_reach L reset_upnp_item media_list_tile_size (upnp_fill W) names s"
  shows "pool_inv media_list_tile_size names (upnp_right W names) (upnp_served W names) (upnp_silent W names) s"
  by (rule upnp.reach_inv [OF assms])

theorem tiles_consistent_witness:
  "sample_reach (sample_pool 20) \<and>
   pool_inv media_list_tile_size sample_names (upnp_right sample_env sample_names) (upnp_served sample_env sample_names)
     (upnp_silent sample_env sample_names) (sample_pool 20)"
  using sample_fresh tiles_consistent [OF sample_fresh] by blast

text \<open>C29: Prefetching a range inside the list always works: a free tile is found whenever one is needed,
  and the exception for an invalid slide direction is not thrown.\<close>

theorem prefetch_succeeds:
  assumes "pool_reach L reset_upnp_item media_list_tile_size (upnp_fill W) names s" "names i l"
    "first + count \<le> number_of_entries s l"
  shows "\<exists>s' cached. prefetch L reset_upnp_item media_list_tile_size (upnp_fill W) l i first count (number_of_entries s l) auto s =
    Some (s', Inr cached)"
  using upnp.prefetch_inv [OF upnp.reach_inv [OF assms(1)] assms(2,3)] by blast

theorem prefetch_succeeds_witness:
  "sample_reach (sample_pool 20) \<and> sample_names 5 2 \<and>
   (\<exists>s' cached. prefetch sample_layout reset_upnp_item media_list_tile_size (upnp_fill sample_env) 2 5 13 7 20 False (sample_pool 20) =
      Some (s', Inr cached))"
proof -
  have n: "sample_names 5 2" and e: "number_of_entries (sample_pool 20) 2 = 20" by (simp_all add: sample_names_def sample_pool_def)
  show ?thesis
    using prefetch_succeeds [OF sample_fresh n, of 13 7 20 False] sample_fresh [of 20] n unfolding e by simp
qed

text \<open>C6: Random access to an item of a media list returns the item the server has: materialising the
  item always works and centers the tiles around it; whatever the worker threads do then, the reader
  gets the data that the server gave for the item, an error if the tile could not be filled, or waits
  while the tile is being filled.\<close>

theorem random_access_right:
  assumes "pool_reach L reset_upnp_item media_list_tile_size (upnp_fill W) names s" "names i l"
    "idx < number_of_entries s l" "number_of_entries s l \<le> 2 ^ 32" "upnp_served W names l idx"
  shows "\<exists>s1. materialize L reset_upnp_item media_list_tile_size (upnp_fill W) l i idx s = Some (s1, Inr ()) \<and>
    (\<forall>s2. (worker_step L reset_upnp_item media_list_tile_size (upnp_fill W))\<^sup>*\<^sup>* s1 s2 \<longrightarrow>
      (\<exists>k. active s2 l CENTER = Some k \<and>
        (case get_list_item_unsafe l idx s2 of
           Some (Inr it) \<Rightarrow> tstate (tiles s2 (l, k)) = READY \<and> upnp_right W names l idx (specific_data it)
         | Some (Inl e) \<Rightarrow> tstate (tiles s2 (l, k)) \<in> {CANCELED, TILE_ERROR} \<and> e = terror (tiles s2 (l, k))
         | None \<Rightarrow> tstate (tiles s2 (l, k)) = FILLING)))"
proof -
  obtain s1 where s1: "materialize L reset_upnp_item media_list_tile_size (upnp_fill W) l i idx s = Some (s1, Inr ())"
    "pool_inv media_list_tile_size names (upnp_right W names) (upnp_served W names) (upnp_silent W names) s1"
    "view l s1 CENTER = Some (align media_list_tile_size idx)"
    using upnp.materialize_center [OF upnp.reach_inv [OF assms(1)] assms(2,3)] by blast
  have wf1: "pool_wf media_list_tile_size names (upnp_right W names) (upnp_served W names) (upnp_silent W names) s1"
    using s1(2) by (simp add: pool_inv_def)
  have "\<exists>k. active s2 l CENTER = Some k \<and>
      (case get_list_item_unsafe l idx s2 of
         Some (Inr it) \<Rightarrow> tstate (tiles s2 (l, k)) = READY \<and> upnp_right W names l idx (specific_data it)
       | Some (Inl e) \<Rightarrow> tstate (tiles s2 (l, k)) \<in> {CANCELED, TILE_ERROR} \<and> e = terror (tiles s2 (l, k))
       | None \<Rightarrow> tstate (tiles s2 (l, k)) = FILLING)"
    if "(worker_step L reset_upnp_item media_list_tile_size (upnp_fill W))\<^sup>*\<^sup>* s1 s2" for s2
    by (rule upnp.center_outcome [OF s1(2,3) that]) (use assms(3-5) in simp_all)
  then show ?thesis using s1(1) by blast
qed

abbreviation sample_worker :: "upnp_item tile_pool \<Rightarrow> upnp_item tile_pool \<Rightarrow> bool" where
  "sample_worker \<equiv> worker_step sample_layout reset_upnp_item media_list_tile_size (upnp_fill sample_env)"

theorem random_access_right_witness:
  "sample_reach (sample_pool 20) \<and> sample_names 5 2 \<and> upnp_served sample_env sample_names 2 13 \<and>
   (\<exists>s1. materialize sample_layout reset_upnp_item media_list_tile_size (upnp_fill sample_env) 2 5 13 (sample_pool 20) = Some (s1, Inr ()) \<and>
     (\<forall>s2 it. sample_worker\<^sup>*\<^sup>* s1 s2 \<longrightarrow> get_list_item_unsafe 2 13 s2 = Some (Inr it) \<longrightarrow> specific_data it = sample_item 13))"
proof -
  have n: "sample_names 5 2" and e: "number_of_entries (sample_pool 20) 2 = 20" by (simp_all add: sample_names_def sample_pool_def)
  have sv: "upnp_served sample_env sample_names 2 13" by (rule sample_served) simp
  have r: "d = sample_item 13" if "upnp_right sample_env sample_names 2 13 d" for d by (rule sample_right [OF _ that]) simp
  show ?thesis
    using random_access_right [OF sample_fresh n, of 13 20] sample_fresh [of 20] n sv r unfolding e by fastforce
qed



text \<open>C7: Iterating over a range of a media list that is not in memory, and that fits into the tiles,
  hands the data that the server gave for the items to the function, in order and until the function
  asks to stop, once the tiles have been filled without an error.\<close>

theorem for_each_delivers:
  assumes "pool_reach L reset_upnp_item media_list_tile_size (upnp_fill W) names s" "names i l"
    "number_of_entries s l + media_list_tile_size < 2 ^ 32"
    "bound = range_end first count (number_of_entries s l)" "first < bound"
    "bound - first + first mod media_list_tile_size \<le> maximum_number_of_hot_items media_list_tile_size"
    "contains media_list_tile_size l first s = None" "contains media_list_tile_size l (bound - 1) s = None"
    "prefetch_range L reset_upnp_item media_list_tile_size (upnp_fill W) l i first (bound - first) s = Some (s1, res)"
    "(worker_step L reset_upnp_item media_list_tile_size (upnp_fill W))\<^sup>*\<^sup>* s1 s2" "run s1 = s2" "run s2 = s2"
    "\<forall>w k. active s2 l w = Some k \<longrightarrow> tstate (tiles s2 (l, k)) = READY"
    "\<forall>k. first \<le> k \<longrightarrow> k < bound \<longrightarrow> upnp_served W names l k"
  shows "\<exists>item. for_each_item_tiled L reset_upnp_item media_list_tile_size (upnp_fill W) run (Some l) i first count f s acc =
      Some (s2, visit f item [first..<bound] acc, ERR_OK) \<and>
    (\<forall>k. first \<le> k \<longrightarrow> k < bound \<longrightarrow> upnp_right W names l k (specific_data (item k)))"
  by (rule upnp.for_each_fresh [OF upnp.reach_inv [OF assms(1)] assms(2-)])

text \<open>The states of the witness: a list of five items, and the one worker step after the other.\<close>

definition sample_filled :: "upnp_item tile_pool" where
  "sample_filled = fill_tiles sample_layout reset_upnp_item media_list_tile_size (upnp_fill sample_env) 2 5 2 5 (sample_pool 5)"

definition sample_run :: "upnp_item tile_pool \<Rightarrow> upnp_item tile_pool" where
  "sample_run s = (case worker_take s of None \<Rightarrow> s
     | Some s' \<Rightarrow> worker_done sample_layout reset_upnp_item media_list_tile_size (upnp_fill sample_env) (2, 0) s')"

definition sample_collect :: "nat \<Rightarrow> upnp_item list_item \<Rightarrow> upnp_item list \<Rightarrow> upnp_item list \<times> bool" where
  "sample_collect i it acc = (acc @ [specific_data it], True)"

lemma sample_filled_simps:
  "work sample_filled = [((2, 0), 5)]" "active sample_filled 2 w = (if w = CENTER then Some 0 else None)"
  "base (tiles sample_filled (2, 0)) = 0" "stored_items_count (tiles sample_filled (2, 0)) = 0"
  by (auto simp: sample_filled_def fill_tiles_def clear_tiles_def cancel_all_queued_fillers_def sample_pool_def Let_def
      is_free_def mk_tile_def media_list_tile_size_def)

lemma sample_dicts_filled: "fill_children (map sample_dict ks) = (int (length ks), map sample_item ks, ERR_OK)"
  by (induction ks) (simp_all add: sample_parse)

lemma sample_fill: "upnp_fill sample_env i 0 8 c = (8, map sample_item [0..<8], ERR_OK)"
proof -
  have "upnp_fill sample_env i 0 8 c = fill_children (take 8 (map sample_dict [0..<8]))"
    by (simp add: upnp_fill_def sample_env_def Let_def del: upt_rec_numeral)
  then show ?thesis by (simp add: sample_dicts_filled del: upt_rec_numeral list.map)
qed

lemma sample_run_filled:
  "sample_worker\<^sup>*\<^sup>* sample_filled (sample_run sample_filled)" "work (sample_run sample_filled) = []"
  "active (sample_run sample_filled) = active sample_filled"
  "tstate (tiles (sample_run sample_filled) (2, 0)) = READY"
proof -
  define s' where "s' = set_tile (2, 0) ((tiles sample_filled (2, 0))\<lparr>being_filled := Some 5\<rparr>) (sample_filled\<lparr>work := []\<rparr>)"
  have t: "worker_take sample_filled = Some s'" by (simp add: worker_take_def sample_filled_simps s'_def)
  have r: "sample_run sample_filled =
      worker_done sample_layout reset_upnp_item media_list_tile_size (upnp_fill sample_env) (2, 0) s'"
    by (simp add: sample_run_def t)
  have "sample_worker s' (sample_run sample_filled)" unfolding r by (rule worker_step.finish) (simp add: s'_def)
  then show "sample_worker\<^sup>*\<^sup>* sample_filled (sample_run sample_filled)"
    using worker_step.take [OF t, of sample_layout reset_upnp_item media_list_tile_size "upnp_fill sample_env"] by simp
  show "work (sample_run sample_filled) = []" "active (sample_run sample_filled) = active sample_filled"
    "tstate (tiles (sample_run sample_filled) (2, 0)) = READY"
    using worker_done_frame [of "(2, 0)" s' sample_layout reset_upnp_item media_list_tile_size "upnp_fill sample_env"]
    by (auto simp: r only_tile_def s'_def worker_done_def do_fill_tile_def Let_def sample_filled_simps sample_fill
        media_list_tile_size_def done_notification_def simp del: upt_rec_numeral list.map)
qed

lemma sample_run_idle: "work s = [] \<Longrightarrow> sample_run s = s"
  by (simp add: sample_run_def worker_take_def)

theorem for_each_delivers_witness:
  "\<exists>item. for_each_item_tiled sample_layout reset_upnp_item media_list_tile_size (upnp_fill sample_env) sample_run (Some 2) 5 2 3
      sample_collect (sample_pool 5) [] =
      Some (sample_run sample_filled, visit sample_collect item [2..<5] [], ERR_OK) \<and>
    (\<forall>k. 2 \<le> k \<longrightarrow> k < 5 \<longrightarrow> upnp_right sample_env sample_names 2 k (specific_data (item k)))"
proof (rule for_each_delivers [where s = "sample_pool 5" and names = sample_names and bound = 5 and first = 2 and count = 3
      and l = 2 and i = 5 and ?s1.0 = sample_filled and res = "Inr True"])
  let ?p = "sample_pool 5" and ?f = "upnp_fill sample_env"
  have c: "contains media_list_tile_size 2 idx ?p = None" for idx by (simp add: contains_def sample_pool_def)
  then show "contains media_list_tile_size 2 2 ?p = None" "contains media_list_tile_size 2 (5 - 1) ?p = None" by simp_all
  show "prefetch_range sample_layout reset_upnp_item media_list_tile_size ?f 2 5 2 (5 - 2) ?p = Some (sample_filled, Inr True)"
    using upnp.prefetch_fills [of 3 2 2 ?p sample_layout reset_upnp_item sample_env 5 5] c
    by (simp add: prefetch_range_def sample_filled_def maximum_number_of_hot_items_def maximum_number_of_active_tiles_def
        number_of_spanned_tiles_def media_list_tile_size_def sample_pool_def)
  show "sample_worker\<^sup>*\<^sup>* sample_filled (sample_run sample_filled)" by (rule sample_run_filled(1))
  show "sample_run (sample_run sample_filled) = sample_run sample_filled"
    by (rule sample_run_idle [OF sample_run_filled(2)])
  show "\<forall>w k. active (sample_run sample_filled) 2 w = Some k \<longrightarrow> tstate (tiles (sample_run sample_filled) (2, k)) = READY"
    using sample_run_filled(3,4) by (simp add: sample_filled_simps)
  show "\<forall>k. 2 \<le> k \<longrightarrow> k < 5 \<longrightarrow> upnp_served sample_env sample_names 2 k" by (simp add: sample_served)
  show "sample_names 5 2" by (simp add: sample_names_def)
  show "number_of_entries ?p 2 + media_list_tile_size < 2 ^ 32" "5 = range_end 2 3 (number_of_entries ?p 2)" "(2 :: nat) < 5"
    "5 - 2 + 2 mod media_list_tile_size \<le> maximum_number_of_hot_items media_list_tile_size"
    by (simp_all add: sample_pool_def media_list_tile_size_def range_end_def maximum_number_of_hot_items_def maximum_number_of_active_tiles_def)
  show "sample_reach ?p" by (rule sample_fresh)
qed simp

section \<open>Ranges that are partly in memory\<close>

text \<open>C32: For a range of three tiles whose first item is in the center tile, prefetching reports success
  but moves the tiles in the wrong direction: the tile of the first item is loaded twice, and between
  the two is the tile that was above it, so that iteration does not continue with the next items.\<close>

theorem prefetch_three_tiles_reversed:
  assumes "pool_reach L reset_upnp_item media_list_tile_size (upnp_fill W) names s" "names i l"
    "0 < count" "first + count \<le> number_of_entries s l" "number_of_entries s l + media_list_tile_size < 2 ^ 32"
    "count + first mod media_list_tile_size \<le> maximum_number_of_hot_items media_list_tile_size"
    "number_of_spanned_tiles media_list_tile_size first count = 3" "contains media_list_tile_size l first s = Some CENTER"
  shows "\<exists>s'. prefetch L reset_upnp_item media_list_tile_size (upnp_fill W) l i first count (number_of_entries s l) False s =
      Some (s', Inr True) \<and>
    view l s' UP = Some (align media_list_tile_size first) \<and> view l s' CENTER = view l s UP \<and>
    view l s' DOWN = Some (align media_list_tile_size first)"
  by (rule upnp.prefetch_three_from_center [OF upnp.reach_inv [OF assms(1)] assms(2-)])

definition sample_centered :: "nat \<Rightarrow> nat \<Rightarrow> upnp_item tile_pool" where
  "sample_centered c n = fill_tiles sample_layout reset_upnp_item media_list_tile_size (upnp_fill sample_env) 2 5 c n (sample_pool n)"

lemma sample_centered_reach:
  assumes "c < n"
  shows "sample_reach (sample_centered c n)"
proof (rule pool_reach.prefetched [OF sample_fresh])
  have "contains media_list_tile_size 2 c (sample_pool n) = None" by (simp add: contains_def sample_pool_def)
  then show "prefetch sample_layout reset_upnp_item media_list_tile_size (upnp_fill sample_env) 2 5 c 1
      (number_of_entries (sample_pool n) 2) True (sample_pool n) = Some (sample_centered c n, Inr True)"
    using upnp.prefetch_one [of 2 c "sample_pool n" None] by (simp add: sample_centered_def sample_pool_def)
qed (use assms in \<open>simp_all add: sample_names_def sample_pool_def\<close>)

lemma sample_centered_simps:
  "contains media_list_tile_size 2 8 (sample_centered 8 40) = Some CENTER"
  "contains media_list_tile_size 2 13 (sample_centered 1 20) = Some DOWN"
  "number_of_entries (sample_centered c n) 2 = n"
  by (auto simp: sample_centered_def fill_tiles_def clear_tiles_def cancel_all_queued_fillers_def sample_pool_def Let_def
      is_free_def mk_tile_def media_list_tile_size_def contains_def is_tile_for_def)

theorem prefetch_three_tiles_reversed_witness:
  "\<exists>s'. prefetch sample_layout reset_upnp_item media_list_tile_size (upnp_fill sample_env) 2 5 8 24 40 False (sample_centered 8 40) =
      Some (s', Inr True) \<and> view 2 s' UP = Some 8 \<and> view 2 s' DOWN = Some 8"
proof -
  have h: "align media_list_tile_size 8 = 8" "24 + 8 mod media_list_tile_size \<le> maximum_number_of_hot_items media_list_tile_size"
    "number_of_spanned_tiles media_list_tile_size 8 24 = 3" "40 + media_list_tile_size < 2 ^ 32"
    by (simp_all add: align_def maximum_number_of_hot_items_def maximum_number_of_active_tiles_def
        number_of_spanned_tiles_def media_list_tile_size_def)
  have "\<exists>s'. prefetch sample_layout reset_upnp_item media_list_tile_size (upnp_fill sample_env) 2 5 8 24
      (number_of_entries (sample_centered 8 40) 2) False (sample_centered 8 40) = Some (s', Inr True) \<and>
    view 2 s' UP = Some (align media_list_tile_size 8) \<and> view 2 s' CENTER = view 2 (sample_centered 8 40) UP \<and>
    view 2 s' DOWN = Some (align media_list_tile_size 8)"
    by (rule prefetch_three_tiles_reversed [OF sample_centered_reach]) (use h in \<open>simp_all add: sample_centered_simps sample_names_def\<close>)
  then show ?thesis unfolding sample_centered_simps(3) h(1) by blast
qed

text \<open>C33: Access to an item in the second to last tile of a list whose last tile is not full, when fewer
  items follow the item than fit into a tile: the tile loaded below the item is the first tile of the
  list instead of the last one.\<close>

theorem last_tile_missed:
  assumes "pool_reach L reset_upnp_item media_list_tile_size (upnp_fill W) names s" "names i l"
    "2 * media_list_tile_size < number_of_entries s l" "number_of_entries s l + media_list_tile_size < 2 ^ 32"
    "idx < number_of_entries s l" "contains media_list_tile_size l idx s = Some DOWN"
    "align media_list_tile_size idx + media_list_tile_size < number_of_entries s l"
    "number_of_entries s l \<le> idx + media_list_tile_size"
  shows "\<exists>s'. materialize L reset_upnp_item media_list_tile_size (upnp_fill W) l i idx s = Some (s', Inr ()) \<and>
    view l s' CENTER = Some (align media_list_tile_size idx) \<and> view l s' DOWN = Some 0"
  by (rule upnp.materialize_wraps_early [OF upnp.reach_inv [OF assms(1)] assms(2-)])

theorem last_tile_missed_witness:
  "\<exists>s'. materialize sample_layout reset_upnp_item media_list_tile_size (upnp_fill sample_env) 2 5 13 (sample_centered 1 20) =
      Some (s', Inr ()) \<and> view 2 s' CENTER = Some 8 \<and> view 2 s' DOWN = Some 0"
proof -
  have h: "align media_list_tile_size 13 = 8" "2 * media_list_tile_size < 20" "20 + media_list_tile_size < 2 ^ 32"
    "8 + media_list_tile_size < 20" "20 \<le> 13 + media_list_tile_size"
    by (simp_all add: align_def media_list_tile_size_def)
  have "\<exists>s'. materialize sample_layout reset_upnp_item media_list_tile_size (upnp_fill sample_env) 2 5 13 (sample_centered 1 20) =
      Some (s', Inr ()) \<and> view 2 s' CENTER = Some (align media_list_tile_size 13) \<and> view 2 s' DOWN = Some 0"
    by (rule last_tile_missed [OF sample_centered_reach]) (use h sample_centered_simps(2) in \<open>simp_all add: sample_centered_simps(3) sample_names_def\<close>)
  then show ?thesis unfolding h(1) .
qed

section \<open>URLs in the log\<close>

text \<open>C31: The concealed form of a URL has the length of the URL; a URL without the six characters
  between the upper-case and the lower-case letters can be read back by concealing it once more,.\<close>

theorem concealed_url:
  "length (copy_concealed u) = length u \<and>
   ((\<forall>c \<in> set u. \<not> (90 < code c \<and> code c < 97)) \<longrightarrow> copy_concealed (copy_concealed u) = u)"
  by (auto simp: copy_concealed_def comp_def conceal_twice intro!: map_idI)

theorem concealed_url_witness:
  "copy_concealed ''http://Host/x1'' = ''uggc://Ubfg/k1'' \<and> copy_concealed ''uggc://Ubfg/k1'' = ''http://Host/x1''"
proof -
  have "copy_concealed ''http://Host/x1'' = ''uggc://Ubfg/k1''"
    by (simp add: copy_concealed_def conceal_char_def rot_def char_of_def bit_Suc_0_iff)
  then show ?thesis using concealed_url [of "''http://Host/x1''"] by simp
qed

text \<open>With the characters in between, two URLs may have the same concealed form.\<close>

lemma concealed_clash: "copy_concealed ''_'' = copy_concealed ''E''"
  by (simp add: copy_concealed_def conceal_char_def rot_def)

end
