(* ===== verification/Async_Work.thy ===== *)
theory Async_Work
  imports LB_Prelude
begin

text \<open>
  Work done for a D-Bus client in the background (\<^verbatim>\<open>src/common/dbus_async_work.hh\<close> and
  the work item classes of \<^verbatim>\<open>work_by_cookie.hh\<close>): the tracker that decides by which of
  two paths the answer gets to the client, and the life of a work item. All operations
  run with the work item locked. Messages of the kind \<^verbatim>\<open>MSG_BUG\<close> are collected in a log
  of the item. The time stamps of an item, which are only printed, are left out.
\<close>

section \<open>Which path the reply takes\<close>

datatype take_path_result =
    TAKEN
  | ALREADY_ON_FAST_PATH
  | ALREADY_ON_SLOW_PATH_COOKIE_NOT_ANNOUNCED_YET
  | ALREADY_ON_SLOW_PATH_COOKIE_ANNOUNCED
  | ALREADY_ON_SLOW_PATH_READY_ANNOUNCED
  | ALREADY_ON_SLOW_PATH_FETCHING
  | INVALID_PATH

datatype reply_path =
    PATH_NONE
  | SCHEDULED
  | WAITING
  | FAST_PATH
  | SLOW_PATH_ENTERED
  | SLOW_PATH_COOKIE_SENT
  | SLOW_PATH_READY_NOTIFIED
  | SLOW_PATH_FETCHING

datatype work_state = RUNNABLE | RUNNING | DONE | CANCELING | CANCELED

datatype bug =
    Fast_path_before_execution
  | Slow_path_before_execution
  | No_phase_2_in reply_path
  | No_completion_in reply_path
  | No_scheduling_in reply_path
  | No_waiting_in reply_path
  | Run_in work_state
  | Final_state_after_run work_state
  | Bad_transition work_state work_state
  | Multiple_cancellation_requests
  | Unreachable
  | Not_implemented
  | Notified_on take_path_result
  | Timed_out_on take_path_result
  | Bad_tracker_state
  | Deferred_but work_state
  | Queued_but work_state
  | Unexpected_failure

text \<open>An operation of the tracker gives its result, the new state and what it complains about.\<close>

type_synonym 'a tracker_op = "reply_path \<Rightarrow> 'a \<times> reply_path \<times> bug list"

text \<open>
  \<^verbatim>\<open>try_take_fast_path()\<close> waits in the state \<open>SCHEDULED\<close> until the state is \<open>WAITING\<close>,
  with the lock released; \<open>None\<close> is an operation that waits. What it does once it is woken
  up depends on the state at that time, and is \<open>take_fast_path_synchronized\<close>.
\<close>

type_synonym 'a waiting_tracker_op = "reply_path \<Rightarrow> ('a \<times> reply_path \<times> bug list) option"

definition synchronize :: "reply_path \<Rightarrow> reply_path \<Rightarrow> bool" where
  "synchronize target p \<longleftrightarrow> p = target"

definition take_fast_path_synchronized :: "take_path_result waiting_tracker_op" where
  "take_fast_path_synchronized p =
     (if synchronize WAITING p then Some (TAKEN, FAST_PATH, []) else None)"

definition try_take_fast_path :: "take_path_result waiting_tracker_op" where
  "try_take_fast_path p =
     (case p of
        PATH_NONE \<Rightarrow> Some (INVALID_PATH, p, [Fast_path_before_execution])
      | SCHEDULED \<Rightarrow> take_fast_path_synchronized p
      | WAITING \<Rightarrow> Some (TAKEN, FAST_PATH, [])
      | FAST_PATH \<Rightarrow> Some (ALREADY_ON_FAST_PATH, p, [])
      | SLOW_PATH_ENTERED \<Rightarrow> Some (ALREADY_ON_SLOW_PATH_COOKIE_NOT_ANNOUNCED_YET, p, [])
      | SLOW_PATH_COOKIE_SENT \<Rightarrow> Some (ALREADY_ON_SLOW_PATH_COOKIE_ANNOUNCED, p, [])
      | SLOW_PATH_READY_NOTIFIED \<Rightarrow> Some (ALREADY_ON_SLOW_PATH_READY_ANNOUNCED, p, [])
      | SLOW_PATH_FETCHING \<Rightarrow> Some (ALREADY_ON_SLOW_PATH_FETCHING, p, []))"

definition try_take_slow_path :: "take_path_result tracker_op" where
  "try_take_slow_path p =
     (case p of
        PATH_NONE \<Rightarrow> (INVALID_PATH, p, [Slow_path_before_execution])
      | SCHEDULED \<Rightarrow> (TAKEN, SLOW_PATH_ENTERED, [])
      | WAITING \<Rightarrow> (TAKEN, SLOW_PATH_ENTERED, [])
      | FAST_PATH \<Rightarrow> (ALREADY_ON_FAST_PATH, p, [])
      | SLOW_PATH_ENTERED \<Rightarrow> (ALREADY_ON_SLOW_PATH_COOKIE_NOT_ANNOUNCED_YET, p, [])
      | SLOW_PATH_COOKIE_SENT \<Rightarrow> (ALREADY_ON_SLOW_PATH_COOKIE_ANNOUNCED, p, [])
      | SLOW_PATH_READY_NOTIFIED \<Rightarrow> (ALREADY_ON_SLOW_PATH_READY_ANNOUNCED, p, [])
      | SLOW_PATH_FETCHING \<Rightarrow> (ALREADY_ON_SLOW_PATH_FETCHING, p, []))"

definition slow_path_cookie_sent_to_client :: "bool tracker_op" where
  "slow_path_cookie_sent_to_client p =
     (if p = SLOW_PATH_ENTERED then (True, SLOW_PATH_COOKIE_SENT, []) else (False, p, [No_phase_2_in p]))"

definition slow_path_ready_notified_client :: "bool tracker_op" where
  "slow_path_ready_notified_client p =
     (if p = SLOW_PATH_COOKIE_SENT then (True, SLOW_PATH_READY_NOTIFIED, [])
      else (False, p, [No_completion_in p]))"

definition set_scheduled_for_execution :: "unit tracker_op" where
  "set_scheduled_for_execution p =
     (if p = PATH_NONE then ((), SCHEDULED, []) else ((), p, [No_scheduling_in p]))"

definition set_waiting_for_result :: "unit tracker_op" where
  "set_waiting_for_result p =
     (case p of
        SCHEDULED \<Rightarrow> ((), WAITING, [])
      | SLOW_PATH_READY_NOTIFIED \<Rightarrow> ((), SLOW_PATH_FETCHING, [])
      | _ \<Rightarrow> ((), p, [No_waiting_in p]))"

text \<open>The order in which a reply path goes through its states.\<close>

inductive path_edge :: "reply_path \<Rightarrow> reply_path \<Rightarrow> bool" where
  schedule: "path_edge PATH_NONE SCHEDULED"
| wait: "path_edge SCHEDULED WAITING"
| fast: "path_edge WAITING FAST_PATH"
| slow_early: "path_edge SCHEDULED SLOW_PATH_ENTERED"
| slow: "path_edge WAITING SLOW_PATH_ENTERED"
| announce: "path_edge SLOW_PATH_ENTERED SLOW_PATH_COOKIE_SENT"
| ready: "path_edge SLOW_PATH_COOKIE_SENT SLOW_PATH_READY_NOTIFIED"
| fetch: "path_edge SLOW_PATH_READY_NOTIFIED SLOW_PATH_FETCHING"

code_pred path_edge .

inductive_cases path_edgeE: "path_edge p q"

lemmas tracker_defs = synchronize_def take_fast_path_synchronized_def try_take_fast_path_def try_take_slow_path_def slow_path_cookie_sent_to_client_def
  slow_path_ready_notified_client_def set_scheduled_for_execution_def set_waiting_for_result_def

section \<open>Work items\<close>

datatype notification_mode = NOTIFY_NEVER | NOTIFY_AFTER_TIMEOUT | NOTIFY_ALWAYS

text \<open>
  A work item: its class is identified by its name; \<open>w_notify\<close> holds the values captured by
  the function passed to \<^verbatim>\<open>set_done_notification_function()\<close>, which always is the one made
  by the cookie jar; \<open>w_promise\<close> is the value of promise and future.
\<close>

record 'r work =
  w_name :: string
  w_state :: work_state
  w_path :: reply_path
  w_notify :: "(u32 \<times> notification_mode) option"
  w_error :: list_error
  w_promise :: "'r option"
  w_cancellation_requested :: bool
  w_log :: "bug list"

definition mk_work :: "string \<Rightarrow> 'r work" where
  "mk_work name =
     \<lparr>w_name = name, w_state = RUNNABLE, w_path = PATH_NONE, w_notify = None, w_error = ERR_OK,
      w_promise = None, w_cancellation_requested = False, w_log = []\<rparr>"

definition set_done_notification_function :: "u32 \<Rightarrow> notification_mode \<Rightarrow> 'r work \<Rightarrow> 'r work" where
  "set_done_notification_function cookie mode w = w\<lparr>w_notify := Some (cookie, mode)\<rparr>"

definition complain :: "bug list \<Rightarrow> 'r work \<Rightarrow> 'r work" where
  "complain bugs w = w\<lparr>w_log := w_log w @ bugs\<rparr>"

definition with_reply_path_tracker :: "'a tracker_op \<Rightarrow> 'r work \<Rightarrow> 'a \<times> 'r work" where
  "with_reply_path_tracker f w =
     (let (a, p, bugs) = f (w_path w) in (a, complain bugs (w\<lparr>w_path := p\<rparr>)))"

definition with_waiting_tracker :: "'a waiting_tracker_op \<Rightarrow> 'r work \<Rightarrow> ('a \<times> 'r work) option" where
  "with_waiting_tracker f w =
     map_option (\<lambda>(a, p, bugs). (a, complain bugs (w\<lparr>w_path := p\<rparr>))) (f (w_path w))"

text \<open>
  \<^verbatim>\<open>set_work_state()\<close> calls the notification function when a final state is reached; this
  call is the second component of the result, with the argument of the function.
\<close>

definition bad_transitions :: "work_state \<Rightarrow> work_state \<Rightarrow> bug list" where
  "bad_transitions from to =
     (case from of
        RUNNABLE \<Rightarrow> if to = CANCELING then [Bad_transition from to] else []
      | RUNNING \<Rightarrow> if to = RUNNABLE then [Bad_transition from to] else []
      | CANCELING \<Rightarrow> if to \<in> {RUNNABLE, RUNNING, DONE} then [Bad_transition from to] else []
      | _ \<Rightarrow> [Bad_transition from to])"

definition set_work_state :: "work_state \<Rightarrow> 'r work \<Rightarrow> 'r work \<times> bool option" where
  "set_work_state to w =
     (if to = w_state w then (w, None)
      else (complain (bad_transitions (w_state w) to) (w\<lparr>w_state := to\<rparr>),
            if w_notify w = None then None
            else if to = DONE then Some True
            else if to = CANCELED then Some False
            else None))"

text \<open>
  \<^verbatim>\<open>run()\<close> releases the lock while \<^verbatim>\<open>do_run()\<close> works: \<open>run_begin\<close> is the part before,
  which tells whether \<^verbatim>\<open>do_run()\<close> is called at all, \<open>run_end\<close> the part after.
\<close>

definition run_begin :: "'r work \<Rightarrow> bool \<times> 'r work" where
  "run_begin w =
     (if w_state w = RUNNABLE then (True, fst (set_work_state RUNNING w))
      else (False, complain [Run_in (w_state w)] w))"

definition run_end :: "bool \<Rightarrow> 'r work \<Rightarrow> 'r work \<times> bool option" where
  "run_end success w =
     (case w_state w of
        RUNNING \<Rightarrow> set_work_state (if success then DONE else CANCELED) w
      | CANCELING \<Rightarrow> set_work_state CANCELED w
      | RUNNABLE \<Rightarrow> set_work_state CANCELED (complain [Unreachable] w)
      | st \<Rightarrow> (complain [Final_state_after_run st] w, None))"

definition begin_cancel_request :: "'r work \<Rightarrow> bool \<times> 'r work" where
  "begin_cancel_request w =
     (if w_cancellation_requested w then (False, complain [Multiple_cancellation_requests] w)
      else (True, w\<lparr>w_cancellation_requested := True\<rparr>))"

text \<open>
  \<^verbatim>\<open>cancel()\<close> with \<^verbatim>\<open>do_cancel()\<close> of the D-Bus work items; the first component tells
  whether blocking operations of the list tree are to be interrupted.
\<close>

definition cancel_work :: "'r work \<Rightarrow> bool \<times> 'r work \<times> bool option" where
  "cancel_work w =
     (case w_state w of
        RUNNABLE \<Rightarrow> (False, set_work_state CANCELED w)
      | RUNNING \<Rightarrow> (let (w1, call) = set_work_state CANCELING w;
                        (push, w2) = begin_cancel_request w1
                    in (push, w2, call))
      | _ \<Rightarrow> (False, w, None))"

definition put_error :: "list_error \<Rightarrow> 'r work \<Rightarrow> 'r work" where
  "put_error e w = w\<lparr>w_error := e\<rparr>"

definition work_success :: "'r work \<Rightarrow> bool" where
  "work_success w \<longleftrightarrow> w_state w = DONE \<and> w_error w = ERR_OK"

definition get_error_code :: "'r work \<Rightarrow> list_error" where
  "get_error_code w =
     (case w_state w of
        RUNNABLE \<Rightarrow> ERR_BUSY
      | RUNNING \<Rightarrow> ERR_BUSY_500
      | DONE \<Rightarrow> w_error w
      | CANCELING \<Rightarrow> ERR_INTERRUPTED
      | CANCELED \<Rightarrow> ERR_INTERRUPTED)"

text \<open>The destructor complains about an item that is still being worked on.\<close>

definition destroy_complains :: "'r work \<Rightarrow> bool" where
  "destroy_complains w \<longleftrightarrow> w_state w \<in> {RUNNING, CANCELING}"

lemmas work_defs = with_reply_path_tracker_def with_waiting_tracker_def complain_def set_work_state_def run_begin_def run_end_def
  begin_cancel_request_def cancel_work_def put_error_def set_done_notification_function_def
  bad_transitions_def

section \<open>What the operations keep\<close>

definition is_final :: "work_state \<Rightarrow> bool" where
  "is_final st \<longleftrightarrow> st = DONE \<or> st = CANCELED"

lemma is_final_simps [simp]: "is_final DONE" "is_final CANCELED"
  "\<not> is_final RUNNABLE" "\<not> is_final RUNNING" "\<not> is_final CANCELING"
  by (simp_all add: is_final_def)

text \<open>Final states are final, and a state change announces completion exactly when it gets there.\<close>

lemma run_end_final:
  "w_state w \<in> {RUNNING, CANCELING} \<Longrightarrow>
   is_final (w_state (fst (run_end ok w))) \<and> w_log (fst (run_end ok w)) = w_log w \<and>
   (w_notify w \<noteq> None \<longrightarrow> snd (run_end ok w) = Some (w_state (fst (run_end ok w)) = DONE))"
  by (auto simp: work_defs)

lemma cancel_work_keeps_final:
  "is_final (w_state w) \<Longrightarrow> cancel_work w = (False, w, None)"
  by (auto simp: cancel_work_def is_final_def)

text \<open>The possible moves of each operation of the tracker.\<close>

lemma tracker_ops_follow_edges:
  "try_take_fast_path p = Some (r, q, b) \<Longrightarrow> q = p \<or> path_edge p q"
  "take_fast_path_synchronized p = Some (r, q, b) \<Longrightarrow> path_edge p q"
  "try_take_slow_path p = (r, q, b) \<Longrightarrow> q = p \<or> path_edge p q"
  "slow_path_cookie_sent_to_client p = (t, q, b) \<Longrightarrow> q = p \<or> path_edge p q"
  "slow_path_ready_notified_client p = (t, q, b) \<Longrightarrow> q = p \<or> path_edge p q"
  "set_scheduled_for_execution p = (u, q, b) \<Longrightarrow> q = p \<or> path_edge p q"
  "set_waiting_for_result p = (u, q, b) \<Longrightarrow> q = p \<or> path_edge p q"
  by (auto simp: tracker_defs path_edge.simps split: reply_path.splits if_splits)

end
