(* ===== verification/Cookie_Jar.thy ===== *)
theory Cookie_Jar
  imports Async_Work
begin

text \<open>
  The cookie jar (\<^verbatim>\<open>work_by_cookie.hh\<close>, \<^verbatim>\<open>work_by_cookie.cc\<close>): work items are handed
  out as cookies, with which D-Bus clients fetch or cancel them later. Work items are
  numbered; \<open>as_signals\<close> lists what was sent to the clients. Functions that stop where
  the code takes or releases a lock are the steps that threads interleave with each other;
  a result \<open>None\<close> is a thread that waits.
\<close>

datatype 'r message =
    Data_available u32
  | Data_error u32 list_error
  | Fast_path_failure u32 list_error
  | Fast_path_answer 'r
  | Slow_path_failure list_error
  | Slow_path_answer 'r
  | Dbus_error string

record 'r async =
  as_work :: "nat \<Rightarrow> 'r work"
  jar_next :: u32
  jar_work :: "u32 \<rightharpoonup> nat"
  as_signals :: "'r message list"
  cancel_ops :: nat

definition empty_jar :: "'r async" where
  "empty_jar = \<lparr>as_work = (\<lambda>_. mk_work []), jar_next = 1, jar_work = Map.empty, as_signals = [], cancel_ops = 0\<rparr>"

definition put_work :: "nat \<Rightarrow> 'r work \<Rightarrow> ('r, 'a) async_scheme \<Rightarrow> ('r, 'a) async_scheme" where
  "put_work i w s = s\<lparr>as_work := (as_work s)(i := w)\<rparr>"

definition send :: "'r message \<Rightarrow> ('r, 'a) async_scheme \<Rightarrow> ('r, 'a) async_scheme" where
  "send m s = s\<lparr>as_signals := as_signals s @ [m]\<rparr>"

definition bug_at :: "nat \<Rightarrow> bug \<Rightarrow> ('r, 'a) async_scheme \<Rightarrow> ('r, 'a) async_scheme" where
  "bug_at i b s = put_work i (complain [b] (as_work s i)) s"

definition jar_erase :: "u32 \<Rightarrow> ('r, 'a) async_scheme \<Rightarrow> ('r, 'a) async_scheme" where
  "jar_erase cookie s = s\<lparr>jar_work := (jar_work s)(cookie := None)\<rparr>"

lemma put_work_simps [simp]:
  "as_work (put_work i w s) = (as_work s)(i := w)" "jar_next (put_work i w s) = jar_next s"
  "jar_work (put_work i w s) = jar_work s" "as_signals (put_work i w s) = as_signals s"
  "cancel_ops (put_work i w s) = cancel_ops s"
  by (simp_all add: put_work_def)

lemma send_simps [simp]:
  "as_work (send m s) = as_work s" "jar_next (send m s) = jar_next s" "jar_work (send m s) = jar_work s"
  "as_signals (send m s) = as_signals s @ [m]" "cancel_ops (send m s) = cancel_ops s"
  by (simp_all add: send_def)

lemma jar_erase_simps [simp]:
  "as_work (jar_erase c s) = as_work s" "jar_next (jar_erase c s) = jar_next s"
  "jar_work (jar_erase c s) = (jar_work s)(c := None)" "as_signals (jar_erase c s) = as_signals s"
  "cancel_ops (jar_erase c s) = cancel_ops s"
  by (simp_all add: jar_erase_def)

section \<open>Cookies\<close>

text \<open>The loop of \<^verbatim>\<open>bake_cookie()\<close>: the cookie and the next free one.\<close>

partial_function (option) bake_cookie :: "(u32 \<rightharpoonup> nat) \<Rightarrow> u32 \<Rightarrow> (u32 \<times> u32) option" where
  "bake_cookie jar n =
     (if n = 0 then bake_cookie jar (n + 1)
      else if jar n \<noteq> None then bake_cookie jar (n + 1)
      else Some (n, n + 1))"

declare bake_cookie.simps [code]

definition pick_cookie_for_work ::
  "nat \<Rightarrow> notification_mode \<Rightarrow> ('r, 'a) async_scheme \<Rightarrow> (u32 \<times> ('r, 'a) async_scheme) option" where
  "pick_cookie_for_work i mode s =
     do {
       (cookie, n) \<leftarrow> bake_cookie (jar_work s) (jar_next s);
       Some (cookie,
             (put_work i (set_done_notification_function cookie mode (as_work s i)) s)
               \<lparr>jar_next := n, jar_work := (jar_work s)(cookie \<mapsto> i)\<rparr>)
     }"

section \<open>Completion\<close>

text \<open>
  \<^verbatim>\<open>work_done_notification()\<close> up to where it unlocks the jar: the work item, whether it
  succeeded, and the error code to report.
\<close>

definition done_lookup ::
  "u32 \<Rightarrow> bool \<Rightarrow> ('r, 'a) async_scheme \<Rightarrow> (nat \<times> bool \<times> list_error) option \<times> ('r, 'a) async_scheme" where
  "done_lookup cookie has_completed s =
     (case jar_work s cookie of
        None \<Rightarrow> (None, s)
      | Some i \<Rightarrow>
          (Some (i, work_success (as_work s i),
                 if has_completed then get_error_code (as_work s i) else ERR_INTERRUPTED),
           if has_completed then s else jar_erase cookie s))"

text \<open>The part after the fast path has been tried, with its result.\<close>

definition announce_done ::
  "u32 \<Rightarrow> notification_mode \<Rightarrow> nat \<Rightarrow> bool \<Rightarrow> list_error \<Rightarrow> ('r, 'a) async_scheme \<Rightarrow> ('r, 'a) async_scheme" where
  "announce_done cookie mode i success error s =
     (if success then
        (case mode of
           NOTIFY_NEVER \<Rightarrow> s
         | _ \<Rightarrow> let s1 = send (Data_available cookie) s
               in put_work i (snd (with_reply_path_tracker slow_path_ready_notified_client (as_work s1 i))) s1)
      else send (Data_error cookie error) s)"

definition done_continue ::
  "u32 \<Rightarrow> notification_mode \<Rightarrow> nat \<Rightarrow> bool \<Rightarrow> list_error \<Rightarrow> take_path_result \<Rightarrow>
   ('r, 'a) async_scheme \<Rightarrow> ('r, 'a) async_scheme" where
  "done_continue cookie mode i success error r s =
     (case r of
        TAKEN \<Rightarrow> if success \<and> mode = NOTIFY_ALWAYS then announce_done cookie mode i success error s else s
      | ALREADY_ON_SLOW_PATH_COOKIE_NOT_ANNOUNCED_YET \<Rightarrow> bug_at i Not_implemented s
      | ALREADY_ON_SLOW_PATH_COOKIE_ANNOUNCED \<Rightarrow> announce_done cookie mode i success error s
      | _ \<Rightarrow> bug_at i (Notified_on r) s)"

definition done_take_path ::
  "(take_path_result waiting_tracker_op) \<Rightarrow> u32 \<Rightarrow> notification_mode \<Rightarrow> nat \<Rightarrow> bool \<Rightarrow> list_error \<Rightarrow>
   ('r, 'a) async_scheme \<Rightarrow> ('r, 'a) async_scheme option" where
  "done_take_path attempt cookie mode i success error s =
     do {
       (r, w) \<leftarrow> with_waiting_tracker attempt (as_work s i);
       Some (done_continue cookie mode i success error r (put_work i w s))
     }"

definition work_done_notification ::
  "u32 \<Rightarrow> notification_mode \<Rightarrow> bool \<Rightarrow> ('r, 'a) async_scheme \<Rightarrow> ('r, 'a) async_scheme option" where
  "work_done_notification cookie mode has_completed s =
     (case done_lookup cookie has_completed s of
        (None, s') \<Rightarrow> Some s'
      | (Some (i, success, error), s') \<Rightarrow>
          done_take_path try_take_fast_path cookie mode i success error s')"

text \<open>The call of the notification function that a change of the work state has asked for.\<close>

definition notify_done :: "bool option \<Rightarrow> nat \<Rightarrow> ('r, 'a) async_scheme \<Rightarrow> ('r, 'a) async_scheme option" where
  "notify_done call i s =
     (case (call, w_notify (as_work s i)) of
        (Some has_completed, Some (cookie, mode)) \<Rightarrow> work_done_notification cookie mode has_completed s
      | _ \<Rightarrow> Some s)"

text \<open>
  What \<^verbatim>\<open>do_run()\<close> of a D-Bus work item does to the item: it sets the promise, puts an error
  code and tells whether the work was processed.
\<close>

type_synonym 'r outcome = "'r \<times> list_error option \<times> bool"

definition set_promise :: "'r \<Rightarrow> 'r work \<Rightarrow> 'r work" where
  "set_promise r w = w\<lparr>w_promise := Some r\<rparr>"

definition put_outcome_error :: "list_error option \<Rightarrow> 'r work \<Rightarrow> 'r work" where
  "put_outcome_error e w = (case e of None \<Rightarrow> w | Some err \<Rightarrow> put_error err w)"

definition run_work :: "'r outcome \<Rightarrow> nat \<Rightarrow> ('r, 'a) async_scheme \<Rightarrow> ('r, 'a) async_scheme option" where
  "run_work out i s =
     (case (run_begin (as_work s i), out) of
        ((False, w), _) \<Rightarrow> Some (put_work i w s)
      | ((True, w), (r, e, ok)) \<Rightarrow>
          let (w', call) = run_end ok (put_outcome_error e (set_promise r w))
          in notify_done call i (put_work i w' s))"

definition cancel :: "nat \<Rightarrow> ('r, 'a) async_scheme \<Rightarrow> ('r, 'a) async_scheme option" where
  "cancel i s =
     (let (push, w, call) = cancel_work (as_work s i);
          s1 = (if push then s\<lparr>cancel_ops := cancel_ops s + 1\<rparr> else s)
      in notify_done call i (put_work i w s1))"

definition cookie_not_wanted :: "u32 \<Rightarrow> ('r, 'a) async_scheme \<Rightarrow> ('r, 'a) async_scheme option" where
  "cookie_not_wanted cookie s =
     (case jar_work s cookie of None \<Rightarrow> Some s | Some i \<Rightarrow> cancel i s)"

section \<open>Fetching results\<close>

datatype bad_cookie = Bad_value | Unknown_cookie | Wrong_type

datatype eat_error = Bad_cookie bad_cookie | Timeout_error

datatype wait_mode = ALLOW_SYNC_PROCESSING | NO_SYNC

datatype future_status = Future_ready | Future_timeout | Future_deferred

definition eat_lookup :: "string \<Rightarrow> u32 \<Rightarrow> ('r, 'a) async_scheme \<Rightarrow> bad_cookie + nat" where
  "eat_lookup name cookie s =
     (if cookie = 0 then Inl Bad_value
      else case jar_work s cookie of
             None \<Rightarrow> Inl Unknown_cookie
           | Some i \<Rightarrow> if w_name (as_work s i) = name then Inr i else Inl Wrong_type)"

definition wait_begin :: "nat \<Rightarrow> ('r, 'a) async_scheme \<Rightarrow> ('r, 'a) async_scheme" where
  "wait_begin i s = put_work i (snd (with_reply_path_tracker set_waiting_for_result (as_work s i))) s"

text \<open>
  \<^verbatim>\<open>wait_for()\<close> after the future has been waited for: the result \<open>Inl ()\<close> is the timeout
  exception; the whole is \<open>None\<close> if the thread waits for a value that is not there.
\<close>

definition wait_for_sync ::
  "'r outcome \<Rightarrow> nat \<Rightarrow> ('r, 'a) async_scheme \<Rightarrow> ('r, 'a) async_scheme option" where
  "wait_for_sync out i s =
     (case w_state (as_work s i) of
        RUNNABLE \<Rightarrow> run_work out i s
      | RUNNING \<Rightarrow> Some s
      | CANCELING \<Rightarrow> Some s
      | st \<Rightarrow> Some (bug_at i (Deferred_but st) s))"

definition future_get :: "nat \<Rightarrow> ('r, 'a) async_scheme \<Rightarrow> 'r option" where
  "future_get i s = w_promise (as_work s i)"

definition wait_for_end ::
  "wait_mode \<Rightarrow> future_status \<Rightarrow> 'r outcome \<Rightarrow> nat \<Rightarrow> ('r, 'a) async_scheme \<Rightarrow>
   ((unit + 'r) \<times> ('r, 'a) async_scheme) option" where
  "wait_for_end mode status out i s =
     (if status \<noteq> Future_ready \<and> mode = NO_SYNC then Some (Inl (), s)
      else do {
        s1 \<leftarrow> (if status = Future_ready then Some s else wait_for_sync out i s);
        r \<leftarrow> future_get i s1;
        Some (Inr r, s1)
      })"

text \<open>
  \<^verbatim>\<open>try_eat_quickly()\<close>: whether the fast path is still possible. \<open>on_timeout\<close> is the
  message sent to the client if it is not; fetching a result by its cookie has none.
\<close>

definition try_eat_quickly ::
  "u32 \<Rightarrow> (u32 \<Rightarrow> 'r message) option \<Rightarrow> nat \<Rightarrow> ('r, 'a) async_scheme \<Rightarrow> bool \<times> ('r, 'a) async_scheme" where
  "try_eat_quickly cookie on_timeout i s =
     (let (r, w) = with_reply_path_tracker try_take_slow_path (as_work s i);
          s1 = put_work i w s
      in if r = ALREADY_ON_FAST_PATH then (True, s1)
         else
           let s2 = (if r \<in> {TAKEN, ALREADY_ON_SLOW_PATH_FETCHING} then s1 else bug_at i (Timed_out_on r) s1);
               s3 = (case on_timeout of None \<Rightarrow> s2 | Some m \<Rightarrow> send (m cookie) s2);
               (sent, w3) = with_reply_path_tracker slow_path_cookie_sent_to_client (as_work s3 i);
               s4 = put_work i w3 s3
           in (False, if sent then s4 else bug_at i Bad_tracker_state s4))"

text \<open>
  \<^verbatim>\<open>try_eat()\<close> as a whole. What other threads do while this one waits is a parameter: \<open>others\<close>
  until the future is ready or the time is over, \<open>late\<close> between a timeout and the moment
  in which both locks have been taken.
\<close>

definition try_eat ::
  "string \<Rightarrow> u32 \<Rightarrow> wait_mode \<Rightarrow> (u32 \<Rightarrow> 'r message) option \<Rightarrow> 'r outcome \<Rightarrow>
   (('r, 'a) async_scheme \<Rightarrow> future_status \<times> ('r, 'a) async_scheme) \<Rightarrow>
   (('r, 'a) async_scheme \<Rightarrow> ('r, 'a) async_scheme) \<Rightarrow>
   ('r, 'a) async_scheme \<Rightarrow> ((eat_error + 'r) \<times> ('r, 'a) async_scheme) option" where
  "try_eat name cookie mode on_timeout out others late s =
     (case eat_lookup name cookie s of
        Inl bad \<Rightarrow> Some (Inl (Bad_cookie bad), s)
      | Inr i \<Rightarrow> do {
          let (status, s1) = others (wait_begin i s);
          (v, s2) \<leftarrow> wait_for_end mode status out i s1;
          case v of
            Inr r \<Rightarrow> Some (Inr r, jar_erase cookie s2)
          | Inl _ \<Rightarrow>
              (case try_eat_quickly cookie on_timeout i (late s2) of
                 (False, s3) \<Rightarrow> Some (Inl Timeout_error, s3)
               | (True, s3) \<Rightarrow> do {
                   r \<leftarrow> future_get i s3;
                   Some (Inr r, jar_erase cookie s3)
                 })
        })"

text \<open>\<^verbatim>\<open>finish_slow_path()\<close>: a client fetches the result for a cookie.\<close>

definition finish_slow_path ::
  "string \<Rightarrow> u32 \<Rightarrow> 'r outcome \<Rightarrow>
   (('r, 'a) async_scheme \<Rightarrow> future_status \<times> ('r, 'a) async_scheme) \<Rightarrow>
   (('r, 'a) async_scheme \<Rightarrow> ('r, 'a) async_scheme) \<Rightarrow>
   ('r, 'a) async_scheme \<Rightarrow> ('r, 'a) async_scheme option" where
  "finish_slow_path name cookie out others late s =
     do {
       (v, s1) \<leftarrow> try_eat name cookie NO_SYNC None out others late s;
       Some (send (case v of
                     Inr r \<Rightarrow> Slow_path_answer r
                   | Inl (Bad_cookie _) \<Rightarrow> Dbus_error ''Invalid cookie''
                   | Inl Timeout_error \<Rightarrow> Slow_path_failure ERR_BUSY) s1)
     }"

section \<open>Cookies are fresh\<close>

lemma bake_cookie_found: "jar n = None \<Longrightarrow> n \<noteq> 0 \<Longrightarrow> bake_cookie jar n = Some (n, n + 1)"
  using bake_cookie.simps [of jar n] by simp

lemma bake_cookie_next: "jar n \<noteq> None \<or> n = 0 \<Longrightarrow> bake_cookie jar n = bake_cookie jar (n + 1)"
  using bake_cookie.simps [of jar n] by (metis (no_types))

text \<open>The search ends because the counter gets to each free cookie; \<open>k\<close> is the distance.\<close>

lemma bake_cookie_reaches:
  assumes "jar t = None" "t \<noteq> 0" "unat (t - n) = k"
  shows "\<exists>c. bake_cookie jar n = Some (c, c + 1) \<and> c \<noteq> 0 \<and> jar c = None"
  using assms(3)
proof (induction k arbitrary: n)
  case 0
  then have "n = t" by (simp add: unat_eq_zero)
  then show ?case using assms(1,2) by (auto simp: bake_cookie_found)
next
  case (Suc k)
  show ?case
  proof (cases "jar n = None \<and> n \<noteq> 0")
    case True
    then show ?thesis by (auto simp: bake_cookie_found)
  next
    case False
    have nz: "t - n \<noteq> 0" using Suc.prems by auto
    have "unat (t - (n + 1)) = unat (t - n - 1)" by (simp add: diff_diff_eq)
    also have "\<dots> = k" using Suc.prems unat_minus_one [OF nz] by linarith
    finally have "unat (t - (n + 1)) = k" .
    then show ?thesis
      using Suc.IH [of "n + 1"] False bake_cookie_next [of jar n] by auto
  qed
qed

end
