(* ===== verification/Work_Queue.thy ===== *)
theory Work_Queue
  imports Cookie_Jar
begin

text \<open>
  Queues of work items (\<^verbatim>\<open>dbus_async_workqueue.hh\<close>, \<^verbatim>\<open>dbus_async_workqueue.cc\<close>) and the
  D-Bus method calls that go through them (\<^verbatim>\<open>try_fast_path()\<close>). A queue holds the numbers
  of its items. All functions run with the queue locked; \<open>None\<close> is a thread that waits for
  something that no other thread does.
\<close>

datatype queue_mode = SYNCHRONOUS | ASYNC

record work_queue =
  wq_mode :: queue_mode
  maximum_queue_length :: nat
  work_in_progress :: "nat option"
  wq_queue :: "nat list"
  is_accepting_work :: bool

definition mk_work_queue :: "queue_mode \<Rightarrow> nat \<Rightarrow> work_queue" where
  "mk_work_queue mode n =
     \<lparr>wq_mode = mode, maximum_queue_length = n, work_in_progress = None, wq_queue = [],
      is_accepting_work = True\<rparr>"

section \<open>Adding work\<close>

definition queue_into_free_slot :: "nat \<Rightarrow> work_queue \<Rightarrow> bool \<times> work_queue" where
  "queue_into_free_slot i q =
     (case wq_queue q of
        [] \<Rightarrow> (True, q\<lparr>work_in_progress := Some i\<rparr>)
      | j # js \<Rightarrow> (False, q\<lparr>work_in_progress := Some j, wq_queue := js @ [i]\<rparr>))"

definition queue_work ::
  "nat \<Rightarrow> work_queue \<Rightarrow> ('r, 'a) async_scheme \<Rightarrow> (bool \<times> work_queue \<times> ('r, 'a) async_scheme) option" where
  "queue_work i q s =
     (case work_in_progress q of
        None \<Rightarrow> (let (b, q') = queue_into_free_slot i q in Some (b, q', s))
      | Some j \<Rightarrow>
          if length (wq_queue q) < maximum_queue_length q
          then Some (False, q\<lparr>wq_queue := wq_queue q @ [i]\<rparr>, s)
          else do {
            s1 \<leftarrow> cancel j s;
            let (b, q') = queue_into_free_slot i (q\<lparr>work_in_progress := None\<rparr>);
            Some (b, q', s1)
          })"

fun for_items :: "(nat \<Rightarrow> 's \<Rightarrow> 's option) \<Rightarrow> nat list \<Rightarrow> 's \<Rightarrow> 's option" where
  "for_items f [] s = Some s"
| "for_items f (i # is) s = do { s1 \<leftarrow> f i s; for_items f is s1 }"

definition cancel_all_work ::
  "work_queue \<Rightarrow> ('r, 'a) async_scheme \<Rightarrow> (work_queue \<times> ('r, 'a) async_scheme) option" where
  "cancel_all_work q s =
     do {
       s1 \<leftarrow> for_items cancel (wq_queue q) s;
       s2 \<leftarrow> (case work_in_progress q of None \<Rightarrow> Some s1 | Some j \<Rightarrow> cancel j s1);
       Some (q\<lparr>wq_queue := [], work_in_progress := None\<rparr>, s2)
     }"

definition clear_queue ::
  "work_queue \<Rightarrow> ('r, 'a) async_scheme \<Rightarrow> (work_queue \<times> ('r, 'a) async_scheme) option" where
  "clear_queue q s = cancel_all_work q s"

text \<open>Shutting down, up to where the worker thread is waited for.\<close>

definition shutdown_queue ::
  "work_queue \<Rightarrow> ('r, 'a) async_scheme \<Rightarrow> (work_queue \<times> ('r, 'a) async_scheme) option" where
  "shutdown_queue q s =
     (if \<not> is_accepting_work q then Some (q, s)
      else cancel_all_work (q\<lparr>is_accepting_work := False\<rparr>) s)"

section \<open>Processing\<close>

text \<open>The condition that \<^verbatim>\<open>process_work_item()\<close> waits for.\<close>

definition work_available :: "nat option \<Rightarrow> work_queue \<Rightarrow> bool" where
  "work_available work q \<longleftrightarrow>
     \<not> is_accepting_work q \<or>
     (case work of Some i \<Rightarrow> work_in_progress q = Some i | None \<Rightarrow> work_in_progress q \<noteq> None)"

definition process_item :: "'r outcome \<Rightarrow> nat \<Rightarrow> ('r, 'a) async_scheme \<Rightarrow> ('r, 'a) async_scheme option" where
  "process_item out i s =
     (case w_state (as_work s i) of
        RUNNABLE \<Rightarrow> run_work out i s
      | RUNNING \<Rightarrow> Some (bug_at i (Queued_but RUNNING) s)
      | DONE \<Rightarrow> Some (bug_at i (Queued_but DONE) s)
      | CANCELING \<Rightarrow> Some s
      | CANCELED \<Rightarrow> Some s)"

definition process_end :: "nat \<Rightarrow> work_queue \<Rightarrow> work_queue" where
  "process_end i q =
     (if work_in_progress q = Some i then
        (case wq_queue q of
           [] \<Rightarrow> q\<lparr>work_in_progress := None\<rparr>
         | j # js \<Rightarrow> q\<lparr>work_in_progress := Some j, wq_queue := js\<rparr>)
      else q)"

text \<open>
  \<^verbatim>\<open>process_work_item()\<close> in one thread: \<open>out\<close> is what the work items do, \<open>others\<close> what
  happens to the queue while it is unlocked.
\<close>

definition process_work_item ::
  "(nat \<Rightarrow> 'r outcome) \<Rightarrow> (work_queue \<times> ('r, 'a) async_scheme \<Rightarrow> work_queue \<times> ('r, 'a) async_scheme) \<Rightarrow>
   nat option \<Rightarrow> work_queue \<Rightarrow> ('r, 'a) async_scheme \<Rightarrow>
   (bool \<times> work_queue \<times> ('r, 'a) async_scheme) option" where
  "process_work_item out others work q s =
     (if \<not> work_available work q then None
      else if \<not> is_accepting_work q then
        do { (q1, s1) \<leftarrow> cancel_all_work q s; Some (False, q1, s1) }
      else
        (case work_in_progress q of
           None \<Rightarrow> None
         | Some i \<Rightarrow> do {
             s1 \<leftarrow> process_item (out i) i s;
             let (q2, s2) = (if w_state (as_work s i) = RUNNABLE then others (q, s1) else (q, s1));
             Some (True, process_end i q2, s2)
           }))"

definition add_work ::
  "(nat \<Rightarrow> 'r outcome) \<Rightarrow> (work_queue \<times> ('r, 'a) async_scheme \<Rightarrow> work_queue \<times> ('r, 'a) async_scheme) \<Rightarrow>
   (bool \<Rightarrow> bool \<Rightarrow> ('r, 'a) async_scheme \<Rightarrow> ('r, 'a) async_scheme) option \<Rightarrow>
   nat \<Rightarrow> work_queue \<Rightarrow> ('r, 'a) async_scheme \<Rightarrow> (bool \<times> work_queue \<times> ('r, 'a) async_scheme) option" where
  "add_work out others work_accepted i q s =
     (let accepted = (case work_accepted of None \<Rightarrow> (\<lambda>_ _ s. s) | Some f \<Rightarrow> f)
      in if \<not> is_accepting_work q then Some (False, q, s)
         else
           let s0 = put_work i (snd (with_reply_path_tracker set_scheduled_for_execution (as_work s i))) s
           in (case wq_mode q of
                 ASYNC \<Rightarrow> do {
                   (_, q1, s1) \<leftarrow> queue_work i q s0;
                   Some (True, q1, accepted True False s1)
                 }
               | SYNCHRONOUS \<Rightarrow> do {
                   (_, q1, s1) \<leftarrow> queue_work i q s0;
                   (_, q2, s2) \<leftarrow> process_work_item out others (Some i) q1 (accepted False False s1);
                   Some (False, q2, accepted False True s2)
                 }))"

text \<open>\<^verbatim>\<open>try_fast_path()\<close>: the D-Bus method call that wants work to be done.\<close>

definition try_fast_path ::
  "string \<Rightarrow> (nat \<Rightarrow> 'r outcome) \<Rightarrow>
   (work_queue \<times> ('r, 'a) async_scheme \<Rightarrow> work_queue \<times> ('r, 'a) async_scheme) \<Rightarrow>
   (('r, 'a) async_scheme \<Rightarrow> future_status \<times> ('r, 'a) async_scheme) \<Rightarrow>
   (('r, 'a) async_scheme \<Rightarrow> ('r, 'a) async_scheme) \<Rightarrow>
   nat \<Rightarrow> work_queue \<Rightarrow> ('r, 'a) async_scheme \<Rightarrow> (work_queue \<times> ('r, 'a) async_scheme) option" where
  "try_fast_path name out others waiting late i q s =
     do {
       (cookie, s1) \<leftarrow> pick_cookie_for_work i NOTIFY_AFTER_TIMEOUT s;
       (is_async, q2, s2) \<leftarrow> add_work out others None i q s1;
       (v, s3) \<leftarrow> try_eat name cookie (if is_async then NO_SYNC else ALLOW_SYNC_PROCESSING)
                    (Some (\<lambda>c. Fast_path_failure c ERR_BUSY)) (out i) waiting late s2;
       Some (q2, case v of
                   Inr r \<Rightarrow> send (Fast_path_answer r) s3
                 | Inl Timeout_error \<Rightarrow> s3
                 | Inl (Bad_cookie _) \<Rightarrow> send (Dbus_error ''Internal error'') (bug_at i Unexpected_failure s3))
     }"

section \<open>What canceling does\<close>

text \<open>The cookie a work item was given out for stands for this item or for none.\<close>

definition own_cookie :: "('r, 'a) async_scheme \<Rightarrow> nat \<Rightarrow> bool" where
  "own_cookie s i \<longleftrightarrow>
     (\<forall>c m. w_notify (as_work s i) = Some (c, m) \<longrightarrow> jar_work s c = None \<or> jar_work s c = Some i)"

lemma with_tracker_keeps [simp]:
  "w_state (snd (with_reply_path_tracker f w)) = w_state w"
  "w_notify (snd (with_reply_path_tracker f w)) = w_notify w"
  "w_promise (snd (with_reply_path_tracker f w)) = w_promise w"
  "w_error (snd (with_reply_path_tracker f w)) = w_error w"
  by (simp_all add: with_reply_path_tracker_def complain_def split: prod.splits)

lemma with_waiting_tracker_keeps:
  assumes "with_waiting_tracker f w = Some (r, w')"
  shows "w_state w' = w_state w" "w_notify w' = w_notify w" "w_promise w' = w_promise w" "w_error w' = w_error w"
  using assms by (auto simp: with_waiting_tracker_def complain_def)

lemma complain_keeps [simp]:
  "w_state (complain b w) = w_state w" "w_notify (complain b w) = w_notify w"
  "w_promise (complain b w) = w_promise w" "w_error (complain b w) = w_error w" "w_path (complain b w) = w_path w"
  by (simp_all add: complain_def)

lemma done_continue_keeps [simp]:
  "w_state (as_work (done_continue c m i ok e r s) j) = w_state (as_work s j)"
  "w_notify (as_work (done_continue c m i ok e r s) j) = w_notify (as_work s j)"
  "w_promise (as_work (done_continue c m i ok e r s) j) = w_promise (as_work s j)"
  "jar_work (done_continue c m i ok e r s) = jar_work s"
  "j \<noteq> i \<Longrightarrow> as_work (done_continue c m i ok e r s) j = as_work s j"
  by (auto simp: done_continue_def announce_done_def bug_at_def Let_def
      split: take_path_result.splits notification_mode.splits)

lemma done_take_path_keeps:
  assumes "done_take_path f c m i ok e s = Some s'"
  shows "w_state (as_work s' j) = w_state (as_work s j)" "w_notify (as_work s' j) = w_notify (as_work s j)"
    "jar_work s' = jar_work s" "j \<noteq> i \<Longrightarrow> as_work s' j = as_work s j"
  using assms by (auto simp: done_take_path_def bind_eq_Some_conv with_waiting_tracker_keeps)

lemma work_done_notification_keeps:
  assumes "work_done_notification c m b s = Some s'" "jar_work s c = None \<or> jar_work s c = Some i"
  shows "w_state (as_work s' j) = w_state (as_work s j) \<and> w_notify (as_work s' j) = w_notify (as_work s j) \<and>
    (j \<noteq> i \<longrightarrow> as_work s' j = as_work s j) \<and> jar_work s' = (if b then jar_work s else (jar_work s)(c := None))"
  using assms
  by (auto simp: work_done_notification_def done_lookup_def fun_upd_idem_iff
      split: option.splits if_splits dest: done_take_path_keeps)

lemma notify_done_keeps:
  assumes "notify_done call i s = Some s'" "own_cookie s i"
  shows "w_state (as_work s' j) = w_state (as_work s j) \<and> w_notify (as_work s' j) = w_notify (as_work s j) \<and>
    (j \<noteq> i \<longrightarrow> as_work s' j = as_work s j) \<and> jar_work s' \<subseteq>\<^sub>m jar_work s"
  using assms work_done_notification_keeps [where i = i and s = s and s' = s']
  by (auto simp: notify_done_def own_cookie_def map_le_def split: option.splits if_splits)

lemma for_items_append: "for_items f (xs @ ys) s = for_items f xs s \<bind> for_items f ys"
  by (induction xs arbitrary: s) (auto split: bind_split)

text \<open>
  What a queue relies on when it cancels items: an item that is canceled does not start to
  run any more, and no other item is touched.
\<close>

definition stopped :: "work_state \<Rightarrow> bool" where
  "stopped st \<longleftrightarrow> st = CANCELING \<or> is_final st"

lemma stopped_simps [simp]: "stopped CANCELING" "stopped DONE" "stopped CANCELED" "\<not> stopped RUNNABLE" "\<not> stopped RUNNING"
  by (simp_all add: stopped_def)

locale cancelable_work =
  fixes cancel_op :: "nat \<Rightarrow> 's \<Rightarrow> 's option"
    and state_of :: "'s \<Rightarrow> nat \<Rightarrow> work_state"
    and good :: "'s \<Rightarrow> bool"
  assumes cancel_good: "good s \<Longrightarrow> cancel_op i s = Some s' \<Longrightarrow> good s'"
    and cancel_stops: "good s \<Longrightarrow> cancel_op i s = Some s' \<Longrightarrow> stopped (state_of s' i)"
    and cancel_others: "good s \<Longrightarrow> cancel_op i s = Some s' \<Longrightarrow> j \<noteq> i \<Longrightarrow> state_of s' j = state_of s j"
begin

lemma cancel_each:
  "good s \<Longrightarrow> for_items cancel_op is s = Some s' \<Longrightarrow>
   good s' \<and> (\<forall>i\<in>set is. stopped (state_of s' i)) \<and> (\<forall>j. j \<notin> set is \<longrightarrow> state_of s' j = state_of s j)"
proof (induction "is" arbitrary: s)
  case Nil
  then show ?case by simp
next
  case (Cons i "is")
  from Cons.prems obtain s1 where s1: "cancel_op i s = Some s1" "for_items cancel_op is s1 = Some s'"
    by (auto simp: bind_eq_Some_conv)
  have "stopped (state_of s' i)"
    using Cons.IH [OF cancel_good [OF Cons.prems(1) s1(1)] s1(2)] cancel_stops [OF Cons.prems(1) s1(1)]
    by (cases "i \<in> set is") auto
  then show ?case
    using Cons.IH [OF cancel_good [OF Cons.prems(1) s1(1)] s1(2)] cancel_others [OF Cons.prems(1) s1(1)]
    by auto
qed

end

lemma cancel_work_effect:
  "stopped (w_state (fst (snd (cancel_work w))))" "w_notify (fst (snd (cancel_work w))) = w_notify w"
  by (auto simp: work_defs split: work_state.split)

lemma own_cookie_mono:
  assumes "own_cookie s i" "w_notify (as_work s' i) = w_notify (as_work s i)" "jar_work s' \<subseteq>\<^sub>m jar_work s"
  shows "own_cookie s' i"
proof -
  have "jar_work s' c = None \<or> jar_work s' c = jar_work s c" for c
    using assms(3) by (auto simp: map_le_def dom_def)
  then show ?thesis
    using assms(1,2) unfolding own_cookie_def by metis
qed

lemma cancel_keeps:
  assumes "cancel i s = Some s'" "own_cookie s i"
  shows "stopped (w_state (as_work s' i)) \<and> w_notify (as_work s' j) = w_notify (as_work s j) \<and>
    (j \<noteq> i \<longrightarrow> as_work s' j = as_work s j) \<and> jar_work s' \<subseteq>\<^sub>m jar_work s"
proof -
  obtain push w call where c: "cancel_work (as_work s i) = (push, w, call)" by (metis prod_cases3)
  have w: "stopped (w_state w)" "w_notify w = w_notify (as_work s i)"
    using cancel_work_effect [of "as_work s i"] c by simp_all
  define s1 where "s1 = put_work i w (if push then s\<lparr>cancel_ops := cancel_ops s + 1\<rparr> else s)"
  have s1: "as_work s1 = (as_work s)(i := w)" "jar_work s1 = jar_work s" by (simp_all add: s1_def)
  have "notify_done call i s1 = Some s'" using assms(1) c by (simp add: cancel_def s1_def)
  moreover have "own_cookie s1 i" using assms(2) w(2) by (auto simp: own_cookie_def s1 split: option.splits)
  ultimately show ?thesis
    using notify_done_keeps [of call i s1 s'] w by (auto simp: s1)
qed

interpretation work_items: cancelable_work
  "cancel :: nat \<Rightarrow> ('r, 'a) async_scheme \<Rightarrow> ('r, 'a) async_scheme option"
  "\<lambda>s i. w_state (as_work s i)" "\<lambda>s. \<forall>i. own_cookie s i"
proof unfold_locales
  fix s s' :: "('r, 'a) async_scheme" and i j
  assume own: "\<forall>i. own_cookie s i" and c: "cancel i s = Some s'"
  note k = cancel_keeps [OF c own [rule_format]]
  show "\<forall>i. own_cookie s' i"
    using own k own_cookie_mono [where s = s and s' = s'] by blast
  show "stopped (w_state (as_work s' i))" using k by blast
  show "j \<noteq> i \<Longrightarrow> w_state (as_work s' j) = w_state (as_work s j)" using k by simp
qed

end
