(* ===== verification/Queue_Props.thy ===== *)
theory Queue_Props
  imports Work_Queue
begin

text \<open>
  The properties of the work queues: they are bounded queues that make room by canceling
  the item in progress, shutting down cancels everything, and what happens to D-Bus method
  calls that use a queue without a thread of its own.
\<close>

section \<open>The abstract queue\<close>

text \<open>
  A queue promises to work on its items in the order they came. There is room for one item
  in progress and \<open>n\<close> more; the oldest one gives way if there is no room.
\<close>

definition fifo_add :: "nat \<Rightarrow> nat \<Rightarrow> nat list \<Rightarrow> nat list" where
  "fifo_add n i xs = (if length xs \<le> n then xs @ [i] else tl xs @ [i])"

definition pending :: "work_queue \<Rightarrow> nat list" where
  "pending q = (case work_in_progress q of None \<Rightarrow> wq_queue q | Some j \<Rightarrow> j # wq_queue q)"

definition queue_ok :: "work_queue \<Rightarrow> bool" where
  "queue_ok q \<longleftrightarrow>
     (work_in_progress q = None \<longrightarrow> wq_queue q = []) \<and> length (wq_queue q) \<le> maximum_queue_length q"

lemma pending_mk_queue [simp]: "pending (mk_work_queue m n) = []" "queue_ok (mk_work_queue m n)"
  by (simp_all add: mk_work_queue_def pending_def queue_ok_def)

definition is_full :: "work_queue \<Rightarrow> bool" where
  "is_full q \<longleftrightarrow> work_in_progress q \<noteq> None \<and> \<not> length (wq_queue q) < maximum_queue_length q"

abbreviation into_slot :: "nat \<Rightarrow> work_queue \<Rightarrow> work_queue" where
  "into_slot i q \<equiv> snd (queue_into_free_slot i q)"

lemma queue_into_free_slot_adds [simp]:
  "queue_into_free_slot i (q\<lparr>work_in_progress := None\<rparr>) = queue_into_free_slot i q"
  "pending (into_slot i q) = wq_queue q @ [i]" "work_in_progress (into_slot i q) \<noteq> None"
  "length (wq_queue (into_slot i q)) = length (wq_queue q)"
  "maximum_queue_length (into_slot i q) = maximum_queue_length q"
  "is_accepting_work (into_slot i q) = is_accepting_work q"
  by (simp_all add: queue_into_free_slot_def pending_def split: list.split)

lemma queue_work_cases:
  "queue_work i q s =
     (if is_full q then
        map_option (\<lambda>s1. (fst (queue_into_free_slot i q), into_slot i q, s1)) (cancel (the (work_in_progress q)) s)
      else if work_in_progress q = None then Some (fst (queue_into_free_slot i q), into_slot i q, s)
      else Some (False, q\<lparr>wq_queue := wq_queue q @ [i]\<rparr>, s))"
  by (cases "cancel (the (work_in_progress q)) s")
    (auto simp: queue_work_def is_full_def split_def Let_def split: option.split)

lemma queue_work_adds:
  assumes "queue_ok q" "queue_work i q s = Some (b, q', s')"
  shows "pending q' = fifo_add (maximum_queue_length q) i (pending q) \<and> queue_ok q' \<and>
    work_in_progress q' \<noteq> None \<and> is_accepting_work q' = is_accepting_work q"
proof (cases "is_full q \<or> work_in_progress q = None")
  case True
  then have "q' = into_slot i q" using assms(2) by (auto simp: queue_work_cases split: if_splits)
  then show ?thesis
    using True assms(1) by (auto simp: is_full_def fifo_add_def queue_ok_def pending_def [of q])
next
  case False
  then show ?thesis using assms
    by (auto simp: queue_work_cases is_full_def fifo_add_def queue_ok_def pending_def)
qed

lemma process_end_finishes:
  assumes "queue_ok q" "work_in_progress q = Some i"
  shows "pending (process_end i q) = tl (pending q) \<and> queue_ok (process_end i q)"
  using assms by (auto simp: process_end_def pending_def queue_ok_def split: list.split)

text \<open>Canceling waits only for an item that nobody has begun to work on or to wait for.\<close>

lemma done_take_path_returns:
  "w_path (as_work s i) \<noteq> SCHEDULED \<Longrightarrow> \<exists>s'. done_take_path try_take_fast_path c m i ok e s = Some s'"
  by (auto simp: done_take_path_def with_waiting_tracker_def try_take_fast_path_def split: reply_path.split)

lemma notify_done_returns:
  assumes "own_cookie s i" "call = None \<or> w_path (as_work s i) \<noteq> SCHEDULED"
  shows "\<exists>s'. notify_done call i s = Some s'"
proof -
  have "\<exists>s'. work_done_notification c m b s = Some s'"
    if "jar_work s c = None \<or> jar_work s c = Some i" "w_path (as_work s i) \<noteq> SCHEDULED" for c m b
    using that done_take_path_returns [of s i] done_take_path_returns [of "jar_erase c s" i]
    by (auto simp: work_done_notification_def done_lookup_def)
  then show ?thesis using assms
    by (auto simp: notify_done_def own_cookie_def split: option.splits)
qed

lemma cancel_returns:
  assumes "own_cookie s i" "w_state (as_work s i) \<noteq> RUNNABLE \<or> w_path (as_work s i) \<noteq> SCHEDULED"
  shows "\<exists>s'. cancel i s = Some s'"
proof -
  obtain push w call where c: "cancel_work (as_work s i) = (push, w, call)" by (metis prod_cases3)
  have w: "w_path w = w_path (as_work s i)" "w_notify w = w_notify (as_work s i)"
    "w_state (as_work s i) \<noteq> RUNNABLE \<Longrightarrow> call = None"
    using c by (auto simp: work_defs split: work_state.splits if_splits)
  show ?thesis
    using assms c w notify_done_returns [of "put_work i w (if push then s\<lparr>cancel_ops := cancel_ops s + 1\<rparr> else s)" i call]
    by (auto simp: cancel_def own_cookie_def split: option.splits)
qed

lemma picked_cookie_returns:
  "t \<noteq> 0 \<and> jar_work s t = None \<Longrightarrow> \<exists>c s'. pick_cookie_for_work i mode s = Some (c, s')"
  using bake_cookie_reaches [of "jar_work s" t "jar_next s"] by (auto simp: pick_cookie_for_work_def)

section \<open>Properties\<close>

abbreviation scheduled_work :: "nat \<Rightarrow> ('r, 'a) async_scheme \<Rightarrow> ('r, 'a) async_scheme" where
  "scheduled_work i s \<equiv> put_work i (snd (with_reply_path_tracker set_scheduled_for_execution (as_work s i))) s"

lemma own_cookie_scheduled: "own_cookie (scheduled_work i s) j = own_cookie s j"
  by (simp add: own_cookie_def)

lemma add_work_async:
  "is_accepting_work q \<Longrightarrow> wq_mode q = ASYNC \<Longrightarrow>
   add_work out others None i q s =
     (case queue_work i q (scheduled_work i s) of None \<Rightarrow> None | Some (_, q1, s1) \<Rightarrow> Some (True, q1, s1))"
  by (auto simp: add_work_def Let_def split: option.split)

text \<open>C10: A work queue with a thread of its own implements the bounded FIFO queue: adding an
  item adds it at the end, at the expense of the oldest item if there is no room; that one
  does not begin to run any more, and no other item is touched. Finishing the item
  in progress removes the oldest one, and an item which has been replaced in the meantime
  does not remove anything. Adding work does not wait unless the item to be canceled is one
  that its client has not asked for yet.
\<close>

theorem queue_refines_fifo:
  assumes "queue_ok q" "is_accepting_work q" "wq_mode q = ASYNC" "\<forall>j. own_cookie s j"
    "i \<notin> set (pending q)"
    "is_full q \<Longrightarrow> w_state (as_work s (hd (pending q))) \<noteq> RUNNABLE \<or> w_path (as_work s (hd (pending q))) \<noteq> SCHEDULED"
  shows "\<exists>q' s'. add_work out others None i q s = Some (True, q', s') \<and> queue_ok q' \<and>
    pending q' = fifo_add (maximum_queue_length q) i (pending q) \<and>
    (is_full q \<longrightarrow> stopped (w_state (as_work s' (hd (pending q))))) \<and>
    (\<forall>j. j \<noteq> i \<and> (is_full q \<longrightarrow> j \<noteq> hd (pending q)) \<longrightarrow> as_work s' j = as_work s j) \<and>
    pending (process_end (hd (pending q')) q') = tl (pending q') \<and>
    (\<forall>j. j \<noteq> hd (pending q') \<longrightarrow> process_end j q' = q')"
proof -
  let ?s = "scheduled_work i s"
  have hd: "the (work_in_progress q) = hd (pending q)" "hd (pending q) \<noteq> i" if "is_full q"
    using that assms(5) by (auto simp: is_full_def pending_def)
  have own: "\<forall>j. own_cookie ?s j" using assms(4) by (simp add: own_cookie_scheduled)
  have c: "\<exists>s'. cancel (hd (pending q)) ?s = Some s'" if "is_full q"
    using cancel_returns [of ?s "hd (pending q)"] own hd(2) [OF that] assms(6) [OF that] by simp
  then have "queue_work i q ?s \<noteq> None" by (auto simp: queue_work_cases hd)
  then obtain b q' s' where r: "queue_work i q ?s = Some (b, q', s')" by fast
  have items: "(is_full q \<longrightarrow> stopped (w_state (as_work s' (hd (pending q))))) \<and>
      (\<forall>j. j \<noteq> i \<and> (is_full q \<longrightarrow> j \<noteq> hd (pending q)) \<longrightarrow> as_work s' j = as_work s j)"
  proof (cases "is_full q")
    case True
    then have "cancel (hd (pending q)) ?s = Some s'"
      using r by (auto simp: queue_work_cases hd)
    then show ?thesis using cancel_keeps [OF _ own [rule_format]] by (auto simp: True)
  next
    case False
    then have "s' = ?s" using r by (auto simp: queue_work_cases split: if_splits prod.splits)
    then show ?thesis using False by simp
  qed
  note q' = queue_work_adds [OF assms(1) r]
  then obtain j where j: "work_in_progress q' = Some j" "hd (pending q') = j"
    by (auto simp: pending_def split: option.splits)
  show ?thesis
    using r q' items process_end_finishes [of q' j] j
    by (auto simp: add_work_async [OF assms(2,3)] process_end_def)
qed

definition sample_queue :: work_queue where
  "sample_queue = (mk_work_queue ASYNC 1)\<lparr>work_in_progress := Some 0, wq_queue := [1]\<rparr>"

definition sample_item :: "work_state \<Rightarrow> reply_path \<Rightarrow> u32 \<Rightarrow> nat work" where
  "sample_item st p c = (mk_work ''GetRange'')\<lparr>w_state := st, w_path := p, w_notify := Some (c, NOTIFY_AFTER_TIMEOUT)\<rparr>"

definition sample_jar :: "nat async" where
  "sample_jar =
     empty_jar\<lparr>as_work := (\<lambda>_. mk_work [])(0 := sample_item RUNNING WAITING 1, 1 := sample_item RUNNABLE SCHEDULED 2,
                 2 := sample_item RUNNABLE PATH_NONE 3),
       jar_work := [1 \<mapsto> 0, 2 \<mapsto> 1, 3 \<mapsto> 2], jar_next := 4\<rparr>"

lemma sample_jar_own: "own_cookie sample_jar j"
  by (simp add: sample_jar_def sample_item_def own_cookie_def mk_work_def)

lemma queue_refines_fifo_witness:
  "\<exists>q' s'. add_work (\<lambda>_. (0, None, True)) id None 2 sample_queue sample_jar = Some (True, q', s') \<and>
    pending q' = [1, 2] \<and> stopped (w_state (as_work s' 0))"
  using queue_refines_fifo [of sample_queue sample_jar 2 "\<lambda>_. (0, None, True)" id] sample_jar_own
  by (auto simp: sample_queue_def mk_work_queue_def queue_ok_def pending_def is_full_def fifo_add_def
      sample_jar_def sample_item_def)



text \<open>A cookie is never 0 and never one that is in use. The search for it ends as long as
  not all cookies are in use; the item is then known under its cookie, and nothing
  else has changed.
\<close>

theorem picked_cookie_fresh:
  assumes "jar_work s t = None" "t \<noteq> 0"
  shows "\<exists>c s'. pick_cookie_for_work i mode s = Some (c, s') \<and> c \<noteq> 0 \<and> jar_work s c = None \<and>
    jar_work s' = (jar_work s)(c \<mapsto> i) \<and> w_notify (as_work s' i) = Some (c, mode) \<and>
    w_state (as_work s' i) = w_state (as_work s i) \<and> w_path (as_work s' i) = w_path (as_work s i) \<and>
    (\<forall>j. j \<noteq> i \<longrightarrow> as_work s' j = as_work s j) \<and> as_signals s' = as_signals s"
proof -
  obtain c where "bake_cookie (jar_work s) (jar_next s) = Some (c, c + 1)" "c \<noteq> 0" "jar_work s c = None"
    using bake_cookie_reaches [of "jar_work s" t "jar_next s"] assms by blast
  then show ?thesis
    by (auto simp: pick_cookie_for_work_def set_done_notification_function_def)
qed

lemma picked_cookie_fresh_witness:
  "\<exists>c s'. pick_cookie_for_work 7 NOTIFY_ALWAYS (sample_jar\<lparr>jar_next := 0\<rparr>) = Some (c, s') \<and> c \<notin> {0, 1, 2, 3}"
  using picked_cookie_fresh [of "sample_jar\<lparr>jar_next := 0\<rparr>" 4 7 NOTIFY_ALWAYS]
  by (auto simp: sample_jar_def split: if_splits)

section \<open>Queues without a thread\<close>

text \<open>
  The item is worked on before the client asks for its result, so that its completion
  waits for the client, which is the thread that waits.
\<close>

lemma run_work_scheduled_blocks:
  assumes "w_state (as_work s i) = RUNNABLE" "w_path (as_work s i) = SCHEDULED"
    "w_notify (as_work s i) = Some (c, m)" "jar_work s c = Some i"
  shows "run_work out i s = None"
  using assms
  by (cases out)
    (auto simp: run_work_def run_begin_def run_end_def set_work_state_def complain_def bad_transitions_def
      put_outcome_error_def put_error_def set_promise_def notify_done_def work_done_notification_def
      done_lookup_def done_take_path_def with_waiting_tracker_def try_take_fast_path_def
      take_fast_path_synchronized_def synchronize_def split: option.split)

text \<open>With a synchronous queue, a D-Bus method call with fast path never returns: completion
  of the work waits until the client waits for the result, which it would do only
  after the work has been completed, in the same thread.
\<close>

theorem synchronous_queue_blocks:
  assumes "wq_mode q = SYNCHRONOUS" "is_accepting_work q" "pending q = []"
    "w_state (as_work s i) = RUNNABLE" "w_path (as_work s i) = PATH_NONE"
  shows "try_fast_path name out others waiting late i q s = None"
proof (cases "pick_cookie_for_work i NOTIFY_AFTER_TIMEOUT s")
  case None
  then show ?thesis by (simp add: try_fast_path_def)
next
  case (Some r)
  then obtain c n where r: "r = (c, (put_work i (set_done_notification_function c NOTIFY_AFTER_TIMEOUT (as_work s i)) s)
               \<lparr>jar_next := n, jar_work := (jar_work s)(c \<mapsto> i)\<rparr>)"
    by (auto simp: pick_cookie_for_work_def bind_eq_Some_conv)
  have q: "work_in_progress q = None" "wq_queue q = []"
    using assms(3) by (auto simp: pending_def split: option.splits)
  let ?s = "scheduled_work i (snd r)"
  have "run_work (out i) i ?s = None"
    by (rule run_work_scheduled_blocks [where c = c and m = NOTIFY_AFTER_TIMEOUT])
      (simp_all add: r assms(4,5) set_done_notification_function_def with_reply_path_tracker_def complain_def
        set_scheduled_for_execution_def)
  moreover have "w_state (as_work ?s i) = RUNNABLE"
    by (simp add: r assms(4) set_done_notification_function_def)
  ultimately have "add_work out others None i q (snd r) = None"
    using assms(1,2) q
    by (simp add: add_work_def Let_def queue_work_def queue_into_free_slot_def process_work_item_def
        work_available_def process_item_def)
  then show ?thesis using Some by (cases r) (simp add: try_fast_path_def)
qed

lemma synchronous_queue_blocks_witness:
  "try_fast_path ''GetRange'' (\<lambda>_. (0, Some ERR_OK, True)) id (Pair Future_ready) id 2
     (mk_work_queue SYNCHRONOUS 0) sample_jar = None"
  by (rule synchronous_queue_blocks)
    (simp_all add: mk_work_queue_def pending_def sample_jar_def sample_item_def mk_work_def)

end
