(* ===== verification/Async_Life.thy ===== *)
theory Async_Life
  imports Queue_Props
begin

text \<open>
  The life of a work item while several threads work with it: the thread of the D-Bus
  handlers, which submits it and waits for its result (\<^verbatim>\<open>try_fast_path()\<close>,
  \<^verbatim>\<open>finish_slow_path()\<close>, \<^verbatim>\<open>realize_location()\<close>), the worker of the queue
  (\<^verbatim>\<open>process_work_item()\<close>, \<^verbatim>\<open>run()\<close>), and whoever cancels it. Each step is what a thread
  does between taking and releasing locks, by the operations of \<^verbatim>\<open>Cookie_Jar\<close> and
  \<^verbatim>\<open>Async_Work\<close>; the threads interleave in any order.
\<close>

section \<open>Where the threads are\<close>

text \<open>
  The handler thread; the flag tells a fetch of the result by its cookie from the first
  attempt. \<open>C_Fast\<close> waits for the result with the jar locked, \<open>C_Idle\<close> is a client that
  has been given its cookie.
\<close>

datatype 'r client_pc =
    C_New
  | C_Picked
  | C_Eat bool
  | C_Found bool
  | C_Waiting bool
  | C_Result bool 'r
  | C_Timed_out bool
  | C_Fast bool
  | C_Idle
  | C_Done

datatype worker_pc = W_None | W_Queued | W_Picked | W_Running | W_Promised | W_Finishing | W_Done

text \<open>
  The thread that has changed the work state to a final one goes on with the notification
  function: \<open>N_Call\<close> and \<open>N_Take\<close> hold the lock of the item, \<open>N_Sync\<close> waits.
\<close>

datatype notifier_pc = N_Idle | N_Call bool | N_Take bool list_error | N_Sync bool list_error | N_End

record 'r life = "'r async" +
  client :: "'r client_pc"
  worker :: worker_pc
  notifier :: notifier_pc
  cookie :: u32

definition work_free :: "'r life \<Rightarrow> bool" where
  "work_free s \<longleftrightarrow> (case notifier s of N_Call _ \<Rightarrow> False | N_Take _ _ \<Rightarrow> False | _ \<Rightarrow> True)"

definition jar_free :: "'r life \<Rightarrow> bool" where
  "jar_free s \<longleftrightarrow> (case client s of C_Fast _ \<Rightarrow> False | _ \<Rightarrow> True)"

definition answer :: "bool \<Rightarrow> 'r \<Rightarrow> 'r message" where
  "answer fetching r = (if fetching then Slow_path_answer r else Fast_path_answer r)"

definition call_pc :: "bool option \<Rightarrow> notifier_pc \<Rightarrow> notifier_pc" where
  "call_pc call n = (case call of None \<Rightarrow> n | Some b \<Rightarrow> N_Call b)"

section \<open>Steps\<close>

text \<open>The steps of the handler thread.\<close>

inductive client_step :: "string \<Rightarrow> notification_mode \<Rightarrow> nat \<Rightarrow> 'r life \<Rightarrow> 'r life \<Rightarrow> bool"
  for name mode i where
  submit:
  "client s = C_New \<Longrightarrow> pick_cookie_for_work i mode s = Some (c, s') \<Longrightarrow>
   client_step name mode i s (s'\<lparr>client := C_Picked, cookie := c\<rparr>)"
| queue:
  "client s = C_Picked \<Longrightarrow> mode \<noteq> NOTIFY_ALWAYS \<Longrightarrow>
   client_step name mode i s ((scheduled_work i s)\<lparr>client := C_Eat False, worker := W_Queued\<rparr>)"
| queue_async:
  "client s = C_Picked \<Longrightarrow> mode = NOTIFY_ALWAYS \<Longrightarrow>
   client_step name mode i s
     ((send (Fast_path_failure (cookie s) ERR_BUSY) (scheduled_work i s))\<lparr>client := C_Idle, worker := W_Queued\<rparr>)"
| eat_bad:
  "client s = C_Eat f \<Longrightarrow> eat_lookup name (cookie s) s = Inl e \<Longrightarrow>
   client_step name mode i s
     ((send (Dbus_error (if f then ''Invalid cookie'' else ''Internal error'')) s)\<lparr>client := C_Done\<rparr>)"
| eat_found:
  "client s = C_Eat f \<Longrightarrow> eat_lookup name (cookie s) s = Inr i \<Longrightarrow>
   client_step name mode i s (s\<lparr>client := C_Found f\<rparr>)"
| wait:
  "client s = C_Found f \<Longrightarrow> work_free s \<Longrightarrow>
   client_step name mode i s ((wait_begin i s)\<lparr>client := C_Waiting f\<rparr>)"
| ready:
  "client s = C_Waiting f \<Longrightarrow> future_get i s = Some r \<Longrightarrow>
   client_step name mode i s (s\<lparr>client := C_Result f r\<rparr>)"
| timeout:
  "client s = C_Waiting f \<Longrightarrow> future_get i s = None \<Longrightarrow>
   client_step name mode i s (s\<lparr>client := C_Timed_out f\<rparr>)"
| eaten:
  "client s = C_Result f r \<Longrightarrow>
   client_step name mode i s ((send (answer f r) (jar_erase (cookie s) s))\<lparr>client := C_Done\<rparr>)"
| late:
  "client s = C_Timed_out False \<Longrightarrow> work_free s \<Longrightarrow>
   try_eat_quickly (cookie s) (Some (\<lambda>c. Fast_path_failure c ERR_BUSY)) i s = (False, s') \<Longrightarrow>
   client_step name mode i s (s'\<lparr>client := C_Idle\<rparr>)"
| late_fetch:
  "client s = C_Timed_out True \<Longrightarrow> work_free s \<Longrightarrow>
   try_eat_quickly (cookie s) None i s = (False, s') \<Longrightarrow>
   client_step name mode i s ((send (Slow_path_failure ERR_BUSY) s')\<lparr>client := C_Idle\<rparr>)"
| quick:
  "client s = C_Timed_out f \<Longrightarrow> work_free s \<Longrightarrow>
   try_eat_quickly (cookie s) (if f then None else Some (\<lambda>c. Fast_path_failure c ERR_BUSY)) i s = (True, s') \<Longrightarrow>
   client_step name mode i s (s'\<lparr>client := C_Fast f\<rparr>)"
| fast:
  "client s = C_Fast f \<Longrightarrow> future_get i s = Some r \<Longrightarrow>
   client_step name mode i s ((send (answer f r) (jar_erase (cookie s) s))\<lparr>client := C_Done\<rparr>)"
| fetch:
  "client s = C_Idle \<Longrightarrow> Data_available (cookie s) \<in> set (as_signals s) \<Longrightarrow>
   client_step name mode i s (s\<lparr>client := C_Eat True\<rparr>)"

text \<open>The steps of the worker thread.\<close>

inductive worker_step :: "'r outcome \<Rightarrow> nat \<Rightarrow> 'r life \<Rightarrow> 'r life \<Rightarrow> bool"
  for out i where
  take_item:
  "worker s = W_Queued \<Longrightarrow> w_state (as_work s i) = RUNNABLE \<Longrightarrow>
   worker_step out i s (s\<lparr>worker := W_Picked\<rparr>)"
| skip_item:
  "worker s = W_Queued \<Longrightarrow> w_state (as_work s i) \<in> {CANCELING, CANCELED} \<Longrightarrow>
   worker_step out i s (s\<lparr>worker := W_Done\<rparr>)"
| run_first:
  "worker s = W_Picked \<Longrightarrow> work_free s \<Longrightarrow> run_begin (as_work s i) = (goes, w) \<Longrightarrow>
   worker_step out i s ((put_work i w s)\<lparr>worker := if goes then W_Running else W_Done\<rparr>)"
| promise:
  "worker s = W_Running \<Longrightarrow> out = (r, e, ok) \<Longrightarrow>
   worker_step out i s ((put_work i (set_promise r (as_work s i)) s)\<lparr>worker := W_Promised\<rparr>)"
| error_code:
  "worker s = W_Promised \<Longrightarrow> out = (r, e, ok) \<Longrightarrow>
   worker_step out i s ((put_work i (put_outcome_error e (as_work s i)) s)\<lparr>worker := W_Finishing\<rparr>)"
| run_last:
  "worker s = W_Finishing \<Longrightarrow> work_free s \<Longrightarrow> out = (r, e, ok) \<Longrightarrow> run_end ok (as_work s i) = (w, call) \<Longrightarrow>
   worker_step out i s
     ((put_work i w s)\<lparr>worker := W_Done, notifier := call_pc call (notifier s)\<rparr>)"

text \<open>Somebody cancels the item after it has been queued.\<close>

inductive cancel_step :: "nat \<Rightarrow> 'r life \<Rightarrow> 'r life \<Rightarrow> bool"
  for i where
  cancel:
  "worker s \<noteq> W_None \<Longrightarrow> work_free s \<Longrightarrow> cancel_work (as_work s i) = (push, w, call) \<Longrightarrow>
   cancel_step i s
     ((put_work i w s)\<lparr>cancel_ops := cancel_ops s + (if push then 1 else 0), notifier := call_pc call (notifier s)\<rparr>)"

text \<open>The notification about completion.\<close>

inductive notify_step :: "notification_mode \<Rightarrow> nat \<Rightarrow> 'r life \<Rightarrow> 'r life \<Rightarrow> bool"
  for mode i where
  unknown:
  "notifier s = N_Call b \<Longrightarrow> jar_free s \<Longrightarrow> done_lookup (cookie s) b s = (None, s') \<Longrightarrow>
   notify_step mode i s (s'\<lparr>notifier := N_End\<rparr>)"
| known:
  "notifier s = N_Call b \<Longrightarrow> jar_free s \<Longrightarrow> done_lookup (cookie s) b s = (Some (i, ok, e), s') \<Longrightarrow>
   notify_step mode i s (s'\<lparr>notifier := N_Take ok e\<rparr>)"
| take_path:
  "notifier s = N_Take ok e \<Longrightarrow>
   done_take_path try_take_fast_path (cookie s) mode i ok e s = Some s' \<Longrightarrow>
   notify_step mode i s (s'\<lparr>notifier := N_End\<rparr>)"
| must_wait:
  "notifier s = N_Take ok e \<Longrightarrow>
   done_take_path try_take_fast_path (cookie s) mode i ok e s = None \<Longrightarrow>
   notify_step mode i s (s\<lparr>notifier := N_Sync ok e\<rparr>)"
| synchronized:
  "notifier s = N_Sync ok e \<Longrightarrow>
   done_take_path take_fast_path_synchronized (cookie s) mode i ok e s = Some s' \<Longrightarrow>
   notify_step mode i s (s'\<lparr>notifier := N_End\<rparr>)"

definition life_step :: "bool \<Rightarrow> string \<Rightarrow> notification_mode \<Rightarrow> 'r outcome \<Rightarrow> nat \<Rightarrow> 'r life \<Rightarrow> 'r life \<Rightarrow> bool" where
  "life_step cancels name mode out i s s' \<longleftrightarrow>
     client_step name mode i s s' \<or> worker_step out i s s' \<or> notify_step mode i s s' \<or>
     cancels \<and> cancel_step i s s'"

text \<open>A fresh item, with whatever else is in the jar.\<close>

definition life_start :: "string \<Rightarrow> nat \<Rightarrow> 'r life \<Rightarrow> bool" where
  "life_start name i s \<longleftrightarrow>
     client s = C_New \<and> worker s = W_None \<and> notifier s = N_Idle \<and> as_signals s = [] \<and>
     as_work s i = mk_work name"

inductive life_reach :: "bool \<Rightarrow> string \<Rightarrow> notification_mode \<Rightarrow> 'r outcome \<Rightarrow> nat \<Rightarrow> 'r life \<Rightarrow> bool"
  for cancels name mode out i where
  start: "life_start name i s \<Longrightarrow> life_reach cancels name mode out i s"
| step: "life_reach cancels name mode out i s \<Longrightarrow> life_step cancels name mode out i s s' \<Longrightarrow>
         life_reach cancels name mode out i s'"

section \<open>The invariant of the fast path\<close>

definition outcome_error :: "'r outcome \<Rightarrow> list_error" where
  "outcome_error out = (case fst (snd out) of None \<Rightarrow> ERR_OK | Some e \<Rightarrow> e)"

text \<open>What the worker has done to the item, when it is not canceled and its work gets done.\<close>

definition worker_inv :: "'r outcome \<Rightarrow> 'r work \<Rightarrow> 'r life \<Rightarrow> bool" where
  "worker_inv out w s =
     (case worker s of
        W_None \<Rightarrow> w_state w = RUNNABLE \<and> w_promise w = None \<and> w_error w = ERR_OK \<and> notifier s = N_Idle
      | W_Queued \<Rightarrow> w_state w = RUNNABLE \<and> w_promise w = None \<and> w_error w = ERR_OK \<and> notifier s = N_Idle
      | W_Picked \<Rightarrow> w_state w = RUNNABLE \<and> w_promise w = None \<and> w_error w = ERR_OK \<and> notifier s = N_Idle
      | W_Running \<Rightarrow> w_state w = RUNNING \<and> w_promise w = None \<and> w_error w = ERR_OK \<and> notifier s = N_Idle
      | W_Promised \<Rightarrow> w_state w = RUNNING \<and> w_promise w = Some (fst out) \<and> w_error w = ERR_OK \<and> notifier s = N_Idle
      | W_Finishing \<Rightarrow> w_state w = RUNNING \<and> w_promise w = Some (fst out) \<and> w_error w = outcome_error out \<and>
          notifier s = N_Idle
      | W_Done \<Rightarrow> w_state w = DONE \<and> w_promise w = Some (fst out) \<and> w_error w = outcome_error out \<and>
          notifier s \<in> {N_Call True, N_Take (outcome_error out = ERR_OK) (outcome_error out),
                        N_Sync (outcome_error out = ERR_OK) (outcome_error out), N_End})"

definition before_fetch :: "'r outcome \<Rightarrow> 'r work \<Rightarrow> 'r life \<Rightarrow> bool" where
  "before_fetch out w s \<longleftrightarrow>
     notifier s = N_End \<and> outcome_error out = ERR_OK \<and>
     as_signals s = [Fast_path_failure (cookie s) ERR_BUSY, Data_available (cookie s)]"

definition not_synchronizing :: "'r life \<Rightarrow> bool" where
  "not_synchronizing s \<longleftrightarrow> (\<forall>ok e. notifier s \<noteq> N_Sync ok e)"

definition client_inv :: "'r outcome \<Rightarrow> 'r work \<Rightarrow> 'r life \<Rightarrow> bool" where
  "client_inv out w s =
     (case client s of
        C_New \<Rightarrow> worker s = W_None \<and> w_path w = PATH_NONE \<and> as_signals s = []
      | C_Picked \<Rightarrow> worker s = W_None \<and> w_path w = PATH_NONE \<and> as_signals s = []
      | C_Eat False \<Rightarrow> w_path w = SCHEDULED \<and> notifier s \<noteq> N_End \<and> as_signals s = []
      | C_Found False \<Rightarrow> w_path w = SCHEDULED \<and> notifier s \<noteq> N_End \<and> as_signals s = []
      | C_Waiting False \<Rightarrow> w_path w = (if notifier s = N_End then FAST_PATH else WAITING) \<and> as_signals s = []
      | C_Result False r \<Rightarrow> w_path w = (if notifier s = N_End then FAST_PATH else WAITING) \<and> r = fst out \<and>
          w_promise w = Some (fst out) \<and> as_signals s = []
      | C_Timed_out False \<Rightarrow> w_path w = (if notifier s = N_End then FAST_PATH else WAITING) \<and>
          not_synchronizing s \<and> as_signals s = []
      | C_Fast False \<Rightarrow> w_path w = FAST_PATH \<and> notifier s = N_End \<and> as_signals s = []
      | C_Idle \<Rightarrow>
          (if notifier s = N_End then
             if outcome_error out = ERR_OK then w_path w = SLOW_PATH_READY_NOTIFIED \<and> before_fetch out w s
             else w_path w = SLOW_PATH_COOKIE_SENT \<and>
               as_signals s = [Fast_path_failure (cookie s) ERR_BUSY, Data_error (cookie s) (outcome_error out)]
           else w_path w = SLOW_PATH_COOKIE_SENT \<and> not_synchronizing s \<and>
             as_signals s = [Fast_path_failure (cookie s) ERR_BUSY])
      | C_Eat True \<Rightarrow> w_path w = SLOW_PATH_READY_NOTIFIED \<and> before_fetch out w s
      | C_Found True \<Rightarrow> w_path w = SLOW_PATH_READY_NOTIFIED \<and> before_fetch out w s
      | C_Waiting True \<Rightarrow> w_path w = SLOW_PATH_FETCHING \<and> before_fetch out w s
      | C_Result True r \<Rightarrow> w_path w = SLOW_PATH_FETCHING \<and> before_fetch out w s \<and> r = fst out
      | C_Timed_out True \<Rightarrow> False
      | C_Fast True \<Rightarrow> False
      | C_Done \<Rightarrow>
          w_path w \<in> {WAITING, FAST_PATH} \<and> (w_path w = FAST_PATH \<longrightarrow> notifier s = N_End) \<and>
            as_signals s = [Fast_path_answer (fst out)] \<or>
          w_path w = SLOW_PATH_FETCHING \<and> notifier s = N_End \<and> outcome_error out = ERR_OK \<and>
            as_signals s = [Fast_path_failure (cookie s) ERR_BUSY, Data_available (cookie s), Slow_path_answer (fst out)])"

text \<open>The item itself, and the cookie that stands for it until the result has been fetched.\<close>

definition item_inv :: "string \<Rightarrow> nat \<Rightarrow> 'r life \<Rightarrow> bool" where
  "item_inv name i s \<longleftrightarrow>
     w_name (as_work s i) = name \<and> w_log (as_work s i) = [] \<and>
     (client s \<notin> {C_New, C_Picked} \<longrightarrow> worker s \<noteq> W_None) \<and>
     (client s \<noteq> C_New \<longrightarrow> w_notify (as_work s i) = Some (cookie s, NOTIFY_AFTER_TIMEOUT) \<and> cookie s \<noteq> 0) \<and>
     (client s \<notin> {C_New, C_Done} \<longrightarrow> jar_work s (cookie s) = Some i) \<and>
     (client s = C_Done \<longrightarrow> jar_work s (cookie s) = None)"

definition life_inv :: "string \<Rightarrow> 'r outcome \<Rightarrow> nat \<Rightarrow> 'r life \<Rightarrow> bool" where
  "life_inv name out i s \<longleftrightarrow>
     item_inv name i s \<and> worker_inv out (as_work s i) s \<and> client_inv out (as_work s i) s"

end
