(* ===== verification/Async_Inv.thy ===== *)
theory Async_Inv
  imports Async_Life
begin

text \<open>
  The invariant of \<^verbatim>\<open>Async_Life\<close> is kept by each thread, as long as nobody cancels the
  item, its work gets done, and the client of a pure asynchronous interface is left out.
\<close>

section \<open>Reading off states\<close>

lemma life_fields [simp]:
  "client (put_work i w s) = client s" "worker (put_work i w s) = worker s"
  "notifier (put_work i w s) = notifier s" "cookie (put_work i w s) = cookie s"
  "client (send m s) = client s" "worker (send m s) = worker s"
  "notifier (send m s) = notifier s" "cookie (send m s) = cookie s"
  "client (jar_erase c s) = client s" "worker (jar_erase c s) = worker s"
  "notifier (jar_erase c s) = notifier s" "cookie (jar_erase c s) = cookie s"
  by (simp_all add: put_work_def send_def jar_erase_def)

lemma bake_cookie_result:
  assumes "bake_cookie jar n = Some r"
  shows "fst r \<noteq> 0 \<and> jar (fst r) = None"
  using assms
  by (rule bake_cookie.raw_induct [where P = "\<lambda>jar n r. fst r \<noteq> 0 \<and> jar (fst r) = None", rotated])
    (auto split: if_splits)

lemma pick_cookie_cases:
  assumes "pick_cookie_for_work i mode s = Some (c, s')"
  shows "c \<noteq> 0" "jar_work s' = (jar_work s)(c \<mapsto> i)"
    "as_work s' = (as_work s)(i := (as_work s i)\<lparr>w_notify := Some (c, mode)\<rparr>)" "as_signals s' = as_signals s"
  using assms bake_cookie_result [of "jar_work s" "jar_next s"]
  by (auto simp: pick_cookie_for_work_def bind_eq_Some_conv set_done_notification_function_def)

lemma pick_cookie_life:
  assumes "pick_cookie_for_work i mode (s :: 'r life) = Some (c, s')"
  shows "client s' = client s" "worker s' = worker s" "notifier s' = notifier s"
  using assms by (auto simp: pick_cookie_for_work_def bind_eq_Some_conv)

lemma worker_inv_cong:
  "worker s' = worker s \<Longrightarrow> notifier s' = notifier s \<Longrightarrow> w_state w' = w_state w \<Longrightarrow> w_promise w' = w_promise w \<Longrightarrow>
   w_error w' = w_error w \<Longrightarrow> worker_inv out w s \<Longrightarrow> worker_inv out w' s'"
  unfolding worker_inv_def by (cases "worker s") auto

lemma client_inv_cong:
  assumes "client s' = client s" "notifier s' = notifier s" "cookie s' = cookie s" "as_signals s' = as_signals s"
    "w_path w' = w_path w" "worker s = W_None \<longleftrightarrow> worker s' = W_None"
    "w_promise w' = w_promise w \<or> w_promise w = None"
  shows "client_inv out w s \<Longrightarrow> client_inv out w' s'"
  unfolding client_inv_def before_fetch_def not_synchronizing_def assms(1-6)
  using assms(7) by (auto split: client_pc.split bool.split)

lemma worker_early: "worker_inv out w s \<Longrightarrow> w_promise w = None \<Longrightarrow> notifier s = N_Idle"
  unfolding worker_inv_def by (auto split: worker_pc.splits)

lemma worker_late: "worker_inv out w s \<Longrightarrow> notifier s \<noteq> N_Idle \<Longrightarrow> worker s = W_Done \<and> w_state w = DONE \<and> 
   w_error w = outcome_error out \<and> w_promise w = Some (fst out)"
  unfolding worker_inv_def by (auto split: worker_pc.splits)

lemma worker_promised: "worker_inv out w s \<Longrightarrow> w_promise w = Some r \<Longrightarrow> r = fst out"
  unfolding worker_inv_def by (auto split: worker_pc.splits)

lemmas client_invs = client_inv_def before_fetch_def not_synchronizing_def

lemmas path_ops = with_reply_path_tracker_def complain_def tracker_defs

lemma try_eat_quickly_item:
  assumes "try_eat_quickly c m i s = (b, s')"
  shows "w_state (as_work s' i) = w_state (as_work s i)"
  using assms by (auto simp: try_eat_quickly_def split_def Let_def bug_at_def split: if_splits option.splits)

lemma try_eat_quickly_keeps:
  fixes s :: "'r life"
  assumes "try_eat_quickly c m i s = (b, s')"
  shows "w_state (as_work s' i) = w_state (as_work s i)" "w_promise (as_work s' i) = w_promise (as_work s i)"
    "w_error (as_work s' i) = w_error (as_work s i)" "notifier s' = notifier s" "worker s' = worker s"
  using assms
  by (auto simp: try_eat_quickly_def split_def Let_def bug_at_def split: if_splits option.splits)

lemma try_eat_quickly_cases:
  "w_path (as_work s i) = WAITING \<Longrightarrow>
   try_eat_quickly c (Some m) i s = (False, put_work i ((as_work s i)\<lparr>w_path := SLOW_PATH_COOKIE_SENT\<rparr>) (send (m c) s))"
  "w_path (as_work s i) = FAST_PATH \<Longrightarrow>
   try_eat_quickly c cb i s = (True, put_work i ((as_work s i)\<lparr>w_path := FAST_PATH\<rparr>) s)"
  by (simp_all add: try_eat_quickly_def path_ops put_work_def send_def Let_def)

section \<open>The handler thread\<close>

lemma client_step_item:
  assumes "client_step name NOTIFY_AFTER_TIMEOUT i s s'" "life_inv name out i s"
  shows "w_state (as_work s' i) = w_state (as_work s i) \<and> w_promise (as_work s' i) = w_promise (as_work s i) \<and>
     w_error (as_work s' i) = w_error (as_work s i) \<and> notifier s' = notifier s \<and>
    (worker s' = worker s \<or> worker s = W_None \<and> worker s' = W_Queued)"
  using assms(1)
proof (cases rule: client_step.cases)
  case (submit c s1)
  then show ?thesis using pick_cookie_cases [OF submit(3)] pick_cookie_life [OF submit(3)]
    by simp
next
  case queue
  then show ?thesis using assms(2) by (simp add: life_inv_def client_inv_def)
next
  case (wait f)
  then show ?thesis by (simp add: wait_begin_def)
next
  case (late s1)
  then show ?thesis using try_eat_quickly_keeps [OF late(4)] by simp
next
  case (late_fetch s1)
  then show ?thesis using try_eat_quickly_keeps [OF late_fetch(4)] by simp
next
  case (quick f s1)
  then show ?thesis using try_eat_quickly_keeps [OF quick(4)] by simp
qed simp_all

lemma client_step_inv:
  assumes "client_step name NOTIFY_AFTER_TIMEOUT i s s'" "item_inv name i s" "worker_inv (r0, e0, True) (as_work s i) s"
     "client_inv (r0, e0, True) (as_work s i) s"
  shows "item_inv name i s' \<and> client_inv (r0, e0, True) (as_work s' i) s'"
  using assms(1)
proof (cases rule: client_step.cases)
  case (submit c s1)
  then show ?thesis using assms(2,4) pick_cookie_cases [OF submit(3)] pick_cookie_life [OF submit(3)]
    by (simp add: item_inv_def client_invs)
next
  case queue
  then show ?thesis using assms(2,3,4) worker_early
    by (auto simp: item_inv_def client_invs path_ops worker_inv_def split: worker_pc.splits)
next
  case queue_async
  then show ?thesis by simp
next
  case (eat_bad f e)
  then show ?thesis using assms(2) by (simp add: item_inv_def eat_lookup_def)
next
  case (eat_found f)
  then show ?thesis using assms(2,4) by (cases f) (simp_all add: item_inv_def client_invs)
next
  case (wait f)
  then show ?thesis using assms(2,4) by (cases f) (simp_all add: item_inv_def client_invs path_ops wait_begin_def)
next
  case (ready f r)
  then show ?thesis using assms(2,4) worker_promised [OF assms(3)]
    by (cases f) (simp_all add: item_inv_def client_invs future_get_def)
next
  case (timeout f)
  then show ?thesis using assms(2,4) worker_early [OF assms(3)] worker_late [OF assms(3)]
    by (cases f) (simp_all add: item_inv_def client_invs future_get_def)
next
  case (eaten f r)
  then show ?thesis using assms(2,4) 
    by (cases f) (simp_all add: item_inv_def client_invs answer_def)
next
  case (late s1)
  have "w_path (as_work s i) \<in> {WAITING, FAST_PATH}" using late(2) assms(4) by (simp add: client_invs)
  then show ?thesis using late assms(2,4) by (auto simp: item_inv_def client_invs try_eat_quickly_cases)
next
  case (late_fetch s1)
  then show ?thesis using assms(4) by (simp add: client_inv_def)
next
  case (quick f s1)
  then have "f = False" "w_path (as_work s i) \<in> {WAITING, FAST_PATH}"
    using assms(4) by (cases f; simp add: client_invs)+
  then show ?thesis using quick assms(2,4)
    by (auto simp: item_inv_def client_invs try_eat_quickly_cases split: if_splits)
next
  case (fast f r)
  then show ?thesis using assms(2,4) worker_promised [OF assms(3)]
    by (cases f) (simp_all add: item_inv_def client_invs future_get_def answer_def)
next
  case fetch
  then show ?thesis using assms(2,4) 
    by (auto simp: item_inv_def client_invs split: if_splits)
qed

section \<open>The worker thread\<close>

lemma client_inv_notifier:
  assumes "client_inv out w s" "notifier s \<noteq> N_End" "n \<noteq> N_End" "\<forall>ok e. n \<noteq> N_Sync ok e"
  shows "client_inv out w (s\<lparr>notifier := n\<rparr>)"
  using assms by (cases "client s") (auto simp: client_invs split: bool.splits)

lemma worker_step_inv:
  assumes "worker_step out i s s'" "life_inv name out i s" "out = (r0, e0, True)"
  shows "life_inv name out i s'"
  using assms(1)
proof (cases rule: worker_step.cases)
  case take_item
  then show ?thesis using assms(2) client_inv_cong [of s' s "as_work s' i" "as_work s i" out]
    by (simp add: life_inv_def item_inv_def worker_inv_def)
next
  case skip_item
  then show ?thesis using assms(2) by (auto simp: life_inv_def worker_inv_def)
next
  case (run_first goes w)
  then have "goes" "w = (as_work s i)\<lparr>w_state := RUNNING\<rparr>" using assms(2)
    by (auto simp: life_inv_def worker_inv_def run_begin_def set_work_state_def complain_def bad_transitions_def)
  then show ?thesis using run_first(1,2) assms(2) client_inv_cong [of s' s w "as_work s i" out]
    by (simp add: life_inv_def item_inv_def worker_inv_def)
next
  case (promise r e ok)
  then show ?thesis using assms(2) client_inv_cong [of s' s "as_work s' i" "as_work s i" out]
    by (simp add: life_inv_def item_inv_def worker_inv_def set_promise_def)
next
  case (error_code r e ok)
  then show ?thesis using assms(2) client_inv_cong [of s' s "as_work s' i" "as_work s i" out]
    by (cases e) (simp_all add: life_inv_def item_inv_def worker_inv_def put_outcome_error_def put_error_def outcome_error_def)
next
  case (run_last r e ok w call)
  then have w: "w = (as_work s i)\<lparr>w_state := DONE\<rparr>" "notifier s = N_Idle" using assms(2,3)
    by (auto simp: life_inv_def worker_inv_def run_end_def set_work_state_def complain_def bad_transitions_def)
  have c: "client s \<noteq> C_New" "client s \<noteq> C_Picked" "client_inv out (as_work s i) s"
    using run_last(2) assms(2) by (auto simp: life_inv_def client_inv_def)
  then have "call = Some True" using run_last assms(2,3)
    by (auto simp: life_inv_def item_inv_def worker_inv_def run_end_def set_work_state_def)
  moreover have "client_inv out w s"
    by (rule client_inv_cong [OF _ _ _ _ _ _ _ c(3)]) (simp_all add: w)
  then have "client_inv out w (s\<lparr>notifier := N_Call True\<rparr>)"
    by (rule client_inv_notifier) (simp_all add: w)
  ultimately have "client_inv out w s'"
    using client_inv_cong [of s' "s\<lparr>notifier := N_Call True\<rparr>" w w out] run_last(1,2)
    by (simp add: call_pc_def)
  with \<open>call = Some True\<close> show ?thesis using run_last w c assms(2)
    by (simp add: life_inv_def item_inv_def worker_inv_def call_pc_def)
qed

section \<open>The notification\<close>

lemma notifying_cases:
  assumes "client_inv out w s" "worker s = W_Done" "notifier s \<noteq> N_End"
  obtains (scheduled) "w_path w = SCHEDULED" "client s \<in> {C_Eat False, C_Found False}" "as_signals s = []"
  | (waiting) "w_path w = WAITING" "client s \<in> {C_Waiting False, C_Result False (fst out), C_Timed_out False}"
      "as_signals s = []"
  | (answered) "w_path w = WAITING" "client s = C_Done" "as_signals s = [Fast_path_answer (fst out)]"
  | (announced) "w_path w = SLOW_PATH_COOKIE_SENT" "client s = C_Idle" "not_synchronizing s"
      "as_signals s = [Fast_path_failure (cookie s) ERR_BUSY]"
  using assms by (cases "client s") (auto simp: client_invs split: bool.splits)

lemma done_take_path_simps:
  "w_path (as_work s i) = SCHEDULED \<Longrightarrow> done_take_path try_take_fast_path c m i ok e s = None"
  "w_path (as_work s i) = WAITING \<Longrightarrow> m \<noteq> NOTIFY_ALWAYS \<Longrightarrow>
   done_take_path try_take_fast_path c m i ok e s = Some (put_work i ((as_work s i)\<lparr>w_path := FAST_PATH\<rparr>) s)"
  "w_path (as_work s i) = WAITING \<Longrightarrow> m \<noteq> NOTIFY_ALWAYS \<Longrightarrow>
   done_take_path take_fast_path_synchronized c m i ok e s = Some (put_work i ((as_work s i)\<lparr>w_path := FAST_PATH\<rparr>) s)"
  "w_path (as_work s i) \<noteq> WAITING \<Longrightarrow> done_take_path take_fast_path_synchronized c m i ok e s = None"
  "w_path (as_work s i) = SLOW_PATH_COOKIE_SENT \<Longrightarrow> m = NOTIFY_AFTER_TIMEOUT \<Longrightarrow>
   done_take_path try_take_fast_path c m i ok e s =
     Some (if ok then put_work i ((as_work s i)\<lparr>w_path := SLOW_PATH_READY_NOTIFIED\<rparr>) (send (Data_available c) s)
           else send (Data_error c e) (put_work i ((as_work s i)\<lparr>w_path := SLOW_PATH_COOKIE_SENT\<rparr>) s))"
  by (simp_all add: done_take_path_def with_waiting_tracker_def path_ops done_continue_def announce_done_def
      put_work_def send_def Let_def)

text \<open>What taking the path does, by where the client is at that time.\<close>

definition notified :: "'r outcome \<Rightarrow> nat \<Rightarrow> 'r life \<Rightarrow> 'r life" where
  "notified out i s =
     (if w_path (as_work s i) = WAITING then put_work i ((as_work s i)\<lparr>w_path := FAST_PATH\<rparr>) s
      else if outcome_error out = ERR_OK then
        put_work i ((as_work s i)\<lparr>w_path := SLOW_PATH_READY_NOTIFIED\<rparr>) (send (Data_available (cookie s)) s)
      else send (Data_error (cookie s) (outcome_error out))
        (put_work i ((as_work s i)\<lparr>w_path := SLOW_PATH_COOKIE_SENT\<rparr>) s))\<lparr>notifier := N_End\<rparr>"

lemma notified_inv:
  assumes "life_inv name out i s" "worker s = W_Done" "notifier s \<notin> {N_Idle, N_End}" "w_path (as_work s i) \<noteq> SCHEDULED"
  shows "life_inv name out i (notified out i s)"
proof -
  let ?w = "as_work s i"
  from assms(1) have ii: "item_inv name i s" and wi: "worker_inv out ?w s" and ci: "client_inv out ?w s"
    by (auto simp: life_inv_def)
  have "item_inv name i (notified out i s)" using ii by (simp add: item_inv_def notified_def)
  moreover have "worker_inv out (as_work (notified out i s) i) (notified out i s)"
    using wi assms(2) by (simp add: worker_inv_def notified_def)
  moreover have "client_inv out (as_work (notified out i s) i) (notified out i s)"
    using ci assms(2) assms(3) [simplified, THEN conjunct2]
  proof (cases rule: notifying_cases)
    case scheduled
    then show ?thesis using assms(4) by simp
  next
    case waiting
    then show ?thesis using wi assms(2) by (auto simp: notified_def client_invs worker_inv_def)
  next
    case answered
    then show ?thesis by (simp add: notified_def client_invs)
  next
    case announced
    then show ?thesis by (simp add: notified_def client_invs)
  qed
  ultimately show ?thesis by (simp add: life_inv_def)
qed

lemma done_take_path_notified:
  assumes "w_path (as_work s i) \<in> {SCHEDULED, WAITING, SLOW_PATH_COOKIE_SENT}" "e = outcome_error out"
    "ok = (outcome_error out = ERR_OK)"
  shows "done_take_path try_take_fast_path (cookie s) NOTIFY_AFTER_TIMEOUT i ok e s = Some s1 \<Longrightarrow>
      s1\<lparr>notifier := N_End\<rparr> = notified out i s \<and> w_path (as_work s i) \<noteq> SCHEDULED"
    "done_take_path take_fast_path_synchronized (cookie s) NOTIFY_AFTER_TIMEOUT i ok e s = Some s1 \<Longrightarrow>
      s1\<lparr>notifier := N_End\<rparr> = notified out i s \<and> w_path (as_work s i) \<noteq> SCHEDULED"
    "done_take_path try_take_fast_path (cookie s) NOTIFY_AFTER_TIMEOUT i ok e s = None \<Longrightarrow> w_path (as_work s i) = SCHEDULED"
  using assms by (auto simp: done_take_path_simps notified_def split: if_splits)

lemma notify_step_inv:
  assumes "notify_step NOTIFY_AFTER_TIMEOUT i s s'" "life_inv name out i s"
  shows "life_inv name out i s'"
proof -
  let ?w = "as_work s i"
  from assms(1) have n: "notifier s \<noteq> N_End" "notifier s \<noteq> N_Idle" by (auto elim: notify_step.cases)
  then have d: "worker s = W_Done" "w_state ?w = DONE" "w_error ?w = outcome_error out" "w_promise ?w = Some (fst out)"
    using worker_late [of out ?w s] assms(2) by (auto simp: life_inv_def)
  from assms(2) have ii: "item_inv name i s" and wi: "worker_inv out ?w s" and ci: "client_inv out ?w s"
    by (auto simp: life_inv_def)
  have path: "w_path ?w \<in> {SCHEDULED, WAITING, SLOW_PATH_COOKIE_SENT}"
    using ci d(1) n(1) by (cases rule: notifying_cases) simp_all
  have outcome: "e = outcome_error out \<and> ok = (outcome_error out = ERR_OK)"
    if "notifier s \<in> {N_Take ok e, N_Sync ok e}" for ok e
    using that wi d(1) by (auto simp: worker_inv_def)
  from assms(1) show ?thesis
  proof (cases rule: notify_step.cases)
    case (unknown b s1)
    then have "client s = C_Done" "s1 = s" using ii ci d
      by (auto simp: item_inv_def done_lookup_def client_inv_def split: option.splits)
    then show ?thesis using unknown ii wi ci d
      by (auto simp: life_inv_def item_inv_def worker_inv_def client_inv_def)
  next
    case (known b ok e s1)
    then have "s1 = s" "ok = (outcome_error out = ERR_OK)" "e = outcome_error out" using wi d
      by (auto simp: done_lookup_def work_success_def get_error_code_def worker_inv_def split: option.splits)
    then show ?thesis using known ii wi d client_inv_notifier [OF ci, of "N_Take ok e"]
      by (simp add: life_inv_def item_inv_def worker_inv_def)
  next
    case (take_path ok e s1)
    then show ?thesis
      using done_take_path_notified(1) [OF path] outcome [of ok e] notified_inv [OF assms(2) d(1)] by simp
  next
    case (must_wait ok e)
    then have "w_path ?w = SCHEDULED" using done_take_path_notified(3) [OF path] outcome [of ok e] by simp
    from ci d(1) n(1) this show ?thesis
      by (cases rule: notifying_cases)
        (use must_wait ii d wi outcome [of ok e] in \<open>auto simp: life_inv_def item_inv_def worker_inv_def client_invs\<close>)
  next
    case (synchronized ok e s1)
    then show ?thesis
      using done_take_path_notified(2) [OF path] outcome [of ok e] notified_inv [OF assms(2) d(1)] by simp
  qed
qed

section \<open>All threads\<close>

lemma life_start_inv: "life_start name i s \<Longrightarrow> life_inv name (r, e, True) i s"
  by (simp add: life_start_def life_inv_def item_inv_def worker_inv_def client_inv_def mk_work_def)

lemma life_step_inv:
  assumes "life_step False name NOTIFY_AFTER_TIMEOUT (r, e, True) i s s'" "life_inv name (r, e, True) i s"
  shows "life_inv name (r, e, True) i s'"
proof -
  consider "client_step name NOTIFY_AFTER_TIMEOUT i s s'" | "worker_step (r, e, True) i s s'"
    | "notify_step NOTIFY_AFTER_TIMEOUT i s s'"
    using assms(1) by (auto simp: life_step_def)
  then show ?thesis
  proof cases
    case 1
    have w: "worker_inv (r, e, True) (as_work s i) s" using assms(2) by (simp add: life_inv_def)
    have "worker_inv (r, e, True) (as_work s' i) s'"
    proof (cases "worker s' = worker s")
      case True
      then show ?thesis
        using client_step_item [OF 1 assms(2)] worker_inv_cong [OF _ _ _ _ _ w] by simp
    next
      case False
      then show ?thesis using client_step_item [OF 1 assms(2)] w by (simp add: worker_inv_def)
    qed
    then show ?thesis using client_step_inv [OF 1, of r e] assms(2) by (simp add: life_inv_def)
  next
    case 2
    then show ?thesis by (rule worker_step_inv [OF _ assms(2) refl])
  next
    case 3
    then show ?thesis by (rule notify_step_inv [OF _ assms(2)])
  qed
qed

lemma life_reach_inv:
  "life_reach False name NOTIFY_AFTER_TIMEOUT (r, e, True) i s \<Longrightarrow> life_inv name (r, e, True) i s"
  by (induction rule: life_reach.induct) (auto intro: life_start_inv life_step_inv)

end
