(* ===== verification/Async_Props.thy ===== *)
theory Async_Props
  imports Async_Inv
begin

text \<open>
  The properties of the protocol by which D-Bus clients get the results of their work.
\<close>

section \<open>What the client is told\<close>


section \<open>Nobody waits forever\<close>

fun client_rank :: "'r client_pc \<Rightarrow> nat" where
  "client_rank C_New = 20"
| "client_rank C_Picked = 19"
| "client_rank (C_Eat f) = (if f then 9 else 18)"
| "client_rank (C_Found f) = (if f then 8 else 17)"
| "client_rank (C_Waiting f) = (if f then 7 else 16)"
| "client_rank (C_Timed_out f) = (if f then 6 else 15)"
| "client_rank (C_Fast f) = (if f then 5 else 14)"
| "client_rank (C_Result f r) = (if f then 5 else 14)"
| "client_rank C_Idle = 10"
| "client_rank C_Done = 0"

definition worker_rank :: "worker_pc \<Rightarrow> nat" where
  "worker_rank p =
     (case p of W_None \<Rightarrow> 6 | W_Queued \<Rightarrow> 5 | W_Picked \<Rightarrow> 4 | W_Running \<Rightarrow> 3 | W_Promised \<Rightarrow> 2
      | W_Finishing \<Rightarrow> 1 | W_Done \<Rightarrow> 0)"

definition notifier_rank :: "notifier_pc \<Rightarrow> nat" where
  "notifier_rank p =
     (case p of N_Idle \<Rightarrow> 4 | N_Call b \<Rightarrow> 3 | N_Take ok e \<Rightarrow> 2 | N_Sync ok e \<Rightarrow> 1 | N_End \<Rightarrow> 0)"

definition life_measure :: "'r life \<Rightarrow> nat" where
  "life_measure s = client_rank (client s) + worker_rank (worker s) + notifier_rank (notifier s)"

definition finished :: "'r life \<Rightarrow> bool" where
  "finished s \<longleftrightarrow> worker s = W_Done \<and> notifier s = N_End \<and> (client s = C_Done \<or> client s = C_Idle)"

lemma client_step_decreases:
  assumes "client_step name NOTIFY_AFTER_TIMEOUT i s s'" "life_inv name (r, e, True) i s"
  shows "life_measure s' < life_measure s"
proof -
  have "worker_rank (worker s') \<le> worker_rank (worker s)" "notifier s' = notifier s"
    using client_step_item [OF assms] by (auto simp: worker_rank_def)
  moreover have "client_rank (client s') < client_rank (client s)"
    using assms(1)
  proof (cases rule: client_step.cases)
    case (late_fetch s1)
    then show ?thesis using assms(2) by (simp add: life_inv_def client_inv_def)
  qed simp_all
  ultimately show ?thesis by (simp add: life_measure_def)
qed

lemma worker_step_decreases:
  assumes "worker_step out i s s'" "life_inv name out i s"
  shows "life_measure s' < life_measure s"
  using assms(1)
proof (cases rule: worker_step.cases)
  case (run_last r e ok w call)
  then have "notifier s = N_Idle" using assms(2) by (simp add: life_inv_def worker_inv_def)
  then show ?thesis using run_last
    by (simp add: life_measure_def worker_rank_def notifier_rank_def call_pc_def split: option.split)
qed (simp_all add: life_measure_def worker_rank_def)

lemma done_continue_client [simp]:
  fixes s :: "'r life"
  shows "client (done_continue c m i ok e p s) = client s" "worker (done_continue c m i ok e p s) = worker s"
  by (simp_all add: done_continue_def announce_done_def bug_at_def Let_def
      split: take_path_result.split notification_mode.split)

lemma done_take_path_client:
  fixes s :: "'r life"
  assumes "done_take_path f c m i ok e s = Some s'"
  shows "client s' = client s" "worker s' = worker s"
  using assms by (auto simp: done_take_path_def bind_eq_Some_conv)

lemma notify_step_decreases:
  assumes "notify_step m i s s'"
  shows "life_measure s' < life_measure s"
  using assms
proof (cases rule: notify_step.cases)
  case (unknown b s1)
  then show ?thesis by (auto simp: life_measure_def notifier_rank_def done_lookup_def split: option.splits)
next
  case (known b ok e s1)
  then show ?thesis
    by (auto simp: life_measure_def notifier_rank_def done_lookup_def split: option.splits if_splits)
next
  case (take_path ok e s1)
  then show ?thesis using done_take_path_client [OF take_path(3)] by (simp add: life_measure_def notifier_rank_def)
next
  case (must_wait ok e)
  then show ?thesis by (simp add: life_measure_def notifier_rank_def)
next
  case (synchronized ok e s1)
  then show ?thesis using done_take_path_client [OF synchronized(3)] by (simp add: life_measure_def notifier_rank_def)
qed

lemma notifier_moves:
  assumes "jar_work s (cookie s) \<in> {None, Some i}" "\<not> work_free s" "jar_free s"
  shows "\<exists>s'. notify_step m i s s'"
proof (cases "notifier s")
  case (N_Call b)
  show ?thesis
  proof (cases "jar_work s (cookie s)")
    case None
    then have "done_lookup (cookie s) b s = (None, s)" by (simp add: done_lookup_def)
    from notify_step.unknown [OF N_Call assms(3) this] show ?thesis ..
  next
    case (Some j)
    then obtain ok e s1 where "done_lookup (cookie s) b s = (Some (i, ok, e), s1)"
      using assms(1) by (simp add: done_lookup_def)
    from notify_step.known [OF N_Call assms(3) this] show ?thesis ..
  qed
next
  case (N_Take ok e)
  show ?thesis
  proof (cases "done_take_path try_take_fast_path (cookie s) m i ok e s")
    case None
    from notify_step.must_wait [OF N_Take None] show ?thesis ..
  next
    case (Some s1)
    from notify_step.take_path [OF N_Take Some] show ?thesis ..
  qed
qed (use assms(2) in \<open>simp_all add: work_free_def\<close>)

lemma worker_moves:
  assumes "worker_inv out (as_work s i) s" "worker s \<notin> {W_None, W_Done}"
  shows "\<exists>s'. worker_step out i s s'"
proof -
  obtain r e ok where out: "out = (r, e, ok)" by (cases out)
  have free: "work_free s"
    using assms by (auto simp: worker_inv_def work_free_def split: worker_pc.splits)
  show ?thesis
  proof (cases "worker s")
    case W_Queued
    then have "w_state (as_work s i) = RUNNABLE" using assms(1) by (simp add: worker_inv_def)
    from worker_step.take_item [OF W_Queued this] show ?thesis ..
  next
    case W_Picked
    obtain goes w where "run_begin (as_work s i) = (goes, w)" by (cases "run_begin (as_work s i)")
    from worker_step.run_first [OF W_Picked free this] show ?thesis ..
  next
    case W_Running
    from worker_step.promise [OF W_Running out] show ?thesis ..
  next
    case W_Promised
    from worker_step.error_code [OF W_Promised out] show ?thesis ..
  next
    case W_Finishing
    obtain w call where "run_end ok (as_work s i) = (w, call)" by (cases "run_end ok (as_work s i)")
    from worker_step.run_last [OF W_Finishing free out this] show ?thesis ..
  qed (use assms(2) in simp_all)
qed

lemma client_moves:
  assumes "life_inv name (r, e, True) i s" "work_free s" "client s \<noteq> C_Done" "client s \<noteq> C_Idle"
    "\<exists>t. t \<noteq> 0 \<and> jar_work s t = None"
  shows "\<exists>s'. client_step name NOTIFY_AFTER_TIMEOUT i s s'"
proof (cases "client s")
  case C_New
  obtain c s1 where "pick_cookie_for_work i NOTIFY_AFTER_TIMEOUT s = Some (c, s1)"
    using assms(5) picked_cookie_returns by blast
  from client_step.submit [OF C_New this] show ?thesis ..
next
  case C_Picked
  from client_step.queue [OF C_Picked] show ?thesis by blast
next
  case (C_Eat f)
  then have "eat_lookup name (cookie s) s = Inr i"
    using assms(1) by (simp add: life_inv_def item_inv_def eat_lookup_def)
  from client_step.eat_found [OF C_Eat this] show ?thesis ..
next
  case (C_Found f)
  from client_step.wait [OF C_Found assms(2)] show ?thesis ..
next
  case (C_Waiting f)
  show ?thesis
  proof (cases "future_get i s")
    case None
    from client_step.timeout [OF C_Waiting None] show ?thesis ..
  next
    case (Some v)
    from client_step.ready [OF C_Waiting Some] show ?thesis ..
  qed
next
  case (C_Result f v)
  from client_step.eaten [OF C_Result] show ?thesis ..
next
  case (C_Timed_out f)
  then have f: "f = False" using assms(1) by (cases f) (simp_all add: life_inv_def client_inv_def)
  obtain b s1 where b: "try_eat_quickly (cookie s) (Some (\<lambda>c. Fast_path_failure c ERR_BUSY)) i s = (b, s1)"
    by fastforce
  then show ?thesis
    using client_step.late [OF C_Timed_out [unfolded f] assms(2), of i s1]
      client_step.quick [OF C_Timed_out [unfolded f] assms(2), of i s1]
    by (cases b) (simp; blast)+
next
  case (C_Fast f)
  then have "notifier s = N_End" using assms(1) by (cases f; simp add: life_inv_def client_inv_def)
  then have "future_get i s = Some r"
    using assms(1) worker_late [of "(r, e, True)" "as_work s i" s] by (simp add: life_inv_def future_get_def)
  from client_step.fast [OF C_Fast this] show ?thesis ..
qed (use assms in simp_all)

lemma life_progress:
  assumes "life_inv name (r, e, True) i s" "\<exists>t. t \<noteq> 0 \<and> jar_work s t = None" "\<not> finished s"
  shows "\<exists>s'. life_step False name NOTIFY_AFTER_TIMEOUT (r, e, True) i s s'"
proof (cases "work_free s")
  case False
  then have "jar_free s"
    using assms(1) by (auto simp: life_inv_def client_inv_def work_free_def jar_free_def
      split: client_pc.splits bool.splits notifier_pc.splits)
  moreover have "notifier s \<noteq> N_Idle" using False by (auto simp: work_free_def)
  then have "jar_work s (cookie s) \<in> {None, Some i}"
    using assms(1) worker_late [of "(r, e, True)" "as_work s i" s]
    by (auto simp: life_inv_def item_inv_def client_inv_def)
  ultimately show ?thesis using notifier_moves [OF _ False] by (auto simp: life_step_def)
next
  case True
  show ?thesis
  proof (cases "client s \<noteq> C_Done \<and> client s \<noteq> C_Idle")
    case True
    then show ?thesis using client_moves [OF assms(1) \<open>work_free s\<close>] assms(2) by (auto simp: life_step_def)
  next
    case False
    then have "worker s \<noteq> W_None" using assms(1) by (auto simp: life_inv_def item_inv_def)
    show ?thesis
    proof (cases "worker s = W_Done")
      case False
      then show ?thesis using worker_moves [where out = "(r, e, True)" and i = i and s = s] assms(1) \<open>worker s \<noteq> W_None\<close> by (auto simp: life_step_def life_inv_def)
    next
      case W: True
      then obtain ok err where n: "notifier s = N_Sync ok err"
        using \<open>work_free s\<close> assms(1,3) False by (auto simp: life_inv_def worker_inv_def finished_def work_free_def)
      then have "w_path (as_work s i) = WAITING"
        using assms(1) False by (auto simp: life_inv_def client_inv_def not_synchronizing_def)
      then show ?thesis
        using n notify_step.synchronized [of s ok err NOTIFY_AFTER_TIMEOUT i] done_take_path_simps(3)
        by (fastforce simp: life_step_def)
    qed
  qed
qed


end
