(* ===== verification/Async_Hangs.thy ===== *)
theory Async_Hangs
  imports Async_Props
begin

text \<open>
  How threads get to wait forever: a completed item of a purely asynchronous interface, an
  item that is interrupted before its client waits for it, and an item that is canceled
  before it has been begun.
\<close>

section \<open>Canceled and interrupted work\<close>

definition run_state ::
  "'r work \<Rightarrow> bool \<Rightarrow> 'r message list \<Rightarrow> 'r client_pc \<Rightarrow> worker_pc \<Rightarrow> notifier_pc \<Rightarrow> 'r life" where
  "run_state w known msgs c p n =
     \<lparr>as_work = (\<lambda>_. mk_work [])(0 := w), jar_next = 2, jar_work = (if known then [1 \<mapsto> 0] else Map.empty),
      as_signals = msgs, cancel_ops = 0, client = c, worker = p, notifier = n, cookie = 1\<rparr>"

abbreviation run_item :: "string \<Rightarrow> work_state \<Rightarrow> reply_path \<Rightarrow> list_error \<Rightarrow> 'r option \<Rightarrow> 'r work" where
  "run_item name st p e v \<equiv> (mk_work name)\<lparr>w_state := st, w_path := p, w_error := e, w_promise := v,
     w_notify := Some (1, NOTIFY_AFTER_TIMEOUT)\<rparr>"

lemma life_reach_by:
  "life_reach cancels name mode out i s \<Longrightarrow> client_step name mode i s s' \<Longrightarrow> life_reach cancels name mode out i s'"
  "life_reach cancels name mode out i s \<Longrightarrow> worker_step out i s s' \<Longrightarrow> life_reach cancels name mode out i s'"
  "life_reach cancels name mode out i s \<Longrightarrow> notify_step mode i s s' \<Longrightarrow> life_reach cancels name mode out i s'"
  "life_reach True name mode out i s \<Longrightarrow> cancel_step i s s' \<Longrightarrow> life_reach True name mode out i s'"
  by (auto intro: life_reach.step simp: life_step_def)

lemma run_submitted:
  "life_reach cancels name NOTIFY_AFTER_TIMEOUT out 0
     (run_state (run_item name RUNNABLE PATH_NONE ERR_OK None) True [] C_Picked W_None N_Idle)"
proof -
  let ?s = "(run_state (mk_work name) False [] C_New W_None N_Idle)\<lparr>jar_next := 1, cookie := 0\<rparr>"
  have "life_reach cancels name NOTIFY_AFTER_TIMEOUT out 0 ?s"
    by (rule life_reach.start) (simp add: life_start_def run_state_def)
  moreover have "pick_cookie_for_work 0 NOTIFY_AFTER_TIMEOUT ?s =
     Some (1, (run_state (run_item name RUNNABLE PATH_NONE ERR_OK None) True [] C_New W_None N_Idle)\<lparr>cookie := 0\<rparr>)"
    by (simp add: pick_cookie_for_work_def run_state_def bake_cookie_found put_work_def
        set_done_notification_function_def mk_work_def)
  ultimately show ?thesis
    using client_step.submit [of ?s 0 NOTIFY_AFTER_TIMEOUT]
    by (fastforce simp: life_step_def run_state_def intro: life_reach.step)
qed

lemma run_queued:
  "life_reach cancels name NOTIFY_AFTER_TIMEOUT out 0
     (run_state (run_item name RUNNABLE SCHEDULED ERR_OK None) True [] (C_Eat False) W_Queued N_Idle)"
  by (rule life_reach_by(1) [OF run_submitted])
    (auto simp: client_step.simps run_state_def put_work_def path_ops mk_work_def)

lemma run_taken:
  "life_reach cancels name NOTIFY_AFTER_TIMEOUT out 0
     (run_state (run_item name RUNNABLE SCHEDULED ERR_OK None) True [] (C_Eat False) W_Picked N_Idle)"
  by (rule life_reach_by(2) [OF run_queued]) (auto simp: worker_step.simps run_state_def mk_work_def)

lemma run_begun:
  "life_reach cancels name NOTIFY_AFTER_TIMEOUT out 0
     (run_state (run_item name RUNNING SCHEDULED ERR_OK None) True [] (C_Eat False) W_Running N_Idle)"
  by (rule life_reach_by(2) [OF run_taken])
    (auto simp: worker_step.simps run_state_def mk_work_def work_free_def run_begin_def set_work_state_def
      complain_def bad_transitions_def put_work_def)

lemma run_finished:
  "life_reach cancels name NOTIFY_AFTER_TIMEOUT (r, e, ok) 0
     (run_state (run_item name RUNNING SCHEDULED (outcome_error (r, e, ok)) (Some r)) True [] (C_Eat False) W_Finishing N_Idle)"
proof -
  have "life_reach cancels name NOTIFY_AFTER_TIMEOUT (r, e, ok) 0
     (run_state (run_item name RUNNING SCHEDULED ERR_OK (Some r)) True [] (C_Eat False) W_Promised N_Idle)"
    by (rule life_reach_by(2) [OF run_begun])
      (auto simp: worker_step.simps run_state_def mk_work_def put_work_def set_promise_def)
  then show ?thesis
    by (rule life_reach_by(2))
      (auto simp: worker_step.simps run_state_def mk_work_def put_work_def put_outcome_error_def
        put_error_def outcome_error_def split: option.split)
qed

lemma run_interrupted:
  "life_reach cancels name NOTIFY_AFTER_TIMEOUT (r, e, False) 0
     (run_state (run_item name CANCELED SCHEDULED (outcome_error (r, e, False)) (Some r)) False []
        (C_Eat False) W_Done (N_Sync False ERR_INTERRUPTED))"
proof -
  let ?w = "run_item name CANCELED SCHEDULED (outcome_error (r, e, False)) (Some r)"
  have "life_reach cancels name NOTIFY_AFTER_TIMEOUT (r, e, False) 0
     (run_state ?w True [] (C_Eat False) W_Done (N_Call False))"
    by (rule life_reach_by(2) [OF run_finished])
      (auto simp: worker_step.simps run_state_def mk_work_def put_work_def work_free_def run_end_def
        set_work_state_def complain_def bad_transitions_def call_pc_def)
  then have "life_reach cancels name NOTIFY_AFTER_TIMEOUT (r, e, False) 0
     (run_state ?w False [] (C_Eat False) W_Done (N_Take False ERR_INTERRUPTED))"
    by (rule life_reach_by(3))
      (auto simp: notify_step.simps run_state_def mk_work_def jar_free_def done_lookup_def jar_erase_def
        work_success_def)
  then show ?thesis
    by (rule life_reach_by(3))
      (auto simp: notify_step.simps run_state_def mk_work_def done_take_path_simps)
qed

text \<open>C36: An item whose work is interrupted before its client has begun to wait for it leaves
  its queue blocked: the client finds its cookie gone and gets an internal error, and the
  worker waits forever for it to wait. This happens without anybody canceling the item.
\<close>

theorem interrupted_item_blocks_worker:
  "\<exists>s. life_reach False name NOTIFY_AFTER_TIMEOUT (r, Some ERR_INTERRUPTED, False) 0 s \<and>
     as_signals s = [Dbus_error ''Internal error''] \<and> notifier s = N_Sync False ERR_INTERRUPTED \<and>
     (\<nexists>s'. life_step False name NOTIFY_AFTER_TIMEOUT (r, Some ERR_INTERRUPTED, False) 0 s s')"
proof -
  let ?s = "run_state (run_item name CANCELED SCHEDULED ERR_INTERRUPTED (Some r)) False
    [Dbus_error ''Internal error''] C_Done W_Done (N_Sync False ERR_INTERRUPTED)"
  have "life_reach False name NOTIFY_AFTER_TIMEOUT (r, Some ERR_INTERRUPTED, False) 0 ?s"
    by (rule life_reach_by(1) [OF run_interrupted])
      (auto simp: client_step.simps run_state_def mk_work_def eat_lookup_def send_def outcome_error_def)
  moreover have "\<not> life_step False name NOTIFY_AFTER_TIMEOUT (r, Some ERR_INTERRUPTED, False) 0 ?s s'" for s'
    by (simp add: life_step_def client_step.simps worker_step.simps notify_step.simps run_state_def
        done_take_path_simps mk_work_def)
  ultimately show ?thesis by (fastforce simp: run_state_def)
qed

text \<open>
  An item that is canceled before its work has begun, while its client waits for the
  result, makes the client wait forever, with the cookie jar locked.
\<close>

lemma canceled_item_blocks_jar:
  "\<exists>s. life_reach True name NOTIFY_AFTER_TIMEOUT out 0 s \<and>
     client s = C_Fast False \<and> \<not> jar_free s \<and> w_state (as_work s 0) = CANCELED \<and> as_signals s = [] \<and>
     (\<forall>s'. life_step True name NOTIFY_AFTER_TIMEOUT out 0 s s' \<longrightarrow> client s' = C_Fast False \<and> as_work s' = as_work s)"
proof -
  let ?w = "\<lambda>st p. run_item name st p ERR_OK None"
  have "life_reach True name NOTIFY_AFTER_TIMEOUT out 0 (run_state (?w RUNNABLE SCHEDULED) True [] (C_Found False) W_Queued N_Idle)"
    by (rule life_reach_by(1) [OF run_queued])
      (auto simp: client_step.simps run_state_def mk_work_def eat_lookup_def)
  then have "life_reach True name NOTIFY_AFTER_TIMEOUT out 0 (run_state (?w RUNNABLE WAITING) True [] (C_Waiting False) W_Queued N_Idle)"
    by (rule life_reach_by(1))
      (auto simp: client_step.simps run_state_def mk_work_def work_free_def wait_begin_def put_work_def path_ops)
  then have "life_reach True name NOTIFY_AFTER_TIMEOUT out 0 (run_state (?w CANCELED WAITING) True [] (C_Waiting False) W_Queued (N_Call False))"
    by (rule life_reach_by(4))
      (auto simp: cancel_step.simps run_state_def mk_work_def work_free_def put_work_def cancel_work_def
        set_work_state_def complain_def bad_transitions_def call_pc_def)
  then have "life_reach True name NOTIFY_AFTER_TIMEOUT out 0 (run_state (?w CANCELED WAITING) False [] (C_Waiting False) W_Queued (N_Take False ERR_INTERRUPTED))"
    by (rule life_reach_by(3))
      (auto simp: notify_step.simps run_state_def mk_work_def jar_free_def done_lookup_def jar_erase_def work_success_def)
  then have "life_reach True name NOTIFY_AFTER_TIMEOUT out 0 (run_state (?w CANCELED FAST_PATH) False [] (C_Waiting False) W_Queued N_End)"
    by (rule life_reach_by(3))
      (auto simp: notify_step.simps run_state_def mk_work_def done_take_path_simps put_work_def)
  then have "life_reach True name NOTIFY_AFTER_TIMEOUT out 0 (run_state (?w CANCELED FAST_PATH) False [] (C_Timed_out False) W_Queued N_End)"
    by (rule life_reach_by(1))
      (auto simp: client_step.simps run_state_def mk_work_def future_get_def)
  then have "life_reach True name NOTIFY_AFTER_TIMEOUT out 0 (run_state (?w CANCELED FAST_PATH) False [] (C_Fast False) W_Queued N_End)"
    by (rule life_reach_by(1))
      (auto simp: client_step.simps run_state_def mk_work_def work_free_def try_eat_quickly_cases put_work_def)
  then have r: "life_reach True name NOTIFY_AFTER_TIMEOUT out 0 (run_state (?w CANCELED FAST_PATH) False [] (C_Fast False) W_Done N_End)"
    by (rule life_reach_by(2))
      (auto simp: worker_step.simps run_state_def mk_work_def)
  let ?s = "run_state (?w CANCELED FAST_PATH) False [] (C_Fast False) W_Done N_End"
  have "client s' = C_Fast False \<and> as_work s' = as_work ?s"
    if "life_step True name NOTIFY_AFTER_TIMEOUT out 0 ?s s'" for s'
    using that
    by (auto simp: life_step_def client_step.simps worker_step.simps notify_step.simps cancel_step.simps run_state_def
        mk_work_def future_get_def cancel_work_def)
  then show ?thesis using r by (fastforce simp: run_state_def jar_free_def mk_work_def)
qed



section \<open>Purely asynchronous interfaces\<close>

text \<open>
  \<^verbatim>\<open>realize_location()\<close> does not wait for its work, so nobody sets the state to \<open>WAITING\<close>
  until the client fetches the result.
\<close>

definition realize_inv :: "'r outcome \<Rightarrow> nat \<Rightarrow> 'r life \<Rightarrow> bool" where
  "realize_inv out i s \<longleftrightarrow>
     worker_inv out (as_work s i) s \<and>
     (if client s = C_Idle then
        worker s \<noteq> W_None \<and> w_path (as_work s i) = SCHEDULED \<and> notifier s \<noteq> N_End \<and>
        w_notify (as_work s i) = Some (cookie s, NOTIFY_ALWAYS) \<and> jar_work s (cookie s) = Some i \<and>
        as_signals s = [Fast_path_failure (cookie s) ERR_BUSY]
      else
        client s \<in> {C_New, C_Picked} \<and> worker s = W_None \<and> w_path (as_work s i) = PATH_NONE \<and> as_signals s = [] \<and>
        (client s = C_Picked \<longrightarrow>
           w_notify (as_work s i) = Some (cookie s, NOTIFY_ALWAYS) \<and> jar_work s (cookie s) = Some i))"

lemma realize_client_step:
  assumes "client_step name NOTIFY_ALWAYS i s s'" "realize_inv out i s"
  shows "realize_inv out i s'"
  using assms(1)
proof (cases rule: client_step.cases)
  case (submit c s1)
  then show ?thesis using assms(2) pick_cookie_cases [OF submit(3)] pick_cookie_life [OF submit(3)]
    by (auto simp: realize_inv_def worker_inv_def)
next
  case queue_async
  then show ?thesis using assms(2) by (auto simp: realize_inv_def worker_inv_def path_ops)
qed (use assms(2) in \<open>auto simp: realize_inv_def split: if_splits\<close>)

lemma realize_worker_step:
  assumes "worker_step out i s s'" "realize_inv out i s" "out = (r0, e0, True)"
  shows "realize_inv out i s'"
  using assms(1)
proof (cases rule: worker_step.cases)
  case take_item
  then show ?thesis using assms(2) by (auto simp: realize_inv_def worker_inv_def split: if_splits)
next
  case skip_item
  then show ?thesis using assms(2) by (auto simp: realize_inv_def worker_inv_def)
next
  case (run_first goes w)
  then show ?thesis using assms(2)
    by (auto simp: realize_inv_def worker_inv_def run_begin_def set_work_state_def complain_def bad_transitions_def
        split: if_splits)
next
  case (promise r e ok)
  then show ?thesis using assms(2) by (auto simp: realize_inv_def worker_inv_def set_promise_def split: if_splits)
next
  case (error_code r e ok)
  then show ?thesis using assms(2)
    by (auto simp: realize_inv_def worker_inv_def put_outcome_error_def put_error_def outcome_error_def
        split: if_splits option.split)
next
  case (run_last r e ok w call)
  then show ?thesis using assms(2,3)
    by (auto simp: realize_inv_def worker_inv_def run_end_def set_work_state_def complain_def bad_transitions_def
        call_pc_def split: if_splits)
qed

lemma realize_notify_step:
  assumes "notify_step NOTIFY_ALWAYS i s s'" "realize_inv out i s"
  shows "realize_inv out i s' \<and> (\<forall>ok e. notifier s \<noteq> N_Sync ok e)"
proof -
  from assms(1) have "notifier s \<noteq> N_Idle" by (auto elim: notify_step.cases)
  then have d: "worker s = W_Done" "w_path (as_work s i) = SCHEDULED" "jar_work s (cookie s) = Some i" "client s = C_Idle"
    using assms(2) worker_late [of out "as_work s i" s] by (auto simp: realize_inv_def split: if_splits)
  from assms(1) show ?thesis
  proof (cases rule: notify_step.cases)
    case (known b ok e s1)
    then show ?thesis using assms(2) d
      by (auto simp: realize_inv_def worker_inv_def done_lookup_def work_success_def get_error_code_def)
  next
    case (must_wait ok e)
    then show ?thesis using assms(2) d by (auto simp: realize_inv_def worker_inv_def)
  qed (use d in \<open>simp_all add: done_lookup_def done_take_path_simps\<close>)
qed

lemma realize_reach_inv:
  "life_reach False name NOTIFY_ALWAYS (r, e, True) i s \<Longrightarrow> realize_inv (r, e, True) i s"
proof (induction rule: life_reach.induct)
  case (start s)
  then show ?case by (simp add: life_start_def realize_inv_def worker_inv_def mk_work_def)
next
  case (step s s')
  then consider "client_step name NOTIFY_ALWAYS i s s'" | "worker_step (r, e, True) i s s'" | "notify_step NOTIFY_ALWAYS i s s'"
    by (auto simp: life_step_def)
  then show ?case
    using realize_client_step [OF _ step.IH] realize_worker_step [OF _ step.IH refl] realize_notify_step [OF _ step.IH]
    by cases blast+
qed



section \<open>States only move forward\<close>

inductive work_edge :: "work_state \<Rightarrow> work_state \<Rightarrow> bool" where
  "work_edge RUNNABLE RUNNING"
| "work_edge RUNNABLE CANCELED"
| "work_edge RUNNING DONE"
| "work_edge RUNNING CANCELED"
| "work_edge RUNNING CANCELING"
| "work_edge CANCELING CANCELED"

code_pred work_edge .

definition moves_on :: "'r work \<Rightarrow> 'r work \<Rightarrow> bool" where
  "moves_on w w' \<longleftrightarrow> path_edge\<^sup>*\<^sup>* (w_path w) (w_path w') \<and> (w_state w' = w_state w \<or> work_edge (w_state w) (w_state w'))"

lemma moves_on_refl [simp]: "moves_on w w"
  by (simp add: moves_on_def)

lemma moves_on_path:
  assumes "w_state w' = w_state w" "w_path w' = w_path w \<or> path_edge (w_path w) (w_path w')"
  shows "moves_on w w'"
  using assms by (auto simp: moves_on_def intro: r_into_rtranclp)

lemma moves_on_trans_path: "moves_on w w1 \<Longrightarrow> moves_on w1 w' \<Longrightarrow> w_state w' = w_state w1 \<Longrightarrow> moves_on w w'"
  by (auto simp: moves_on_def)

lemma with_tracker_moves:
  "moves_on w (snd (with_reply_path_tracker try_take_slow_path w))"
  "moves_on w (snd (with_reply_path_tracker slow_path_cookie_sent_to_client w))"
  "moves_on w (snd (with_reply_path_tracker slow_path_ready_notified_client w))"
  "moves_on w (snd (with_reply_path_tracker set_scheduled_for_execution w))"
  "moves_on w (snd (with_reply_path_tracker set_waiting_for_result w))"
  by (auto simp: moves_on_def path_ops path_edge.simps split: reply_path.splits if_splits)

lemma run_end_moves: "moves_on w (fst (run_end ok w))" if "\<not> w_state w = RUNNABLE"
  using that by (auto simp: moves_on_def run_end_def set_work_state_def complain_def work_edge.simps split: work_state.split)

lemma cancel_work_moves: "moves_on w (fst (snd (cancel_work w)))"
  by (auto simp: moves_on_def work_defs work_edge.simps split: work_state.split)

lemma run_begin_moves: "moves_on w (snd (run_begin w))"
  by (auto simp: moves_on_def work_defs work_edge.simps)

lemma done_continue_moves:
  "moves_on (as_work s i) (as_work (done_continue c m i ok e p s) i)"
  using with_tracker_moves(3)
  by (auto simp: done_continue_def announce_done_def bug_at_def Let_def moves_on_path
      split: take_path_result.split notification_mode.split)

lemma done_take_path_moves:
  assumes "done_take_path f c m i ok e s = Some s'" "f \<in> {try_take_fast_path, take_fast_path_synchronized}"
  shows "moves_on (as_work s i) (as_work s' i)"
proof -
  obtain p w where w: "with_waiting_tracker f (as_work s i) = Some (p, w)"
    and s': "s' = done_continue c m i ok e p (put_work i w s)"
    using assms(1) by (auto simp: done_take_path_def bind_eq_Some_conv)
  have "moves_on (as_work s i) w"
    using w assms(2) tracker_ops_follow_edges(1,2)
    by (intro moves_on_path) (fastforce simp: with_waiting_tracker_def complain_def)+
  then show ?thesis
    using moves_on_trans_path [OF _ done_continue_moves [of "put_work i w s" i c m ok e p]] by (simp add: s')
qed

lemma try_eat_quickly_path:
  assumes "try_eat_quickly c cb i s = (b, s')"
  shows "w_path (as_work s' i) =
    (if w_path (as_work s i) \<in> {SCHEDULED, WAITING, SLOW_PATH_ENTERED} then SLOW_PATH_COOKIE_SENT
     else w_path (as_work s i))"
  using assms
  by (cases "w_path (as_work s i)"; cases cb)
    (auto simp: try_eat_quickly_def path_ops bug_at_def Let_def split: if_splits)

lemma try_eat_quickly_moves:
  assumes "try_eat_quickly c cb i s = (b, s')"
  shows "moves_on (as_work s i) (as_work s' i)"
proof -
  have "path_edge\<^sup>*\<^sup>* p SLOW_PATH_COOKIE_SENT" if "p \<in> {SCHEDULED, WAITING, SLOW_PATH_ENTERED}" for p
    using that announce slow slow_early by (blast intro: rtranclp.intros converse_rtranclp_into_rtranclp)
  then show ?thesis
    using try_eat_quickly_path [OF assms] try_eat_quickly_item [OF assms] by (simp add: moves_on_def)
qed

lemma client_step_moves:
  assumes "client_step name mode i s s'"
  shows "moves_on (as_work s i) (as_work s' i)"
  using assms
proof (cases rule: client_step.cases)
  case (submit c s1)
  then show ?thesis using pick_cookie_cases [OF submit(3)] by (simp add: moves_on_def)
next
  case (late s1)
  then show ?thesis using try_eat_quickly_moves [OF late(4)] by simp
next
  case (late_fetch s1)
  then show ?thesis using try_eat_quickly_moves [OF late_fetch(4)] by simp
next
  case (quick f s1)
  then show ?thesis using try_eat_quickly_moves [OF quick(4)] by simp
qed (simp_all add: with_tracker_moves wait_begin_def)

text \<open>C34: Whatever the threads do, and whether or not the item is canceled, the reply path and the
  state of a work item go through their states in the specified order only, and a final work
  state is never left.
\<close>

theorem work_states_move_on:
  assumes "life_step cancels name mode out i s s'"
    "worker s = W_Finishing \<Longrightarrow> w_state (as_work s i) \<noteq> RUNNABLE"
  shows "path_edge\<^sup>*\<^sup>* (w_path (as_work s i)) (w_path (as_work s' i)) \<and>
    (w_state (as_work s' i) = w_state (as_work s i) \<or> work_edge (w_state (as_work s i)) (w_state (as_work s' i))) \<and>
    (is_final (w_state (as_work s i)) \<longrightarrow> w_state (as_work s' i) = w_state (as_work s i))"
proof -
  have "moves_on (as_work s i) (as_work s' i)"
  proof -
    consider "client_step name mode i s s'" | "worker_step out i s s'" | "notify_step mode i s s'" | "cancel_step i s s'"
      using assms(1) by (auto simp: life_step_def)
    then show ?thesis
    proof cases
      case 1
      then show ?thesis by (rule client_step_moves)
    next
      case 2
      then show ?thesis
      proof (cases rule: worker_step.cases)
        case (run_first goes w)
        then show ?thesis using run_begin_moves [of "as_work s i"] by simp
      next
        case (run_last r e ok w call)
        then show ?thesis using run_end_moves [of "as_work s i" ok] assms(2) by simp
      qed (auto simp: moves_on_def set_promise_def put_outcome_error_def put_error_def split: option.split)
    next
      case 3
      then show ?thesis
        by (cases rule: notify_step.cases)
          (auto simp: done_lookup_def dest: done_take_path_moves split: option.splits if_splits)
    next
      case 4
      then show ?thesis using cancel_work_moves [of "as_work s i"] by (auto elim!: cancel_step.cases)
    qed
  qed
  then show ?thesis by (auto simp: moves_on_def is_final_def work_edge.simps)
qed

lemma work_states_move_on_witness:
  "\<exists>s'. life_step True ''GetRange'' NOTIFY_AFTER_TIMEOUT (5 :: nat, None, True) 0
      (run_state (run_item ''GetRange'' RUNNABLE SCHEDULED ERR_OK None) True [] (C_Eat False) W_Picked N_Idle) s' \<and>
    work_edge RUNNABLE (w_state (as_work s' 0))"
proof -
  let ?s = "run_state (run_item ''GetRange'' RUNNABLE SCHEDULED ERR_OK None) True [] (C_Eat False) W_Picked N_Idle :: nat life"
  let ?s' = "run_state (run_item ''GetRange'' RUNNING SCHEDULED ERR_OK None) True [] (C_Eat False) W_Running N_Idle"
  have "worker_step (5, None, True) 0 ?s ?s'"
    by (auto simp: worker_step.simps run_state_def mk_work_def work_free_def run_begin_def set_work_state_def
      complain_def bad_transitions_def put_work_def)
  then have st: "life_step True ''GetRange'' NOTIFY_AFTER_TIMEOUT (5, None, True) 0 ?s ?s'" by (simp add: life_step_def)
  show ?thesis
    using work_states_move_on [OF st] st by (auto simp: run_state_def mk_work_def)
qed

end
