(* ===== verification/Nav_Handlers.thy ===== *)
theory Nav_Handlers
  imports Work_Queue Id_Types Url_String
begin

text \<open>
  The handlers of the D-Bus interface \<^verbatim>\<open>de.tahifi.Lists.Navigation\<close>
  (\<^verbatim>\<open>dbus_lists_handlers.cc\<close>) over the interface of list trees (\<^verbatim>\<open>listtree.hh\<close>). A list
  tree is a record of its virtual functions over a state \<open>'s\<close>. A handler checks its
  arguments and tells what happens next: a reply, work that is put into one of the queues of
  the list tree, or a result that is fetched by its cookie. What D-Bus marshals is kept
  as HOL data.
\<close>

section \<open>List trees\<close>

record i18n =
  i18n_text :: string
  is_subject_to_translation :: bool

definition untranslated :: i18n where
  "untranslated = \<lparr>i18n_text = [], is_subject_to_translation = False\<rparr>"

type_synonym item_id = u32
type_synonym kind_code = "8 word"

text \<open>The key of a list item: a hash that may not have been set.\<close>

record list_item_key =
  item_key :: "8 word list"
  key_is_valid :: bool

definition hash_to_variant :: "list_item_key \<Rightarrow> 8 word list" where
  "hash_to_variant k = (if key_is_valid k then item_key k else [])"

record ranked_stream_links =
  rank :: u32
  bitrate_bits_per_second :: u32
  stream_link :: url_string

record realize_url_result =
  rz_list_id :: list_id
  rz_item_id :: item_id
  rz_ref_list_id :: list_id
  rz_ref_item_id :: item_id
  rz_distance :: nat
  rz_trace_length :: nat
  rz_list_title :: i18n

definition mk_realize_url_result :: realize_url_result where
  "mk_realize_url_result =
     \<lparr>rz_list_id = 0, rz_item_id = - 1, rz_ref_list_id = 0, rz_ref_item_id = 0, rz_distance = 0,
      rz_trace_length = 0, rz_list_title = untranslated\<rparr>"

record generic_item =
  gi_name :: string
  gi_kind :: kind_code

record detailed_item =
  di_artist :: string
  di_album :: string
  di_title :: string
  di_primary_string_index :: "8 word"
  di_kind :: kind_code

text \<open>
  The virtual functions of \<^verbatim>\<open>ListTreeIface\<close>. Out parameters are results; \<open>get_parent_link\<close>
  gets the value its out parameter has before the call.
\<close>

record 's list_tree =
  for_each_context :: "(string \<times> string \<times> bool) list"
  tree_use_list :: "list_id \<Rightarrow> bool \<Rightarrow> 's \<Rightarrow> bool \<times> 's"
  tree_force_list_into_cache :: "list_id \<Rightarrow> bool \<Rightarrow> 's \<Rightarrow> int \<times> 's"
  get_root_list_id :: "'s \<Rightarrow> list_id"
  get_root_list_title :: "'s \<Rightarrow> i18n"
  get_child_list_title :: "list_id \<Rightarrow> item_id \<Rightarrow> 's \<Rightarrow> i18n"
  enter_child :: "list_id \<Rightarrow> item_id \<Rightarrow> 's \<Rightarrow> (list_id \<times> list_error) \<times> 's"
  enter_child_with_parameters :: "list_id \<Rightarrow> item_id \<Rightarrow> string \<Rightarrow> 's \<Rightarrow> (list_id \<times> list_error) \<times> 's"
  for_each :: "list_id \<Rightarrow> item_id \<Rightarrow> nat \<Rightarrow> 's \<Rightarrow> (generic_item list \<times> list_error) \<times> 's"
  for_each_detailed :: "list_id \<Rightarrow> item_id \<Rightarrow> nat \<Rightarrow> 's \<Rightarrow> (detailed_item list \<times> list_error) \<times> 's"
  tree_size :: "list_id \<Rightarrow> 's \<Rightarrow> int"
  get_parent_link :: "list_id \<Rightarrow> item_id \<Rightarrow> 's \<Rightarrow> list_id \<times> item_id"
  get_link_to_context_root_impl :: "string \<Rightarrow> 's \<Rightarrow> (list_id \<times> item_id \<times> bool \<times> bool) \<times> 's"
  get_uris_for_item :: "list_id \<Rightarrow> item_id \<Rightarrow> 's \<Rightarrow> (url_string list \<times> list_item_key \<times> list_error) \<times> 's"
  get_ranked_links_for_item ::
    "list_id \<Rightarrow> item_id \<Rightarrow> 's \<Rightarrow> (ranked_stream_links list \<times> list_item_key \<times> list_error) \<times> 's"
  can_handle_strbo_url :: "string \<Rightarrow> bool"
  realize_strbo_url :: "string \<Rightarrow> 's \<Rightarrow> (realize_url_result \<times> list_error) \<times> 's"
  get_location_key :: "list_id \<Rightarrow> u32 \<Rightarrow> bool \<Rightarrow> 's \<Rightarrow> string option \<times> list_error"
  get_location_trace :: "list_id \<Rightarrow> u32 \<Rightarrow> list_id \<Rightarrow> u32 \<Rightarrow> 's \<Rightarrow> string option \<times> list_error"
  discard_list_hint :: "list_id \<Rightarrow> 's \<Rightarrow> 's"
  get_gc_expiry_time :: "'s \<Rightarrow> int"

text \<open>The functions the interface itself defines.\<close>

definition unsupported_parameters :: "list_id \<Rightarrow> item_id \<Rightarrow> string \<Rightarrow> 's \<Rightarrow> (list_id \<times> list_error) \<times> 's" where
  "unsupported_parameters l i p s = ((invalid_id, ERR_NOT_SUPPORTED), s)"

definition unsupported_ranked_links ::
  "list_id \<Rightarrow> item_id \<Rightarrow> 's \<Rightarrow> (ranked_stream_links list \<times> list_item_key \<times> list_error) \<times> 's" where
  "unsupported_ranked_links l i s = (([], \<lparr>item_key = [], key_is_valid = False\<rparr>, ERR_NOT_SUPPORTED), s)"

definition get_list_title :: "'s list_tree \<Rightarrow> list_id \<Rightarrow> 's \<Rightarrow> i18n" where
  "get_list_title T l s =
     (if l = get_root_list_id T s then get_root_list_title T s
      else let (p, i) = get_parent_link T l 0 s in get_child_list_title T p i s)"

definition get_link_to_context_root ::
  "'s list_tree \<Rightarrow> string \<Rightarrow> 's \<Rightarrow> (list_id \<times> item_id \<times> bool \<times> bool) \<times> 's" where
  "get_link_to_context_root T context_id s =
     (if context_id = [] then ((invalid_id, 0, False, False), s)
      else get_link_to_context_root_impl T context_id s)"

section \<open>Work\<close>

datatype work_result =
    Range_result list_error item_id "generic_item list"
  | Detailed_result list_error item_id "detailed_item list"
  | List_result list_error list_id i18n
  | Uris_result list_error "url_string list" list_item_key
  | Links_result list_error "(u32 \<times> u32 \<times> string) list" list_item_key
  | Param_list_result list_error list_id i18n
  | Trace_result list_error "string option"
  | Realized list_error realize_url_result

text \<open>
  The \<^verbatim>\<open>do_run()\<close> functions give the outcome of the work item and the new state of the list
  tree; \<open>None\<close> is undefined behaviour.
\<close>

type_synonym 's do_run = "'s \<Rightarrow> (work_result outcome \<times> 's) option"

definition processed :: "work_result \<Rightarrow> list_error \<Rightarrow> work_result outcome" where
  "processed r e = (r, Some e, e \<noteq> ERR_INTERRUPTED)"

definition get_range_do_run :: "'s list_tree \<Rightarrow> list_id \<Rightarrow> item_id \<Rightarrow> nat \<Rightarrow> 's do_run" where
  "get_range_do_run T l first count s =
     (let (_, s1) = tree_use_list T l False s;
          ((items, error), s2) = for_each T l first count s1
      in Some (processed (Range_result error (if error \<noteq> ERR_OK then 0 else first)
                            (if error \<noteq> ERR_OK then [] else items)) error, s2))"

text \<open>On failure, this one passes the type string of a tuple to \<^verbatim>\<open>g_variant_new()\<close>, without its values.\<close>

definition get_range_with_meta_data_do_run :: "'s list_tree \<Rightarrow> list_id \<Rightarrow> item_id \<Rightarrow> nat \<Rightarrow> 's do_run" where
  "get_range_with_meta_data_do_run T l first count s =
     (let (_, s1) = tree_use_list T l False s;
          ((items, error), s2) = for_each_detailed T l first count s1
      in if error \<noteq> ERR_OK then None
         else Some (processed (Detailed_result error first items) error, s2))"

definition get_list_id_do_run :: "ctx_layout \<Rightarrow> 's list_tree \<Rightarrow> list_id \<Rightarrow> item_id \<Rightarrow> 's do_run" where
  "get_list_id_do_run L T l i s =
     (let (used, s1) = tree_use_list T l False s
      in if used then
           let ((child, error), s2) = enter_child T l i s1
           in Some (processed (List_result error child
                      (if id_is_valid L child then get_child_list_title T l i s2 else untranslated)) error, s2)
         else
           let root = get_root_list_id T s1
           in if id_is_valid L root then
                let (_, s2) = tree_use_list T root False s1
                in Some ((List_result ERR_OK root (get_list_title T root s2), None, True), s2)
              else Some ((List_result ERR_OK root untranslated, None, True), s1))"

definition get_param_list_id_do_run ::
  "ctx_layout \<Rightarrow> 's list_tree \<Rightarrow> list_id \<Rightarrow> item_id \<Rightarrow> string \<Rightarrow> 's do_run" where
  "get_param_list_id_do_run L T l i parameter s =
     (let (used, s1) = tree_use_list T l False s
      in if \<not> used then Some ((Param_list_result ERR_INVALID_ID invalid_id untranslated, Some ERR_INVALID_ID, True), s1)
         else
           let ((child, error), s2) = enter_child_with_parameters T l i parameter s1
           in Some (processed (Param_list_result error child
                      (if id_is_valid L child then get_child_list_title T l i s2 else untranslated)) error, s2))"

definition get_uris_do_run :: "'s list_tree \<Rightarrow> list_id \<Rightarrow> item_id \<Rightarrow> 's do_run" where
  "get_uris_do_run T l i s =
     (let ((uris, key, error), s1) = get_uris_for_item T l i s
      in Some (processed (Uris_result error uris key) error, s1))"

definition get_ranked_stream_links_do_run :: "'s list_tree \<Rightarrow> list_id \<Rightarrow> item_id \<Rightarrow> 's do_run" where
  "get_ranked_stream_links_do_run T l i s =
     (let ((links, key, error), s1) = get_ranked_links_for_item T l i s
      in Some (processed (Links_result error
                 (if error \<noteq> ERR_OK then []
                  else map (\<lambda>k. (rank k, bitrate_bits_per_second k, url (stream_link k))) links) key) error, s1))"

definition get_location_trace_do_run ::
  "'s list_tree \<Rightarrow> list_id \<Rightarrow> u32 \<Rightarrow> list_id \<Rightarrow> u32 \<Rightarrow> 's do_run" where
  "get_location_trace_do_run T l i ref_l ref_i s =
     (let (location, error) = get_location_trace T l i ref_l ref_i s
      in Some (processed (Trace_result error location) error, s))"

definition realize_location_do_run :: "'s list_tree \<Rightarrow> string \<Rightarrow> 's do_run" where
  "realize_location_do_run T u s =
     (let ((result, error), s1) = realize_strbo_url T u s
      in Some (processed (Realized error result) error, s1))"

section \<open>Replies\<close>

text \<open>
  The replies to method calls (\<^verbatim>\<open>tdbus_lists_navigation_complete_\<dots>()\<close>). Where a method has
  a \<^verbatim>\<open>ByCookie\<close> variant, the cookie is part of the reply to the method itself and missing
  (\<open>None\<close>) in the one of the variant.
\<close>

datatype dbus_reply =
    Contexts_reply "(string \<times> string) list"
  | Range_reply "u32 option" list_error u32 "generic_item list"
  | Detailed_reply "u32 option" list_error u32 "detailed_item list"
  | Checked_reply list_error u32 u32
  | List_reply "u32 option" list_error u32 string bool
  | Param_list_reply "u32 option" list_error u32 string bool
  | Parent_reply u32 u32 string bool
  | Root_link_reply u32 u32 string bool
  | Uris_reply "u32 option" list_error "string list" "8 word list"
  | Links_reply "u32 option" list_error "(u32 \<times> u32 \<times> string) list" "8 word list"
  | Discarded_reply
  | Kept_alive_reply "64 word" "u32 list"
  | Forced_reply u32
  | Location_key_reply list_error string
  | Trace_reply "u32 option" list_error string
  | Realize_reply u32 list_error
  | Realized_reply list_error realize_url_result
  | Abort_reply
  | Error_reply string

datatype nav_work =
  GetRange | GetRangeWithMetaData | GetListID | GetParamListID | GetURIs | GetRankedStreamLinks
  | GetLocationTrace | RealizeLocation

fun work_name :: "nav_work \<Rightarrow> string" where
  "work_name GetRange = ''GetRange''"
| "work_name GetRangeWithMetaData = ''GetRangeWithMetaData''"
| "work_name GetListID = ''GetListID''"
| "work_name GetParamListID = ''GetParamListID''"
| "work_name GetURIs = ''GetURIs''"
| "work_name GetRankedStreamLinks = ''GetRankedStreamLinks''"
| "work_name GetLocationTrace = ''GetLocationTrace''"
| "work_name RealizeLocation = ''RealizeLocation''"

text \<open>
  Failures: \<^verbatim>\<open>fast_path_failure()\<close> passes a cookie, \<^verbatim>\<open>slow_path_failure()\<close> does not.
  The one of \<^verbatim>\<open>RealizeLocation\<close> ignores the cookie.
\<close>

definition get_range_failure :: "u32 option \<Rightarrow> list_error \<Rightarrow> dbus_reply" where
  "get_range_failure c e = Range_reply c e 0 []"

definition get_range_with_meta_data_failure :: "u32 option \<Rightarrow> list_error \<Rightarrow> dbus_reply" where
  "get_range_with_meta_data_failure c e = Detailed_reply c e 0 []"

definition get_list_id_failure :: "u32 option \<Rightarrow> list_error \<Rightarrow> dbus_reply" where
  "get_list_id_failure c e = List_reply c e 0 [] False"

definition get_param_list_id_failure :: "u32 option \<Rightarrow> list_error \<Rightarrow> dbus_reply" where
  "get_param_list_id_failure c e = Param_list_reply c e 0 [] False"

definition get_uris_failure :: "u32 option \<Rightarrow> list_error \<Rightarrow> dbus_reply" where
  "get_uris_failure c e = Uris_reply c e [] []"

definition get_ranked_stream_links_failure :: "u32 option \<Rightarrow> list_error \<Rightarrow> dbus_reply" where
  "get_ranked_stream_links_failure c e = Links_reply c e [] []"

definition get_location_trace_failure :: "u32 option \<Rightarrow> list_error \<Rightarrow> dbus_reply" where
  "get_location_trace_failure c e = Trace_reply c e []"

definition realize_location_fast_failure :: "u32 \<Rightarrow> list_error \<Rightarrow> dbus_reply" where
  "realize_location_fast_failure c e = Realize_reply 0 e"

definition realize_location_slow_failure :: "list_error \<Rightarrow> dbus_reply" where
  "realize_location_slow_failure e =
     Realized_reply e
       \<lparr>rz_list_id = 0, rz_item_id = 0, rz_ref_list_id = 0, rz_ref_item_id = 0, rz_distance = 0,
        rz_trace_length = 0, rz_list_title = untranslated\<rparr>"

fun fast_path_failure :: "nav_work \<Rightarrow> u32 \<Rightarrow> list_error \<Rightarrow> dbus_reply" where
  "fast_path_failure GetRange t = get_range_failure (Some t)"
| "fast_path_failure GetRangeWithMetaData t = get_range_with_meta_data_failure (Some t)"
| "fast_path_failure GetListID t = get_list_id_failure (Some t)"
| "fast_path_failure GetParamListID t = get_param_list_id_failure (Some t)"
| "fast_path_failure GetURIs t = get_uris_failure (Some t)"
| "fast_path_failure GetRankedStreamLinks t = get_ranked_stream_links_failure (Some t)"
| "fast_path_failure GetLocationTrace t = get_location_trace_failure (Some t)"
| "fast_path_failure RealizeLocation t = realize_location_fast_failure t"

fun slow_path_failure :: "nav_work \<Rightarrow> list_error \<Rightarrow> dbus_reply" where
  "slow_path_failure GetRange = get_range_failure None"
| "slow_path_failure GetRangeWithMetaData = get_range_with_meta_data_failure None"
| "slow_path_failure GetListID = get_list_id_failure None"
| "slow_path_failure GetParamListID = get_param_list_id_failure None"
| "slow_path_failure GetURIs = get_uris_failure None"
| "slow_path_failure GetRankedStreamLinks = get_ranked_stream_links_failure None"
| "slow_path_failure GetLocationTrace = get_location_trace_failure None"
| "slow_path_failure RealizeLocation = realize_location_slow_failure"

definition uri_list_to_c_array :: "url_string list \<Rightarrow> list_error \<Rightarrow> string list" where
  "uri_list_to_c_array uris error = (if error \<noteq> ERR_OK then [] else map url uris)"

definition location_text :: "string option \<Rightarrow> string" where
  "location_text p = (case p of None \<Rightarrow> [] | Some u \<Rightarrow> u)"

text \<open>How the result of a work item is sent, with cookie 0 on the fast path.\<close>

fun complete :: "u32 option \<Rightarrow> work_result \<Rightarrow> dbus_reply" where
  "complete c (Range_result e i items) = Range_reply c e i items"
| "complete c (Detailed_result e i items) = Detailed_reply c e i items"
| "complete c (List_result e l t) = List_reply c e l (i18n_text t) (is_subject_to_translation t)"
| "complete c (Param_list_result e l t) = Param_list_reply c e l (i18n_text t) (is_subject_to_translation t)"
| "complete c (Uris_result e uris k) = Uris_reply c e (uri_list_to_c_array uris e) (hash_to_variant k)"
| "complete c (Links_result e links k) = Links_reply c e links (hash_to_variant k)"
| "complete c (Trace_result e p) = Trace_reply c e (location_text p)"
| "complete c (Realized e r) = Realized_reply e r"

text \<open>What the messages of the cookie jar are on D-Bus; the signals are no replies.\<close>

fun reply_of :: "nav_work \<Rightarrow> (work_result \<Rightarrow> dbus_reply) \<Rightarrow> work_result message \<Rightarrow> dbus_reply option" where
  "reply_of w answer (Fast_path_answer r) = Some (answer r)"
| "reply_of w answer (Slow_path_answer r) = Some (answer r)"
| "reply_of w answer (Fast_path_failure c e) = Some (fast_path_failure w c e)"
| "reply_of w answer (Slow_path_failure e) = Some (slow_path_failure w e)"
| "reply_of w answer (Dbus_error m) = Some (Error_reply m)"
| "reply_of w answer (Data_available c) = None"
| "reply_of w answer (Data_error c e) = None"

section \<open>Method handlers\<close>

datatype nav_queue = Q_get_range | Q_get_list_id | Q_get_uris | Q_realize_location

text \<open>
  A handler replies itself, calls \<open>try_fast_path\<close> with a work item for one of the queues, picks
  a cookie for work that is always announced, or calls \<open>finish_slow_path\<close>, with the function
  that sends the result.
\<close>

datatype 's action =
    Reply dbus_reply
  | Try_fast_path nav_work nav_queue "'s do_run" "work_result \<Rightarrow> dbus_reply"
  | Always_announced nav_work nav_queue "'s do_run"
  | Finish_slow_path nav_work u32 "work_result \<Rightarrow> dbus_reply"

type_synonym 's handler = "'s \<Rightarrow> 's action \<times> 's"

definition handle_get_list_contexts :: "'s list_tree \<Rightarrow> 's handler" where
  "handle_get_list_contexts T s = (Reply (Contexts_reply (map (\<lambda>(c, d, _). (c, d)) (for_each_context T))), s)"

definition handle_get_range :: "'s list_tree \<Rightarrow> list_id \<Rightarrow> u32 \<Rightarrow> u32 \<Rightarrow> 's handler" where
  "handle_get_range T l first count s =
     (let (used, s1) = tree_use_list T l False s
      in if \<not> used then (Reply (get_range_failure (Some 0) ERR_INVALID_ID), s1)
         else (Try_fast_path GetRange Q_get_range (get_range_do_run T l first (unat count)) (complete (Some 0)), s1))"

definition handle_get_range_by_cookie :: "u32 \<Rightarrow> 's handler" where
  "handle_get_range_by_cookie cookie s = (Finish_slow_path GetRange cookie (complete None), s)"

definition handle_get_range_with_meta_data :: "'s list_tree \<Rightarrow> list_id \<Rightarrow> u32 \<Rightarrow> u32 \<Rightarrow> 's handler" where
  "handle_get_range_with_meta_data T l first count s =
     (let (used, s1) = tree_use_list T l False s
      in if \<not> used then (Reply (get_range_with_meta_data_failure (Some 0) ERR_INVALID_ID), s1)
         else (Try_fast_path GetRangeWithMetaData Q_get_range
                 (get_range_with_meta_data_do_run T l first (unat count)) (complete (Some 0)), s1))"

definition handle_get_range_with_meta_data_by_cookie :: "u32 \<Rightarrow> 's handler" where
  "handle_get_range_with_meta_data_by_cookie cookie s = (Finish_slow_path GetRangeWithMetaData cookie (complete None), s)"

text \<open>Numbers of items are \<^verbatim>\<open>ssize_t\<close>; the reply has 32 bits for them.\<close>

definition check_range :: "ctx_layout \<Rightarrow> 's list_tree \<Rightarrow> list_id \<Rightarrow> u32 \<Rightarrow> u32 \<Rightarrow> 's handler" where
  "check_range L T l first count s =
     (let (_, s1) = tree_use_list T l False s;
          n = tree_size T l s1
      in if id_is_valid L l \<and> n \<ge> 0 then
           let n1 = (if n \<ge> uint first then n - uint first else 0);
               n2 = (if count > 0 \<and> n1 > uint count then uint count else n1)
           in (Reply (Checked_reply ERR_OK first (word_of_int n2)), s1)
         else (Reply (Checked_reply ERR_INVALID_ID 0 0), s1))"

definition handle_get_list_id :: "ctx_layout \<Rightarrow> 's list_tree \<Rightarrow> u32 \<Rightarrow> u32 \<Rightarrow> 's handler" where
  "handle_get_list_id L T l i s =
     (if l = 0 \<and> i \<noteq> 0 then (Reply (Error_reply ''Invalid combination of list ID and item ID''), s)
      else (Try_fast_path GetListID Q_get_list_id
              (get_list_id_do_run L T (if l = 0 then invalid_id else l) (if l = 0 then 0 else i)) (complete (Some 0)), s))"

definition handle_get_list_id_by_cookie :: "u32 \<Rightarrow> 's handler" where
  "handle_get_list_id_by_cookie cookie s = (Finish_slow_path GetListID cookie (complete None), s)"

definition handle_get_parameterized_list_id ::
  "ctx_layout \<Rightarrow> 's list_tree \<Rightarrow> u32 \<Rightarrow> u32 \<Rightarrow> string \<Rightarrow> 's handler" where
  "handle_get_parameterized_list_id L T l i parameter s =
     (if l = 0 then (Reply (Error_reply ''Root lists are not parameterized''), s)
      else (Try_fast_path GetParamListID Q_get_list_id (get_param_list_id_do_run L T l i parameter) (complete (Some 0)), s))"

definition handle_get_parameterized_list_id_by_cookie :: "u32 \<Rightarrow> 's handler" where
  "handle_get_parameterized_list_id_by_cookie cookie s = (Finish_slow_path GetParamListID cookie (complete None), s)"

definition handle_get_parent_link :: "ctx_layout \<Rightarrow> 's list_tree \<Rightarrow> list_id \<Rightarrow> 's handler" where
  "handle_get_parent_link L T l s =
     (let (_, s1) = tree_use_list T l False s;
          (parent, item) = get_parent_link T l 0 s1
      in if id_is_valid L parent then
           let ret_list = (if parent \<noteq> l then parent else 0);
               ret_item = (if ret_list \<noteq> 0 then item else 1);
               title = get_list_title T parent s1
           in (Reply (Parent_reply ret_list ret_item (i18n_text title) (is_subject_to_translation title)), s1)
         else (Reply (Parent_reply 0 0 [] False), s1))"

definition handle_get_root_link_to_context :: "ctx_layout \<Rightarrow> 's list_tree \<Rightarrow> string \<Rightarrow> 's handler" where
  "handle_get_root_link_to_context L T context_id s =
     (let ((l, item, known, has_parent), s1) = get_link_to_context_root T context_id s
      in if \<not> id_is_valid L l then
           (Reply (Error_reply (''Context '' @ CHR 0x22 # context_id @ CHR 0x22 #
              (if \<not> known then '' unknown'' else if \<not> has_parent then '' has no parent'' else '' has no list''))), s1)
         else
           let title = get_child_list_title T l item s1
           in (Reply (Root_link_reply l item (i18n_text title) (is_subject_to_translation title)), s1))"

definition handle_get_uris :: "'s list_tree \<Rightarrow> list_id \<Rightarrow> u32 \<Rightarrow> 's handler" where
  "handle_get_uris T l i s =
     (let (used, s1) = tree_use_list T l True s
      in if \<not> used then (Reply (get_uris_failure (Some 0) ERR_INVALID_ID), s1)
         else (Try_fast_path GetURIs Q_get_uris (get_uris_do_run T l i) (complete (Some 0)), s1))"

definition handle_get_uris_by_cookie :: "u32 \<Rightarrow> 's handler" where
  "handle_get_uris_by_cookie cookie s = (Finish_slow_path GetURIs cookie (complete None), s)"

definition handle_get_ranked_stream_links :: "'s list_tree \<Rightarrow> list_id \<Rightarrow> u32 \<Rightarrow> 's handler" where
  "handle_get_ranked_stream_links T l i s =
     (let (used, s1) = tree_use_list T l True s
      in if \<not> used then (Reply (get_ranked_stream_links_failure (Some 0) ERR_INVALID_ID), s1)
         else (Try_fast_path GetRankedStreamLinks Q_get_uris (get_ranked_stream_links_do_run T l i) (complete (Some 0)), s1))"

definition handle_get_ranked_stream_links_by_cookie :: "u32 \<Rightarrow> 's handler" where
  "handle_get_ranked_stream_links_by_cookie cookie s = (Finish_slow_path GetRankedStreamLinks cookie (complete None), s)"

definition handle_discard_list :: "'s list_tree \<Rightarrow> list_id \<Rightarrow> 's handler" where
  "handle_discard_list T l s = (Reply Discarded_reply, discard_list_hint T l s)"

fun keep_lists_alive :: "'s list_tree \<Rightarrow> list_id list \<Rightarrow> 's \<Rightarrow> list_id list \<times> 's" where
  "keep_lists_alive T [] s = ([], s)"
| "keep_lists_alive T (l # ls) s =
     (let (used, s1) = tree_use_list T l False s;
          (bad, s2) = keep_lists_alive T ls s1
      in (if used then bad else l # bad, s2))"

definition handle_keep_alive :: "'s list_tree \<Rightarrow> list_id list \<Rightarrow> 's handler" where
  "handle_keep_alive T ls s =
     (let (bad, s1) = keep_lists_alive T ls s
      in (Reply (Kept_alive_reply (word_of_int (get_gc_expiry_time T s1)) bad), s1))"

text \<open>\<open>tree_force_list_into_cache\<close> gives seconds.\<close>

definition handle_force_in_cache :: "ctx_layout \<Rightarrow> 's list_tree \<Rightarrow> list_id \<Rightarrow> bool \<Rightarrow> 's handler" where
  "handle_force_in_cache L T l force s =
     (if id_is_valid L l then
        let (expiry, s1) = tree_force_list_into_cache T l force s
        in (Reply (Forced_reply (word_of_int (expiry * 1000))), s1)
      else (Reply (Forced_reply 0), s))"

definition handle_get_location_key :: "ctx_layout \<Rightarrow> 's list_tree \<Rightarrow> list_id \<Rightarrow> u32 \<Rightarrow> bool \<Rightarrow> 's handler" where
  "handle_get_location_key L T l i as_reference_key s =
     (if \<not> id_is_valid L l then (Reply (Location_key_reply ERR_INVALID_ID []), s)
      else if as_reference_key \<and> i = 0 then (Reply (Location_key_reply ERR_NOT_SUPPORTED []), s)
      else let (location, error) = get_location_key T l i as_reference_key s
           in (Reply (Location_key_reply error (location_text location)), s))"

definition handle_get_location_trace ::
  "ctx_layout \<Rightarrow> 's list_tree \<Rightarrow> list_id \<Rightarrow> u32 \<Rightarrow> list_id \<Rightarrow> u32 \<Rightarrow> 's handler" where
  "handle_get_location_trace L T l i ref_l ref_i s =
     (let error =
        (if \<not> id_is_valid L l then ERR_INVALID_ID
         else if i = 0 \<or> (ref_l \<noteq> 0 \<and> ref_i = 0) \<or> l = ref_l then ERR_NOT_SUPPORTED
         else if ref_l = 0 \<and> ref_i \<noteq> 0 then ERR_INVALID_ID
         else ERR_OK)
      in if error \<noteq> ERR_OK then (Reply (get_location_trace_failure (Some 0) error), s)
         else (Try_fast_path GetLocationTrace Q_realize_location (get_location_trace_do_run T l i ref_l ref_i) (complete (Some 0)), s))"

definition handle_get_location_trace_by_cookie :: "u32 \<Rightarrow> 's handler" where
  "handle_get_location_trace_by_cookie cookie s = (Finish_slow_path GetLocationTrace cookie (complete None), s)"

definition handle_realize_location :: "'s list_tree \<Rightarrow> string \<Rightarrow> 's handler" where
  "handle_realize_location T u s =
     (if u = [] then (Reply (realize_location_fast_failure 0 ERR_INVALID_STRBO_URL), s)
      else if \<not> can_handle_strbo_url T u then (Reply (realize_location_fast_failure 0 ERR_NOT_SUPPORTED), s)
      else (Always_announced RealizeLocation Q_realize_location (realize_location_do_run T u), s))"

definition handle_realize_location_by_cookie :: "u32 \<Rightarrow> 's handler" where
  "handle_realize_location_by_cookie cookie s = (Finish_slow_path RealizeLocation cookie (complete None), s)"

text \<open>The work accepted callback of \<open>handle_realize_location\<close> for a cookie.\<close>

definition realize_accepted :: "u32 \<Rightarrow> bool \<Rightarrow> bool \<Rightarrow> dbus_reply option" where
  "realize_accepted cookie is_async is_sync_done =
     (if is_async then Some (Realize_reply cookie ERR_BUSY)
      else if is_sync_done then Some (Realize_reply 0 ERR_OK)
      else None)"

text \<open>Data that shall be kept around is not implemented and ignored.\<close>

fun abort_cookies :: "(u32 \<times> bool) list \<Rightarrow> ('r, 'a) async_scheme \<Rightarrow> ('r, 'a) async_scheme option" where
  "abort_cookies [] s = Some s"
| "abort_cookies ((cookie, keep_around) # cs) s =
     do {
       s1 \<leftarrow> (if keep_around then Some s else cookie_not_wanted cookie s);
       abort_cookies cs s1
     }"

definition data_abort :: "(u32 \<times> bool) list \<Rightarrow> ('r, 'a) async_scheme \<Rightarrow> (dbus_reply \<times> ('r, 'a) async_scheme) option" where
  "data_abort cs s = do { s1 \<leftarrow> abort_cookies cs s; Some (Abort_reply, s1) }"

end
