(* ===== verification/Nav_Props.thy ===== *)
theory Nav_Props
  imports Nav_Handlers Tiled_List
begin

text \<open>
  The numbers of items reported by \<open>check_range\<close> are those of the items which iteration over
  the same range of a flat list delivers.
\<close>

lemma subscript_loop_collects:
  "set is \<subseteq> {..<length xs} \<Longrightarrow>
   subscript_loop (flat_list_at xs) (\<lambda>_ x acc. (acc @ [x], True)) is () acc = Some ((), acc @ map ((!) xs) is, ERR_OK)"
  by (induction "is" arbitrary: acc) (auto simp: flat_list_at_def)

lemma for_each_item_flat_collects:
  "for_each_item_flat (Some xs) first count (\<lambda>_ x acc. (acc @ [x], True)) [] =
     Some (map ((!) xs) [first..<range_end first count (length xs)], ERR_OK)"
proof -
  have "set [first..<range_end first count (length xs)] \<subseteq> {..<length xs}"
    by (auto simp: range_end_def split: if_splits)
  then show ?thesis
    by (simp add: for_each_item_flat_def subscript_loop_collects Let_def)
qed

lemma range_size:
  "(if c > 0 \<and> (if int m \<ge> int a then int m - int a else 0) > int c then int c
    else if int m \<ge> int a then int m - int a else 0) = int (range_end a c m - a)"
  by (auto simp: range_end_def min_def)

lemma unat_uint: "uint (w :: 'a::len word) = int (unat w)"
  by simp

text \<open>C13: CheckRange() reports a range that begins as requested and has as many items as an
  iteration over that range of the list delivers, for each combination of first index and count.\<close>

theorem check_range_counts_items:
  assumes "id_is_valid L l" "tree_size T l (snd (tree_use_list T l False s)) = int (length xs)"
  shows "\<exists>items. for_each_item_flat (Some xs) (unat first) (unat count) (\<lambda>_ x acc. (acc @ [x], True)) [] = Some (items, ERR_OK) \<and>
    fst (check_range L T l first count s) = Reply (Checked_reply ERR_OK first (word_of_nat (length items)))"
proof -
  let ?m = "if int (length xs) \<ge> uint first then int (length xs) - uint first else 0"
  have z: "(count > 0) = (unat count > 0)" by (simp add: word_less_nat_alt)
  have "(if count > 0 \<and> ?m > uint count then uint count else ?m) =
        int (range_end (unat first) (unat count) (length xs) - unat first)"
    unfolding z unat_uint by (rule range_size)
  moreover have "fst (check_range L T l first count s) =
      Reply (Checked_reply ERR_OK first (word_of_int (if count > 0 \<and> ?m > uint count then uint count else ?m)))"
    by (simp only: check_range_def Let_def split_beta assms if_True simp_thms fst_conv of_nat_0_le_iff)
  ultimately show ?thesis
    by (simp only: for_each_item_flat_collects of_int_of_nat_eq length_map length_upt) simp
qed

definition sample_tree :: "unit list_tree" where
  "sample_tree =
     \<lparr>for_each_context = [], tree_use_list = (\<lambda>_ _ s. (True, s)), tree_force_list_into_cache = (\<lambda>_ _ s. (0, s)),
      get_root_list_id = (\<lambda>_. 1), get_root_list_title = (\<lambda>_. untranslated), get_child_list_title = (\<lambda>_ _ _. untranslated),
      enter_child = (\<lambda>_ _ s. ((0, ERR_NOT_FOUND), s)), enter_child_with_parameters = unsupported_parameters,
      for_each = (\<lambda>_ _ _ s. (([], ERR_OK), s)), for_each_detailed = (\<lambda>_ _ _ s. (([], ERR_OK), s)),
      tree_size = (\<lambda>_ _. 5), get_parent_link = (\<lambda>_ i _. (0, i)),
      get_link_to_context_root_impl = (\<lambda>_ s. ((0, 0, False, False), s)),
      get_uris_for_item = (\<lambda>_ _ s. (([], \<lparr>item_key = [], key_is_valid = False\<rparr>, ERR_OK), s)),
      get_ranked_links_for_item = unsupported_ranked_links, can_handle_strbo_url = (\<lambda>_. False),
      realize_strbo_url = (\<lambda>_ s. ((mk_realize_url_result, ERR_NOT_SUPPORTED), s)),
      get_location_key = (\<lambda>_ _ _ _. (None, ERR_NOT_SUPPORTED)), get_location_trace = (\<lambda>_ _ _ _ _. (None, ERR_NOT_SUPPORTED)),
      discard_list_hint = (\<lambda>_ s. s), get_gc_expiry_time = (\<lambda>_. 0)\<rparr>"

lemma check_range_counts_items_witness:
  "fst (check_range sample_layout sample_tree 2 3 7 ()) = Reply (Checked_reply ERR_OK 3 2)"
proof -
  have "id_is_valid sample_layout 2"
    by code_simp
  moreover have "tree_size sample_tree 2 (snd (tree_use_list sample_tree 2 False ())) =
      int (length (replicate 5 (new_list_item () :: unit list_item)))"
    by (simp add: sample_tree_def)
  ultimately obtain items :: "unit list_item list" where
    "for_each_item_flat (Some (replicate 5 (new_list_item ()))) (unat (3 :: u32)) (unat (7 :: u32))
       (\<lambda>_ x acc. (acc @ [x], True)) [] = Some (items, ERR_OK)"
    "fst (check_range sample_layout sample_tree 2 3 7 ()) = Reply (Checked_reply ERR_OK 3 (word_of_nat (length items)))"
    using check_range_counts_items [of sample_layout 2 sample_tree "()" "replicate 5 (new_list_item ())" 3 7] by blast
  then show ?thesis by (auto simp: for_each_item_flat_collects range_end_def)
qed

end
