(* ===== verification/Child_Lists.thy ===== *)
theory Child_Lists
  imports Tiled_List Nav_Handlers
begin

text \<open>
  What the list trees of both brokers share: creating child lists (\<^verbatim>\<open>add_child_list_to_cache()\<close> in
  \<^verbatim>\<open>lists.hh\<close>), entering them, titles of lists (\<^verbatim>\<open>listtree_manager.hh\<close>), and the links
  from lists to the items of their parents. A child list is constructed at an address \<open>e\<close> that the
  allocator gives.
\<close>

definition add_child_list_to_cache ::
  "ctx_layout \<Rightarrow> ((nat \<times> nat) list \<Rightarrow> nat) \<Rightarrow> time_point \<Rightarrow> addr \<Rightarrow> list_id \<Rightarrow> cache_mode \<Rightarrow> context_t \<Rightarrow> nat \<Rightarrow>
   ('d, 'a) lb_state_scheme \<Rightarrow> (('d, 'a) lb_state_scheme \<times> list_id) option" where
  "add_child_list_to_cache L gid now e parent_id cmode ctx sz c =
     insert_entry L (tree_callbacks L gid now) now e cmode ctx sz
       (c\<lparr>objs := (objs c)(e := mk_entry (lookup c parent_id) now), contents := (contents c)(e := [])\<rparr>)"

text \<open>
  \<^verbatim>\<open>ListTreeManager::enter_child()\<close>: the list is looked up and entered; \<open>add_to_cache\<close> gets the
  address of the list, the index of the item and the item.
\<close>

definition manager_enter_child ::
  "ctx_layout \<Rightarrow> ((nat \<times> nat) list \<Rightarrow> nat) \<Rightarrow> time_point \<Rightarrow> list_id \<Rightarrow> nat \<Rightarrow> bool \<Rightarrow>
   (addr \<Rightarrow> 'd list_item \<Rightarrow> ('d, 'a) lb_state_scheme \<Rightarrow> (('d, 'a) lb_state_scheme \<times> list_id \<times> list_error) option) \<Rightarrow>
   ('d, 'a) lb_state_scheme \<Rightarrow> (('d, 'a) lb_state_scheme \<times> list_id \<times> list_error) option" where
  "manager_enter_child L gid now i item may_continue add_to_cache c =
     (case lookup_list L i c of
        None \<Rightarrow> Some (c, invalid_id, ERR_INVALID_ID)
      | Some e \<Rightarrow> enter_child_template L gid now e item may_continue (add_to_cache e) c)"

text \<open>
  \<open>is_dir\<close> and \<open>name\<close> are the functions of the items; there is no check for the index of the item:
  \<open>None\<close> is undefined behaviour.
\<close>

definition get_dynamic_title ::
  "ctx_layout \<Rightarrow> ('d \<Rightarrow> bool) \<Rightarrow> ('d \<Rightarrow> string option) \<Rightarrow> list_id \<Rightarrow> nat \<Rightarrow> ('d, 'a) lb_state_scheme \<Rightarrow> i18n option" where
  "get_dynamic_title L is_dir name i item c =
     (case lookup_list L i c of
        None \<Rightarrow> Some untranslated
      | Some e \<Rightarrow>
          if item < length (contents c e) then
            let d = specific_data (contents c e ! item)
            in if is_dir d then map_option (\<lambda>n. \<lparr>i18n_text = n, is_subject_to_translation = False\<rparr>) (name d)
               else Some untranslated
          else None)"

text \<open>
  \<^verbatim>\<open>get_parent_link()\<close> of the list trees: the parent of the list and the index of the item that
  leads to it, or the list itself if it is the root. The index is the result of the parent's
  \<^verbatim>\<open>lookup_item_id_by_child_id()\<close> and not touched for the root (\<open>i0\<close> is its former value).
\<close>

definition find_parent_link ::
  "ctx_layout \<Rightarrow> list_id \<Rightarrow> nat \<Rightarrow> ('d, 'a) lb_state_scheme \<Rightarrow> (addr \<times> nat) option" where
  "find_parent_link L i i0 c =
     (case lookup_list L i c of
        None \<Rightarrow> None
      | Some e \<Rightarrow>
          (case parent (objs c e) of
             None \<Rightarrow> Some (e, i0)
           | Some p \<Rightarrow> map_option (Pair p) (lookup_item_id_by_child_id i (contents c p))))"

definition parent_link :: "ctx_layout \<Rightarrow> list_id \<Rightarrow> nat \<Rightarrow> ('d, 'a) lb_state_scheme \<Rightarrow> list_id \<times> nat" where
  "parent_link L i i0 c =
     (case find_parent_link L i i0 c of
        None \<Rightarrow> (invalid_id, i0)
      | Some (p, n) \<Rightarrow> (cache_id (objs c p), n))"

definition list_size :: "ctx_layout \<Rightarrow> list_id \<Rightarrow> ('d, 'a) lb_state_scheme \<Rightarrow> int" where
  "list_size L i c = (case lookup_list L i c of None \<Rightarrow> -1 | Some e \<Rightarrow> int (length (contents c e)))"

text \<open>
  \<^verbatim>\<open>for_each()\<close> of the list trees for flat lists: \<open>data\<close> makes the data for the callback \<open>f\<close>
  from an item; \<open>None\<close> is undefined behaviour.
\<close>

definition apply_to_item ::
  "('d \<Rightarrow> 'i option) \<Rightarrow> ('i \<Rightarrow> 'b \<Rightarrow> 'b \<times> bool) \<Rightarrow> 'd list_item \<Rightarrow> 'b option \<Rightarrow> 'b option \<times> bool" where
  "apply_to_item data f it acc =
     (case (acc, data (specific_data it)) of
        (Some b, Some x) \<Rightarrow> (let (b', go) = f x b in (Some b', go))
      | _ \<Rightarrow> (None, False))"

definition list_for_each ::
  "ctx_layout \<Rightarrow> ('d \<Rightarrow> 'i option) \<Rightarrow> list_id \<Rightarrow> nat \<Rightarrow> nat \<Rightarrow> ('i \<Rightarrow> 'b \<Rightarrow> 'b \<times> bool) \<Rightarrow> 'b \<Rightarrow>
   ('d, 'a) lb_state_scheme \<Rightarrow> ('b \<times> list_error) option" where
  "list_for_each L data i first count f acc c =
     (case for_each_item_flat (map_option (contents c) (lookup_list L i c)) first count
             (\<lambda>_. apply_to_item data f) (Some acc) of
        Some (Some b, e) \<Rightarrow> Some (b, e)
      | _ \<Rightarrow> None)"

section \<open>Following a link up and down\<close>

text \<open>The link to a list that is in the cache leads back to the list.\<close>

lemma find_parent_link_right:
  assumes "find_parent_link L i i0 c = Some (p, n)" "lookup_list L i c = Some e" "parent (objs c e) = Some q"
  shows "p = q" "n < length (contents c p)" "child (contents c p ! n) = i"
  using assms by (auto simp: find_parent_link_def lookup_item_id_by_child_id_def index_of_Some)

lemma enter_cached_child:
  assumes "n < length (contents c e)" "check_is_cacheable L (child (contents c e ! n)) c"
  shows "enter_child_template L gid now e n True add c = Some (c, child (contents c e ! n), ERR_OK)"
  using assms by (simp add: enter_child_template_def Let_def)

end
