(* ===== verification/Upnp_Servers.thy ===== *)
theory Upnp_Servers
  imports Flat_Lists
begin

text \<open>
  The list of UPnP servers (\<^verbatim>\<open>ServerList\<close> and \<^verbatim>\<open>ServerItemData\<close> in \<^verbatim>\<open>src/dlna/upnp_list.cc\<close>,
  \<^verbatim>\<open>upnp_list.hh\<close>) and the book-keeping about servers found and lost
  (\<^verbatim>\<open>servers_lost_and_found.hh\<close>). For each server that appears on the network a D-Bus proxy
  is created asynchronously; the operations in flight are part of the state here. D-Bus
  proxies, the parsing of IP addresses and the network interfaces of the system are parameters.
\<close>

section \<open>Servers lost and found\<close>

record add_to_list_data =
  serial :: u32
  is_cancelled :: bool

record lost_and_found =
  next_serial :: u32
  server_added_queues :: "string \<rightharpoonup> add_to_list_data list"

definition mk_lost_and_found :: lost_and_found where
  "mk_lost_and_found = \<lparr>next_serial = 0, server_added_queues = Map.empty\<rparr>"

definition added_queue :: "lost_and_found \<Rightarrow> string \<Rightarrow> add_to_list_data list" where
  "added_queue lf path = (case server_added_queues lf path of None \<Rightarrow> [] | Some q \<Rightarrow> q)"

text \<open>\<^verbatim>\<open>AddToListData::cancel()\<close> tells whether the operation has not been canceled before.\<close>

definition cancel_add :: "add_to_list_data \<Rightarrow> bool \<times> add_to_list_data" where
  "cancel_add d = (\<not> is_cancelled d, d\<lparr>is_cancelled := True\<rparr>)"

definition server_found :: "string \<Rightarrow> lost_and_found \<Rightarrow> add_to_list_data \<times> lost_and_found" where
  "server_found path lf =
     (let q = added_queue lf path;
          q1 = (if q = [] then [] else butlast q @ [snd (cancel_add (last q))]);
          d = \<lparr>serial = next_serial lf, is_cancelled = False\<rparr>
      in (d, lf\<lparr>next_serial := next_serial lf + 1,
                server_added_queues := (server_added_queues lf)(path \<mapsto> q1 @ [d])\<rparr>))"

definition server_lost :: "string \<Rightarrow> lost_and_found \<Rightarrow> bool \<times> lost_and_found" where
  "server_lost path lf =
     (case server_added_queues lf path of
        None \<Rightarrow> (False, lf)
      | Some q \<Rightarrow>
          if q = [] then (False, lf)
          else let (b, d) = cancel_add (last q)
               in (b, lf\<lparr>server_added_queues := (server_added_queues lf)(path \<mapsto> butlast q @ [d])\<rparr>))"

definition put_queue :: "string \<Rightarrow> add_to_list_data list \<Rightarrow> lost_and_found \<Rightarrow> lost_and_found" where
  "put_queue path q lf =
     lf\<lparr>server_added_queues := (server_added_queues lf)(path := if q = [] then None else Some q)\<rparr>"

text \<open>Erasing the end of the queue is undefined behaviour: \<open>None\<close>.\<close>

definition server_processed :: "string \<Rightarrow> u32 \<Rightarrow> lost_and_found \<Rightarrow> lost_and_found option" where
  "server_processed path n lf =
     (case server_added_queues lf path of
        None \<Rightarrow> Some lf
      | Some [] \<Rightarrow> Some (put_queue path [] lf)
      | Some (d # ds) \<Rightarrow>
          if serial d = n then Some (put_queue path ds lf)
          else case index_of (\<lambda>d. serial d = n) ds of
                 None \<Rightarrow> None
               | Some k \<Rightarrow> Some (put_queue path (d # take k ds @ drop (Suc k) ds) lf))"

section \<open>Servers\<close>

text \<open>The properties of a proxy that are read; a missing string is a null pointer.\<close>

record media_device =
  device_path :: string
  friendly_name :: "string option"
  model_description :: "string option"
  model_name :: "string option"
  model_number :: "string option"
  device_location :: "string option"
  is_media_device_usable :: bool

definition album_art_url_not_usable :: u32 where
  "album_art_url_not_usable = 1"

definition add_quirks :: "u32 \<Rightarrow> u32 \<Rightarrow> u32" where
  "add_quirks q quirks = quirks OR q"

definition check_quirks :: "u32 \<Rightarrow> u32 \<Rightarrow> bool" where
  "check_quirks q quirks \<longleftrightarrow> quirks AND q \<noteq> 0"

record server_data =
  dbus_proxy :: media_device
  server_quirks :: u32

definition init_server :: "media_device \<Rightarrow> server_data" where
  "init_server p =
     \<lparr>dbus_proxy = p,
      server_quirks = (if model_name p = Some ''MediaTomb'' then add_quirks album_art_url_not_usable 0 else 0)\<rparr>"

definition replace_dbus_proxy :: "media_device \<Rightarrow> server_data \<Rightarrow> server_data" where
  "replace_dbus_proxy p d = d\<lparr>dbus_proxy := p\<rparr>"

definition has_quirks :: "u32 \<Rightarrow> server_data \<Rightarrow> bool" where
  "has_quirks q d = check_quirks q (server_quirks d)"

definition name_is_ok :: "string option \<Rightarrow> bool" where
  "name_is_ok n \<longleftrightarrow> n \<noteq> None \<and> n \<noteq> Some []"

definition server_name :: "server_data \<Rightarrow> string" where
  "server_name d =
     (let p = dbus_proxy d;
          name = (if name_is_ok (friendly_name p) then the (friendly_name p) else ''Nameless UPnP device'');
          fragments = map the (filter name_is_ok [model_description p, model_name p, model_number p])
      in if fragments = [] then name
         else name @ '' ('' @ hd fragments @ concat (map (\<lambda>f. CHR 0x20 # f) (tl fragments)) @ '')'')"

text \<open>
  The host part of a URL is compared with the addresses of the network interfaces: \<open>pton\<close> is
  \<^verbatim>\<open>inet_pton()\<close>, \<open>ifs\<close> the IPv4 addresses that \<^verbatim>\<open>getifaddrs()\<close> gives.
\<close>

fun search_after :: "string \<Rightarrow> string \<Rightarrow> string option" where
  "search_after pat [] = (if pat = [] then Some [] else None)"
| "search_after pat (c # cs) =
     (if take (length pat) (c # cs) = pat then Some (drop (length pat) (c # cs)) else search_after pat cs)"

definition host_of :: "string \<Rightarrow> string" where
  "host_of u =
     (case search_after ''://'' u of
        None \<Rightarrow> []
      | Some rest \<Rightarrow> takeWhile (\<lambda>c. c \<noteq> CHR ''/'' \<and> c \<noteq> CHR '':'') rest)"

record network =
  pton :: "string \<Rightarrow> u32 option"
  ifs :: "u32 list option"

definition is_media_server_local :: "network \<Rightarrow> media_device \<Rightarrow> bool" where
  "is_media_server_local N p =
     (case device_location p of
        None \<Rightarrow> False
      | Some u \<Rightarrow>
          (case pton N (host_of u) of
             None \<Rightarrow> False
           | Some a \<Rightarrow> (case ifs N of None \<Rightarrow> False | Some as \<Rightarrow> a \<in> set as)))"

section \<open>The list\<close>

definition server_path :: "server_data list_item \<Rightarrow> string" where
  "server_path it = device_path (dbus_proxy (specific_data it))"

definition find_server :: "string \<Rightarrow> server_data flat_list \<Rightarrow> nat option" where
  "find_server path items = index_of (\<lambda>it. server_path it = path) items"

text \<open>
  What \<^verbatim>\<open>media_device_proxy_connected()\<close> does to the list, and whether it calls the function
  that tells about the server.
\<close>

definition connect_server ::
  "network \<Rightarrow> string \<Rightarrow> media_device option \<Rightarrow> server_data flat_list \<Rightarrow> server_data flat_list \<times> bool" where
  "connect_server N path proxy items =
     (case proxy of
        None \<Rightarrow> (items, False)
      | Some p \<Rightarrow>
          (case find_server path items of
             Some k \<Rightarrow>
               (items[k := (items ! k)\<lparr>specific_data := replace_dbus_proxy p (specific_data (items ! k))\<rparr>], True)
           | None \<Rightarrow>
               if is_media_server_local N p then (items, False)
               else if \<not> is_media_device_usable p then (items, False)
               else (append_unsorted (new_list_item (init_server p)) items, True)))"

datatype remove_from_list_result = REMOVED | NOT_ADDED_YET | NOT_FOUND

definition remove_from_list ::
  "string \<Rightarrow> server_data flat_list \<Rightarrow> lost_and_found \<Rightarrow>
   (remove_from_list_result \<times> list_id \<times> server_data flat_list \<times> lost_and_found) option" where
  "remove_from_list path items lf =
     (let (canceled, lf1) = server_lost path lf
      in case find_server path items of
           None \<Rightarrow> Some (if canceled then NOT_ADDED_YET else NOT_FOUND, invalid_id, items, lf1)
         | Some idx \<Rightarrow> do {
             (items1, child_list_id) \<leftarrow> FIXME_remove idx items;
             Some (REMOVED, child_list_id, items1, lf1)
           })"

text \<open>
  The list, its book-keeping, and the operations in flight. \<open>begins\<close> tells whether the creation
  of the proxy could be started.
\<close>

record server_list =
  servers :: "server_data flat_list"
  lost_found :: lost_and_found
  connecting :: "(string \<times> u32) list"

definition add_to_list :: "bool \<Rightarrow> string \<Rightarrow> server_list \<Rightarrow> server_list" where
  "add_to_list begins path s =
     (let (d, lf) = server_found path (lost_found s)
      in s\<lparr>lost_found := lf,
           connecting := (if begins then connecting s @ [(path, serial d)] else connecting s)\<rparr>)"

definition proxy_connected ::
  "network \<Rightarrow> string \<Rightarrow> u32 \<Rightarrow> media_device option \<Rightarrow> server_list \<Rightarrow> (server_list \<times> bool) option" where
  "proxy_connected N path n proxy s =
     (let (items, added) = connect_server N path proxy (servers s)
      in do {
           lf \<leftarrow> server_processed path n (lost_found s);
           Some (s\<lparr>servers := items, lost_found := lf, connecting := remove1 (path, n) (connecting s)\<rparr>, added)
         })"

definition lose_server :: "string \<Rightarrow> server_list \<Rightarrow> (server_list \<times> remove_from_list_result \<times> list_id) option" where
  "lose_server path s =
     do {
       (r, i, items, lf) \<leftarrow> remove_from_list path (servers s) (lost_found s);
       Some (s\<lparr>servers := items, lost_found := lf\<rparr>, r, i)
     }"

section \<open>All sequences of events\<close>

text \<open>
  \<open>present\<close> is what the events say about the network: a server is there if it has been found
  after it was lost last. A canceled operation yields no proxy, and a proxy has the path it
  was made for. At most \<^term>\<open>2 ^ 32\<close> operations are in the queues at the same time, so that the
  next serial number is not in use. The remaining step is what else happens to the list: its
  items get and forget child lists.
\<close>

definition canceled :: "server_list \<Rightarrow> string \<Rightarrow> u32 \<Rightarrow> bool" where
  "canceled s path n \<longleftrightarrow> list_ex (\<lambda>d. serial d = n \<and> is_cancelled d) (added_queue (lost_found s) path)"

inductive server_reach :: "network \<Rightarrow> (string \<Rightarrow> bool) \<Rightarrow> server_list \<Rightarrow> bool" for N where
  start: "server_reach N (\<lambda>_. False) \<lparr>servers = [], lost_found = mk_lost_and_found, connecting = []\<rparr>"
| found: "server_reach N present s \<Longrightarrow>
    next_serial (lost_found s) \<notin> serial ` set (added_queue (lost_found s) p) \<Longrightarrow>
    server_reach N (present(p := True)) (add_to_list begins p s)"
| lost: "server_reach N present s \<Longrightarrow> lose_server p s = Some (s', r, i) \<Longrightarrow>
    server_reach N (present(p := False)) s'"
| connected: "server_reach N present s \<Longrightarrow> (p, n) \<in> set (connecting s) \<Longrightarrow>
    (canceled s p n \<Longrightarrow> proxy = None) \<Longrightarrow> (\<And>x. proxy = Some x \<Longrightarrow> device_path x = p) \<Longrightarrow>
    proxy_connected N p n proxy s = Some (s', added) \<Longrightarrow> server_reach N present s'"
| linked: "server_reach N present s \<Longrightarrow> map specific_data items = map specific_data (servers s) \<Longrightarrow>
    server_reach N present (s\<lparr>servers := items\<rparr>)"

end
