(* ===== verification/Upnp_Tree.thy ===== *)
theory Upnp_Tree
  imports Child_Lists Upnp_Servers Upnp_Filler
begin

text \<open>
  The list tree of the UPnP broker (\<^verbatim>\<open>src/dlna/upnp_listtree.cc\<close>, \<^verbatim>\<open>upnp_listtree.hh\<close>): the
  list of servers is the root list of the cache; what is known about servers lost and found,
  and the operations in flight, are kept with it. Of the media lists, whose items are
  modelled by the tiles, the numbers of items are kept. The handlers of D-Bus signals
  (\<^verbatim>\<open>dbus_upnp_handlers.cc\<close>) and the periodic rescan (\<^verbatim>\<open>periodic_rescan.cc\<close>) follow.
\<close>

record upnp_tree = "server_data lb_state" +
  server_list_id :: list_id
  server_list_at :: addr
  tree_lost_found :: lost_and_found
  tree_connecting :: "(string \<times> u32) list"
  media_sizes :: "addr \<Rightarrow> nat"

definition get_server_list :: "upnp_tree \<Rightarrow> server_list" where
  "get_server_list c =
     \<lparr>servers = contents c (server_list_at c), lost_found = tree_lost_found c, connecting = tree_connecting c\<rparr>"

definition put_server_list :: "server_list \<Rightarrow> upnp_tree \<Rightarrow> upnp_tree" where
  "put_server_list s c =
     c\<lparr>contents := (contents c)(server_list_at c := servers s), tree_lost_found := lost_found s,
       tree_connecting := connecting s\<rparr>"

definition upnp_init ::
  "ctx_layout \<Rightarrow> ((nat \<times> nat) list \<Rightarrow> nat) \<Rightarrow> time_point \<Rightarrow> addr \<Rightarrow> upnp_tree \<Rightarrow> upnp_tree option" where
  "upnp_init L gid now e c =
     do {
       (c1, i) \<leftarrow> allocate_blessed_list L gid now e None 0 0 True c;
       Some (c1\<lparr>server_list_id := i, server_list_at := e, tree_lost_found := mk_lost_and_found\<rparr>)
     }"

definition upnp_pre_main_loop :: "ctx_layout \<Rightarrow> upnp_tree \<Rightarrow> upnp_tree" where
  "upnp_pre_main_loop L c = announce_root_list L (server_list_id c) c"

definition reinsert_server_list :: "ctx_layout \<Rightarrow> upnp_tree \<Rightarrow> upnp_tree option" where
  "reinsert_server_list L c =
     do { (c1, i) \<leftarrow> reinsert_list L (server_list_id c) c; Some (c1\<lparr>server_list_id := i\<rparr>) }"

section \<open>Servers come and go\<close>

definition add_to_server_list :: "ctx_layout \<Rightarrow> bool \<Rightarrow> string list \<Rightarrow> upnp_tree \<Rightarrow> upnp_tree option" where
  "add_to_server_list L begins paths c =
     (case lookup_list L (server_list_id c) c of
        None \<Rightarrow> None
      | Some _ \<Rightarrow> Some (fold (\<lambda>path c. put_server_list (add_to_list begins path (get_server_list c)) c) paths c))"

definition media_device_proxy_connected ::
  "ctx_layout \<Rightarrow> network \<Rightarrow> string \<Rightarrow> u32 \<Rightarrow> media_device option \<Rightarrow> upnp_tree \<Rightarrow> upnp_tree option" where
  "media_device_proxy_connected L N path n proxy c =
     (let (items, added) = connect_server N path proxy (contents c (server_list_at c));
          c1 = c\<lparr>contents := (contents c)(server_list_at c := items)\<rparr>
      in do {
           c2 \<leftarrow> (if added then reinsert_server_list L c1 else Some c1);
           lf \<leftarrow> server_processed path n (tree_lost_found c2);
           Some (c2\<lparr>tree_lost_found := lf, tree_connecting := remove1 (path, n) (tree_connecting c2)\<rparr>)
         })"

text \<open>The loop over the lost servers; it tells whether the list has changed.\<close>

fun remove_servers ::
  "ctx_layout \<Rightarrow> ((nat \<times> nat) list \<Rightarrow> nat) \<Rightarrow> time_point \<Rightarrow> string list \<Rightarrow> bool \<Rightarrow> upnp_tree \<Rightarrow> (upnp_tree \<times> bool) option" where
  "remove_servers L gid now [] list_changed c = Some (c, list_changed)"
| "remove_servers L gid now (path # paths) list_changed c =
     do {
       (s, r, removed_list_id) \<leftarrow> lose_server path (get_server_list c);
       let c1 = put_server_list s c;
       (if r = REMOVED then
          if \<not> id_is_valid L removed_list_id then remove_servers L gid now paths True c1
          else do {
            (c2, _) \<leftarrow> purge_subtree L gid now removed_list_id invalid_id None c1;
            remove_servers L gid now paths True c2
          }
        else remove_servers L gid now paths list_changed c1)
     }"

definition remove_from_server_list ::
  "ctx_layout \<Rightarrow> ((nat \<times> nat) list \<Rightarrow> nat) \<Rightarrow> time_point \<Rightarrow> string list \<Rightarrow> upnp_tree \<Rightarrow> upnp_tree option" where
  "remove_from_server_list L gid now paths c =
     (case lookup_list L (server_list_id c) c of
        None \<Rightarrow> None
      | Some _ \<Rightarrow> do {
          (c1, _) \<leftarrow> use_list L gid now (server_list_id c) False c;
          (c2, list_changed) \<leftarrow> remove_servers L gid now paths False c1;
          (if list_changed then reinsert_server_list L c2 else Some c2)
        })"

definition clear_servers ::
  "ctx_layout \<Rightarrow> ((nat \<times> nat) list \<Rightarrow> nat) \<Rightarrow> time_point \<Rightarrow> upnp_tree \<Rightarrow> upnp_tree option" where
  "clear_servers L gid now c =
     remove_from_server_list L gid now (map server_path (contents c (server_list_at c))) c"

definition dleynaserver_manager_signal ::
  "ctx_layout \<Rightarrow> ((nat \<times> nat) list \<Rightarrow> nat) \<Rightarrow> time_point \<Rightarrow> bool \<Rightarrow> string \<Rightarrow> string \<Rightarrow> upnp_tree \<Rightarrow> upnp_tree option" where
  "dleynaserver_manager_signal L gid now begins signal_name path c =
     (if signal_name = ''FoundServer'' then add_to_server_list L begins [path] c
      else if signal_name = ''LostServer'' then remove_from_server_list L gid now [path] c
      else Some c)"

section \<open>The functions of the list tree\<close>

definition enter_server ::
  "ctx_layout \<Rightarrow> ((nat \<times> nat) list \<Rightarrow> nat) \<Rightarrow> time_point \<Rightarrow> addr \<Rightarrow> (string \<Rightarrow> u32) \<Rightarrow> nat \<Rightarrow> addr \<Rightarrow>
   server_data list_item \<Rightarrow> upnp_tree \<Rightarrow> (upnp_tree \<times> list_id \<times> list_error) option" where
  "enter_server L gid now e get_size_of_container size_of_list srv it c =
     (let i = cache_id (objs c srv);
          c1 = c\<lparr>media_sizes := (media_sizes c)(e := unat (get_size_of_container (server_path it)))\<rparr>
      in do {
           (c2, new_id) \<leftarrow> add_child_list_to_cache L gid now e i (to_cache_mode (default_cache_mode_request c)) (get_context L i)
                             size_of_list c1;
           Some (c2, new_id, ERR_OK)
         })"

definition upnp_size :: "ctx_layout \<Rightarrow> list_id \<Rightarrow> upnp_tree \<Rightarrow> int" where
  "upnp_size L i c =
     (case lookup_list L i c of
        None \<Rightarrow> -1
      | Some e \<Rightarrow> int (if i = server_list_id c then length (contents c e) else media_sizes c e))"

definition upnp_link_to_context_root :: "string \<Rightarrow> list_id \<times> item_id \<times> bool \<times> bool" where
  "upnp_link_to_context_root context_id = (invalid_id, 0, context_id = ''upnp'', False)"

definition upnp_discard_list_hint ::
  "ctx_layout \<Rightarrow> ((nat \<times> nat) list \<Rightarrow> nat) \<Rightarrow> time_point \<Rightarrow> list_id \<Rightarrow> upnp_tree \<Rightarrow> upnp_tree option" where
  "upnp_discard_list_hint L gid now i c =
     (if i \<noteq> server_list_id c then repin_if_first_is_deepest_pinned_list L gid now i (server_list_id c) c else Some c)"

text \<open>
  The server a media list belongs to: the outer \<open>None\<close> is an endless search, the inner one a null
  pointer.
\<close>

partial_function (option) server_item_loop :: "addr \<Rightarrow> upnp_tree \<Rightarrow> nat option option" where
  "server_item_loop e c =
     (case parent (objs c e) of
        None \<Rightarrow> Some None
      | Some p \<Rightarrow>
          if cache_id (objs c p) = server_list_id c
          then Some (lookup_item_id_by_child_id (cache_id (objs c e)) (contents c p))
          else server_item_loop p c)"

text \<open>
  \<^verbatim>\<open>get_uris_for_item()\<close>: \<open>item_at\<close> is the access to the item of the media list, \<open>urls\<close> creates a
  proxy for a media item and reads its URLs, \<open>md5\<close> is the hash function. Sending cover art
  is left out.
\<close>

definition upnp_get_uris_for_item ::
  "ctx_layout \<Rightarrow> (string \<Rightarrow> 8 word list) \<Rightarrow> (string \<Rightarrow> string list option option) \<Rightarrow> (addr \<Rightarrow> nat \<Rightarrow> upnp_item) \<Rightarrow>
   list_id \<Rightarrow> nat \<Rightarrow> upnp_tree \<Rightarrow> url_string list \<times> list_item_key \<times> list_error" where
  "upnp_get_uris_for_item L md5 urls item_at i item c =
     (let no_key = \<lparr>item_key = [], key_is_valid = False\<rparr>
      in if i = server_list_id c then ([], no_key, ERR_INVALID_ID)
         else case lookup_list L i c of
           None \<Rightarrow> ([], no_key, ERR_INVALID_ID)
         | Some e \<Rightarrow>
             if item \<ge> media_sizes c e then ([], no_key, ERR_INVALID_ID)
             else if kind (item_at e item) = DIRECTORY then ([], no_key, ERR_OK)
             else let path = dbus_path (item_at e item)
                  in case urls path of
                       None \<Rightarrow> ([], no_key, ERR_NOT_FOUND)
                     | Some us \<Rightarrow>
                         (map (mk_url GENERIC) (case us of None \<Rightarrow> [] | Some us \<Rightarrow> us),
                          \<lparr>item_key = md5 path, key_is_valid = True\<rparr>, ERR_OK))"

section \<open>Periodic rescan\<close>

record periodic_rescan =
  is_inhibited :: bool
  timeout_id :: nat

definition rescan_now :: "bool \<Rightarrow> periodic_rescan \<Rightarrow> bool \<times> bool \<times> periodic_rescan" where
  "rescan_now have_iface r =
     (if is_inhibited r then (True, False, r)
      else if \<not> have_iface then (False, False, r)
      else (True, True, r\<lparr>is_inhibited := True\<rparr>))"

definition rescan_done :: "periodic_rescan \<Rightarrow> periodic_rescan" where
  "rescan_done r = r\<lparr>is_inhibited := False\<rparr>"

definition rescan_enable :: "nat \<Rightarrow> periodic_rescan \<Rightarrow> periodic_rescan" where
  "rescan_enable new_id r = (if timeout_id r > 0 then r else \<lparr>is_inhibited = False, timeout_id = new_id\<rparr>)"

definition rescan_disable :: "periodic_rescan \<Rightarrow> nat option \<times> periodic_rescan" where
  "rescan_disable r = (if timeout_id r = 0 then (None, r) else (Some (timeout_id r), r\<lparr>timeout_id := 0\<rparr>))"

end
