(* ===== verification/Upnp_Servers_Props.thy ===== *)
theory Upnp_Servers_Props
  imports Upnp_Servers
begin

text \<open>
  The list of servers follows the servers on the network, in whatever order the proxies for them
  become available.
\<close>

section \<open>Queues\<close>

definition cancel_last :: "add_to_list_data list \<Rightarrow> add_to_list_data list" where
  "cancel_last q = (if q = [] then [] else butlast q @ [snd (cancel_add (last q))])"

lemma serial_cancel [simp]: "serial (snd (cancel_add d)) = serial d" "is_cancelled (snd (cancel_add d))"
  by (simp_all add: cancel_add_def)

lemma serials_cancel_last [simp]: "map serial (cancel_last q) = map serial q"
  by (cases q rule: rev_cases) (simp_all add: cancel_last_def)

lemma serials_cancel_last_set: "serial ` set (cancel_last q) = serial ` set q"
  by (metis serials_cancel_last set_map)

lemma cancel_last_cancels: "\<forall>d \<in> set (butlast q). is_cancelled d \<Longrightarrow> d \<in> set (cancel_last q) \<Longrightarrow> is_cancelled d"
  by (auto simp: cancel_last_def split: if_splits)

lemma added_queue_put [simp]:
  "added_queue (put_queue p q lf) p' = (if p' = p then q else added_queue lf p')"
  by (simp add: added_queue_def put_queue_def)

lemma server_found_queue:
  assumes "server_found p lf = (d, lf')"
  shows "added_queue lf' p' = (if p' = p then cancel_last (added_queue lf p) @ [d] else added_queue lf p')"
    and "serial d = next_serial lf" "\<not> is_cancelled d"
  using assms by (auto simp: server_found_def added_queue_def cancel_last_def Let_def)

lemma server_lost_queue:
  "added_queue (snd (server_lost p lf)) p' = (if p' = p then cancel_last (added_queue lf p) else added_queue lf p')"
  by (auto simp: server_lost_def added_queue_def cancel_last_def case_prod_beta split: option.split)

lemma take_drop_filter:
  "distinct (map f xs) \<Longrightarrow> k < length xs \<Longrightarrow> f (xs ! k) = n \<Longrightarrow> take k xs @ drop (Suc k) xs = filter (\<lambda>x. f x \<noteq> n) xs"
proof (induction xs arbitrary: k)
  case (Cons x xs)
  have "filter (\<lambda>x. f x \<noteq> n) xs = xs" if "f x = n"
    using Cons.prems(1) that by (auto simp: filter_id_conv) (metis image_eqI)
  moreover have "f x \<noteq> n" if "k = Suc j" for j using that Cons.prems by auto
  ultimately show ?case using Cons by (cases k) auto
qed simp

lemma server_processed_queue:
  assumes "distinct (map serial (added_queue lf p))" "n \<in> serial ` set (added_queue lf p)"
  obtains lf' where "server_processed p n lf = Some lf'"
    "\<And>p'. added_queue lf' p' = (if p' = p then filter (\<lambda>d. serial d \<noteq> n) (added_queue lf p) else added_queue lf p')"
proof -
  have "\<exists>q. server_added_queues lf p = Some q \<and> q \<noteq> []"
    using assms(2) by (cases "server_added_queues lf p") (auto simp: added_queue_def)
  then obtain q where "server_added_queues lf p = Some q" "q \<noteq> []" by blast
  then obtain d ds where q: "server_added_queues lf p = Some (d # ds)" by (cases q) auto
  then have a: "added_queue lf p = d # ds" by (simp add: added_queue_def)
  show ?thesis
  proof (cases "serial d = n")
    case True
    then have "\<forall>d' \<in> set ds. serial d' \<noteq> n" using assms(1) unfolding a
      by (auto simp: rev_image_eqI)
    then have "filter (\<lambda>d. serial d \<noteq> n) (d # ds) = ds" using True by (simp add: filter_id_conv)
    then show ?thesis using that [of "put_queue p ds lf"] True q a by (simp add: server_processed_def)
  next
    case False
    then obtain k where k: "index_of (\<lambda>d. serial d = n) ds = Some k"
      using assms(2) unfolding a by (cases "index_of (\<lambda>d. serial d = n) ds") (auto simp: index_of_None)
    then have "take k ds @ drop (Suc k) ds = filter (\<lambda>d. serial d \<noteq> n) ds"
      using take_drop_filter [of serial ds k n] assms(1) unfolding a index_of_Some by simp
    then show ?thesis
      using that [of "put_queue p (d # take k ds @ drop (Suc k) ds) lf"] False q a k by (simp add: server_processed_def)
  qed
qed

section \<open>The invariant\<close>

definition queue_ok :: "bool \<Rightarrow> add_to_list_data list \<Rightarrow> bool" where
  "queue_ok there q \<longleftrightarrow> distinct (map serial q) \<and> (\<forall>d \<in> set (butlast q). is_cancelled d) \<and>
     (\<not> there \<longrightarrow> (\<forall>d \<in> set q. is_cancelled d))"

definition server_inv :: "(string \<Rightarrow> bool) \<Rightarrow> server_list \<Rightarrow> bool" where
  "server_inv present s \<longleftrightarrow>
     distinct (map server_path (servers s)) \<and> (\<forall>it \<in> set (servers s). present (server_path it)) \<and>
     (\<forall>p. queue_ok (present p) (added_queue (lost_found s) p)) \<and> distinct (connecting s) \<and>
     (\<forall>(p, n) \<in> set (connecting s). n \<in> serial ` set (added_queue (lost_found s) p))"

lemma queue_ok_found:
  assumes "queue_ok b q" "serial d \<notin> serial ` set q"
  shows "queue_ok True (cancel_last q @ [d])"
  using assms cancel_last_cancels [of q] by (auto simp: queue_ok_def serials_cancel_last_set)

lemma queue_ok_lost: "queue_ok b q \<Longrightarrow> queue_ok False (cancel_last q)"
  using cancel_last_cancels [of q] in_set_butlastD by (fastforce simp: queue_ok_def)

lemma set_butlast_filter: "set (butlast (filter P q)) \<subseteq> set (butlast q)"
proof (induction q rule: rev_induct)
  case (snoc x q)
  then show ?case by (auto dest: in_set_butlastD)
qed simp

lemma queue_ok_filter: "queue_ok b q \<Longrightarrow> queue_ok b (filter P q)"
  using set_butlast_filter [of P q] by (auto simp: queue_ok_def distinct_map_filter)

lemma find_server_None: "find_server p items = None \<longleftrightarrow> p \<notin> server_path ` set items"
  by (auto simp: find_server_def index_of_None)

lemma find_server_Some: "find_server p items = Some k \<Longrightarrow> k < length items \<and> server_path (items ! k) = p"
  by (simp add: find_server_def index_of_Some)

text \<open>Connecting keeps the paths of all servers, and adds at most the one of the proxy.\<close>

lemma connect_server_paths:
  assumes "connect_server N p proxy items = (items', added)" "\<And>x. proxy = Some x \<Longrightarrow> device_path x = p"
  shows "map server_path items' = map server_path items \<or>
    p \<notin> server_path ` set items \<and> proxy \<noteq> None \<and> map server_path items' = map server_path items @ [p]"
proof -
  have upd: "map server_path (items[k := (items ! k)\<lparr>specific_data := replace_dbus_proxy x d\<rparr>]) = map server_path items"
    if "find_server p items = Some k" "proxy = Some x" for k x d
    using find_server_Some [OF that(1)] assms(2) [OF that(2)]
    by (metis (no_types, lifting) list_update_id map_update nth_map server_path_def list_item.select_convs(2)
        list_item.surjective list_item.update_convs(2) replace_dbus_proxy_def server_data.select_convs(1)
        server_data.surjective server_data.update_convs(1))
  show ?thesis
    using assms upd unfolding connect_server_def
    by (auto simp: find_server_None append_unsorted_def new_list_item_def init_server_def server_path_def
        split: option.splits if_splits)
qed

lemma connect_server_good:
  assumes "\<not> is_media_server_local N x" "is_media_device_usable x" "device_path x = p"
  shows "\<exists>items'. connect_server N p (Some x) items = (items', True) \<and> p \<in> server_path ` set items'"
proof (cases "find_server p items")
  case (Some k)
  then show ?thesis
    using find_server_Some [OF Some] assms(3) set_update_memI [of k items]
    by (auto simp: connect_server_def server_path_def replace_dbus_proxy_def intro!: image_eqI)
qed (use assms in \<open>simp add: connect_server_def append_unsorted_def new_list_item_def init_server_def server_path_def\<close>)

lemma remove_server:
  assumes "distinct (map server_path items)"
  obtains r i items' where "remove_from_list p items lf = Some (r, i, items', snd (server_lost p lf))"
    "map server_path items' = filter (\<lambda>q. q \<noteq> p) (map server_path items)"
proof (cases "find_server p items")
  case None
  then have "filter (\<lambda>q. q \<noteq> p) (map server_path items) = map server_path items"
    by (intro filter_True) (auto simp: find_server_None)
  then show ?thesis
    using that [of _ invalid_id items] None by (simp add: remove_from_list_def case_prod_beta Let_def)
next
  case (Some k)
  note k = find_server_Some [OF Some]
  have "map server_path (take k items @ drop (Suc k) items) = filter (\<lambda>q. q \<noteq> p) (map server_path items)"
    using take_drop_filter [of "\<lambda>q. q" "map server_path items" k p] assms k by (simp add: take_map drop_map)
  then show ?thesis
    using that [of REMOVED "child (items ! k)" "take k items @ drop (Suc k) items"] Some k
    by (simp add: remove_from_list_def FIXME_remove_def case_prod_beta Let_def)
qed

section \<open>The steps keep the invariant\<close>

lemma found_inv:
  assumes "server_inv present s" "next_serial (lost_found s) \<notin> serial ` set (added_queue (lost_found s) p)"
  shows "server_inv (present(p := True)) (add_to_list begins p s)"
proof -
  obtain d lf where f: "server_found p (lost_found s) = (d, lf)" by fastforce
  note F = server_found_queue [OF f]
  have fresh: "serial d \<notin> serial ` set (added_queue (lost_found s) p)" using assms(2) F(2) by simp
  have "queue_ok True (cancel_last (added_queue (lost_found s) p) @ [d])"
    using assms(1) queue_ok_found [OF _ fresh, of "present p"] by (simp add: server_inv_def)
  moreover have "(p, serial d) \<notin> set (connecting s)" using assms(1) fresh by (auto simp: server_inv_def)
  ultimately show ?thesis
    using assms(1) by (auto simp: server_inv_def add_to_list_def f F(1) serials_cancel_last_set)
qed

lemma lost_inv:
  assumes "server_inv present s" "lose_server p s = Some (s', r, i)"
  shows "server_inv (present(p := False)) s'"
proof -
  have D: "distinct (map server_path (servers s))" using assms(1) by (simp add: server_inv_def)
  obtain r0 i0 items where R: "remove_from_list p (servers s) (lost_found s) = Some (r0, i0, items, snd (server_lost p (lost_found s)))"
    "map server_path items = filter (\<lambda>q. q \<noteq> p) (map server_path (servers s))"
    by (rule remove_server [OF D])
  have s': "s' = s\<lparr>servers := items, lost_found := snd (server_lost p (lost_found s))\<rparr>"
    using assms(2) R(1) by (simp add: lose_server_def)
  have "present (server_path it) \<and> server_path it \<noteq> p" if "it \<in> set items" for it
  proof -
    have "server_path it \<in> set (map server_path items)" using that by simp
    then have "server_path it \<in> server_path ` set (servers s)" "server_path it \<noteq> p" unfolding R(2) by simp_all
    then show ?thesis using assms(1) by (auto simp: server_inv_def)
  qed
  moreover have "distinct (map server_path items)" using D R(2) by simp
  moreover have "queue_ok ((present(p := False)) q) (added_queue (lost_found s') q)" for q
    using assms(1) queue_ok_lost [of "present p"] by (simp add: server_inv_def s' server_lost_queue)
  moreover have "n \<in> serial ` set (added_queue (lost_found s') q)" if "(q, n) \<in> set (connecting s')" for q n
    using assms(1) that by (auto simp: server_inv_def s' server_lost_queue serials_cancel_last_set)
  moreover have "distinct (connecting s')" using assms(1) by (simp add: server_inv_def s')
  ultimately show ?thesis by (auto simp: server_inv_def s')
qed

lemma connected_total:
  assumes "server_inv present s" "(p, n) \<in> set (connecting s)"
  obtains lf where
    "proxy_connected N p n proxy s =
       Some (s\<lparr>servers := fst (connect_server N p proxy (servers s)), lost_found := lf,
               connecting := remove1 (p, n) (connecting s)\<rparr>, snd (connect_server N p proxy (servers s)))"
    "\<And>p'. added_queue lf p' = (if p' = p then filter (\<lambda>d. serial d \<noteq> n) (added_queue (lost_found s) p)
                                else added_queue (lost_found s) p')"
proof -
  have "distinct (map serial (added_queue (lost_found s) p))" "n \<in> serial ` set (added_queue (lost_found s) p)"
    using assms by (auto simp: server_inv_def queue_ok_def)
  then obtain lf where "server_processed p n (lost_found s) = Some lf"
    "\<And>p'. added_queue lf p' = (if p' = p then filter (\<lambda>d. serial d \<noteq> n) (added_queue (lost_found s) p)
                                else added_queue (lost_found s) p')"
    by (rule server_processed_queue) (rule that; assumption)
  then show ?thesis using that [of lf] by (simp add: proxy_connected_def case_prod_beta Let_def)
qed

lemma not_canceled_present:
  assumes "server_inv present s" "(p, n) \<in> set (connecting s)" "\<not> canceled s p n"
  shows "present p"
proof -
  obtain d where "d \<in> set (added_queue (lost_found s) p)" "serial d = n" using assms(1,2) by (auto simp: server_inv_def)
  then have "\<not> is_cancelled d" using assms(3) by (auto simp: canceled_def list_ex_iff)
  then show ?thesis using assms(1) \<open>d \<in> _\<close> by (auto simp: server_inv_def queue_ok_def)
qed

lemma connected_inv:
  assumes I: "server_inv present s" and c: "(p, n) \<in> set (connecting s)"
    and "canceled s p n \<Longrightarrow> proxy = None" "\<And>x. proxy = Some x \<Longrightarrow> device_path x = p"
    and "proxy_connected N p n proxy s = Some (s', added)"
  shows "server_inv present s'"
proof -
  obtain items b where cs: "connect_server N p proxy (servers s) = (items, b)" by fastforce
  obtain lf where lf: "proxy_connected N p n proxy s =
       Some (s\<lparr>servers := items, lost_found := lf, connecting := remove1 (p, n) (connecting s)\<rparr>, b)"
    "\<And>p'. added_queue lf p' = (if p' = p then filter (\<lambda>d. serial d \<noteq> n) (added_queue (lost_found s) p)
                                else added_queue (lost_found s) p')"
    by (rule connected_total [OF I c, of N proxy]) (use cs in auto)
  have s': "s' = s\<lparr>servers := items, lost_found := lf, connecting := remove1 (p, n) (connecting s)\<rparr>"
    using lf(1) assms(5) by simp
  from connect_server_paths [OF cs] assms(4)
  have "map server_path items = map server_path (servers s) \<or>
    p \<notin> server_path ` set (servers s) \<and> proxy \<noteq> None \<and> map server_path items = map server_path (servers s) @ [p]" by blast
  then have "distinct (map server_path items) \<and> (\<forall>q \<in> set (map server_path items). present q)"
  proof (elim disjE conjE)
    assume "map server_path items = map server_path (servers s)"
    then show ?thesis using I by (auto simp: server_inv_def)
  next
    assume n: "p \<notin> server_path ` set (servers s)" "proxy \<noteq> None" "map server_path items = map server_path (servers s) @ [p]"
    then have "present p" using not_canceled_present [OF I c] assms(3) by blast
    then show ?thesis using I n by (auto simp: server_inv_def)
  qed
  moreover have "queue_ok (present q) (added_queue lf q)" for q
    using I queue_ok_filter by (simp add: lf(2) server_inv_def)
  moreover have "m \<in> serial ` set (added_queue lf q)" if "(q, m) \<in> set (remove1 (p, n) (connecting s))" for q m
    using that I by (fastforce simp: lf(2) server_inv_def)
  ultimately show ?thesis using I by (auto simp: server_inv_def s')
qed

lemma server_reach_inv: "server_reach N present s \<Longrightarrow> server_inv present s"
proof (induction rule: server_reach.induct)
  case start
  then show ?case by (simp add: server_inv_def mk_lost_and_found_def added_queue_def queue_ok_def)
next
  case (found present s p begins)
  then show ?case using found_inv by blast
next
  case (lost present s p s' r i)
  then show ?case using lost_inv by blast
next
  case (connected present s p n proxy s' added)
  then show ?case using connected_inv by blast
next
  case (linked present s items)
  have "server_path = (\<lambda>d. device_path (dbus_proxy d)) \<circ> specific_data" by (simp add: fun_eq_iff server_path_def)
  then have "map server_path items = map server_path (servers s)"
    by (metis linked(2) map_map)
  moreover from this have "server_path ` set items = server_path ` set (servers s)" by (metis image_set)
  ultimately show ?case using linked(3) by (auto simp: server_inv_def) (metis imageE image_eqI)
qed

section \<open>What this means\<close>

text \<open>C38: Whatever servers are found and lost and in whatever order their proxies become available,
  no server is listed twice, only servers that are present on the network are listed, losing a
  server removes it and always succeeds, completion of an operation never runs into undefined
  behaviour, and if the operation is for a usable server on another host, the server is listed
  afterwards.\<close>

theorem server_list_mirrors_network:
  assumes "server_reach N present s"
  shows "distinct (map server_path (servers s)) \<and> (\<forall>it \<in> set (servers s). present (server_path it)) \<and>
    (\<forall>p. \<exists>s' r i. lose_server p s = Some (s', r, i) \<and> p \<notin> server_path ` set (servers s')) \<and>
    (\<forall>p n. (p, n) \<in> set (connecting s) \<longrightarrow>
       (\<forall>proxy. proxy_connected N p n proxy s \<noteq> None) \<and> (\<not> canceled s p n \<longrightarrow> present p) \<and>
       (\<forall>x. \<not> is_media_server_local N x \<and> is_media_device_usable x \<and> device_path x = p \<longrightarrow>
         (\<exists>s'. proxy_connected N p n (Some x) s = Some (s', True) \<and> p \<in> server_path ` set (servers s'))))"
proof -
  note I = server_reach_inv [OF assms]
  then have D: "distinct (map server_path (servers s))" by (simp add: server_inv_def)
  have "\<exists>s' r i. lose_server p s = Some (s', r, i) \<and> p \<notin> server_path ` set (servers s')" for p
  proof -
    obtain r i items where R: "remove_from_list p (servers s) (lost_found s) = Some (r, i, items, snd (server_lost p (lost_found s)))"
      "map server_path items = filter (\<lambda>q. q \<noteq> p) (map server_path (servers s))"
      by (rule remove_server [OF D])
    have "p \<notin> set (map server_path items)" unfolding R(2) by simp
    then show ?thesis by (simp add: lose_server_def R(1))
  qed
  moreover have "proxy_connected N p n proxy s \<noteq> None" if "(p, n) \<in> set (connecting s)" for p n proxy
    by (rule connected_total [OF I that, of N proxy]) simp
  moreover have "\<exists>s'. proxy_connected N p n (Some x) s = Some (s', True) \<and> p \<in> server_path ` set (servers s')"
    if "(p, n) \<in> set (connecting s)" "\<not> is_media_server_local N x" "is_media_device_usable x" "device_path x = p" for p n x
    using connect_server_good [OF that(2-4), of "servers s"] by (auto intro: connected_total [OF I that(1), of N "Some x"])
  ultimately show ?thesis using I not_canceled_present [OF I] by (simp add: server_inv_def)
qed

section \<open>A server that is found\<close>

definition sample_network :: network where
  "sample_network = \<lparr>pton = (\<lambda>_. None), ifs = Some []\<rparr>"

definition sample_device :: media_device where
  "sample_device =
     \<lparr>device_path = ''/s/1'', friendly_name = Some ''Media'', model_description = None, model_name = Some ''MediaTomb'',
      model_number = Some ''7'', device_location = Some ''http://10.0.0.1:80/d'', is_media_device_usable = True\<rparr>"

definition sample_servers :: server_list where
  "sample_servers = add_to_list True ''/s/1'' \<lparr>servers = [], lost_found = mk_lost_and_found, connecting = []\<rparr>"

lemma sample_servers_reach: "server_reach sample_network ((\<lambda>_. False)(''/s/1'' := True)) sample_servers"
  unfolding sample_servers_def
  by (rule server_reach.found [OF server_reach.start]) (simp add: mk_lost_and_found_def added_queue_def)

lemma sample_device_name: "server_name (init_server sample_device) = ''Media (MediaTomb 7)''"
  by (simp add: server_name_def init_server_def sample_device_def name_is_ok_def)

lemma server_list_mirrors_network_witness:
  "\<exists>s'. proxy_connected sample_network ''/s/1'' 0 (Some sample_device) sample_servers = Some (s', True) \<and>
     ''/s/1'' \<in> server_path ` set (servers s')"
proof -
  have "(''/s/1'', 0) \<in> set (connecting sample_servers)"
    by (simp add: sample_servers_def add_to_list_def server_found_def mk_lost_and_found_def added_queue_def Let_def)
  moreover have "\<not> is_media_server_local sample_network sample_device" "is_media_device_usable sample_device"
    "device_path sample_device = ''/s/1''"
    by (simp_all add: is_media_server_local_def sample_network_def sample_device_def)
  ultimately show ?thesis
    using server_list_mirrors_network [OF sample_servers_reach] by blast
qed

end
