(* ===== verification/Lost_Child.thy ===== *)
theory Lost_Child
  imports Listtree_Tree
begin

text \<open>
  Purging a list whose item has been removed from its parent before, as both brokers do when a
  server or a device disappears.
\<close>

lemma purge_unlinked_leaf:
  assumes I: "cache_inv L c xs" and e: "lookup c i = Some e" "id_is_valid L i" "parent (objs c e) = Some r"
    and "contents c e = []" "\<not> pinned (objs c e)" and u: "i \<notin> child ` set (contents c r)" "killed_register c = {}"
  shows "\<exists>c'. purge_subtree L gid now i invalid_id None c = Some (c', PURGED) \<and> lookup c' i = None \<and>
    bug_reports c' = bug_reports c + 1 \<and> signals c' = signals c @ [(i, invalid_id)]"
proof -
  let ?cb = "tree_callbacks L gid now :: ('a, 'b) lb_state_scheme lru_callbacks"
  let ?c = "fst (discard ?cb e True c)"
  have id: "cache_id (objs c e) = i" "e \<in> set xs" using lookup_member [OF I e(1)] by auto
  have "enumerate_tree_of_sublists L c e = Some [i]"
    using e assms(5) id(1)
    by (simp add: enumerate_tree_of_sublists_def enumerate_loop.simps direct_sublists_def enumerate_direct_sublists_def)
  moreover have "\<exists>b. toposort_for_purge c [i] = Some ([i], b)"
    using e by (intro exI [of _ "is_leaf (objs c e)"]) (simp add: toposort_for_purge_def Let_def)
  moreover have "purge_entries L ?cb now [i] True c = Some ?c"
    using e assms(6) by simp
  ultimately have "purge_subtree L gid now i invalid_id None c = Some (?c, PURGED)"
    using e by (auto simp: purge_subtree_def purge_plan_def purge_sorted_def)
  moreover have "lookup ?c i = None"
    using lookup_discarded [OF I, of e i] truncate_eqD [OF tree.broker.discard_core(1) [where a = e and n = True and c = c and gid = gid and L = L and now = now]] id(1)
    by (simp add: lookup_def)
  moreover have "obliviate_list_child i (contents c r) (killed_register c) = (contents c r, {}, True)"
    using u by (simp add: obliviate_list_child_def lookup_item_id_None [THEN iffD2] erase_killed_def)
  then have "bug_reports ?c = bug_reports c + 1"
    using discard_tree(3) [where cb = ?cb and L = L and gid = gid and now = now and c = c and e = e and n = True and p = r] e(3) id(1) by auto
  moreover have "signals ?c = signals c @ [(i, invalid_id)]"
    using discard_tree(1) [where cb = ?cb and L = L and gid = gid and now = now and c = c and e = e and n = True] id(1) by simp
  ultimately show ?thesis by blast
qed

lemma child_unlinked:
  assumes "links_distinct L items" "k < length items" "id_is_valid L (child (items ! k))"
  shows "child (items ! k) \<notin> child ` set (take k items @ drop (Suc k) items)"
proof -
  have "items = take k items @ items ! k # drop (Suc k) items" using assms(2) by (simp add: id_take_nth_drop)
  then have "distinct (filter (id_is_valid L) (map child (take k items @ items ! k # drop (Suc k) items)))"
    using assms(1) by (simp add: links_distinct_def enumerate_direct_sublists_def)
  then show ?thesis using assms(3) by (auto simp del: append_take_drop_id)
qed

end
