(* ===== verification/Upnp_Tree_Props.thy ===== *)
theory Upnp_Tree_Props
  imports Upnp_Tree Upnp_Servers_Props Lost_Child
begin

text \<open>
  What happens to the cached list of a server that disappears.
\<close>

lemma put_server_list_simps [simp]:
  "objs (put_server_list s c) = objs c" "lookup (put_server_list s c) i = lookup c i"
  "contents (put_server_list s c) = (contents c)(server_list_at c := servers s)"
  "killed_register (put_server_list s c) = killed_register c" "bug_reports (put_server_list s c) = bug_reports c"
  "cache.truncate (put_server_list s c) = cache.truncate c"
  by (simp_all add: put_server_list_def lookup_def cache.defs)

text \<open>C39: When a server is lost whose root directory has been entered, its list is removed from the
  cache, but the program reports a bug: the item of the server has been removed from the list of
  servers before, so that the item that links to the list is not found, and the register of
  killed lists does not know about it.\<close>

theorem lost_server_reports_bug:
  assumes "cache_inv L c xs" "tree_linked L c xs" "server_list_at c \<in> set xs" "killed_register c = {}"
    and "find_server path (contents c (server_list_at c)) = Some k"
    and "i = child (contents c (server_list_at c) ! k)" "id_is_valid L i" "lookup c i = Some e"
    and "parent (objs c e) = Some (server_list_at c)" "contents c e = []" "\<not> pinned (objs c e)"
  shows "\<exists>c'. remove_servers L gid now [path] False c = Some (c', True) \<and> lookup c' i = None \<and>
    bug_reports c' = bug_reports c + 1"
proof -
  let ?r = "server_list_at c"
  let ?items = "take k (contents c ?r) @ drop (Suc k) (contents c ?r)"
  define s where "s = (get_server_list c)\<lparr>servers := ?items, lost_found := snd (server_lost path (tree_lost_found c))\<rparr>"
  have k: "k < length (contents c ?r)" using find_server_Some [OF assms(5)] by simp
  have lose: "lose_server path (get_server_list c) = Some (s, REMOVED, i)"
    using assms(5,6) k
    by (simp add: lose_server_def remove_from_list_def FIXME_remove_def get_server_list_def case_prod_beta Let_def s_def)
  have e: "e \<noteq> ?r" using k assms(10) by auto
  have "cache_inv L (put_server_list s c) xs" using assms(1) cache_inv_truncate [of "put_server_list s c" c L xs] by simp
  moreover have "i \<notin> child ` set ?items"
    unfolding assms(6) by (rule child_unlinked [OF tree_linkedD(1) [OF assms(2,3)] k]) (use assms(6,7) in simp)
  ultimately obtain c' where "purge_subtree L gid now i invalid_id None (put_server_list s c) = Some (c', PURGED)"
    "lookup c' i = None" "bug_reports c' = bug_reports c + 1"
    using purge_unlinked_leaf [of L "put_server_list s c" xs i e ?r gid now] assms e
    by (auto simp: s_def)
  then show ?thesis using lose assms(7) by simp
qed

definition sample_upnp_tree :: upnp_tree where
  "sample_upnp_tree = \<lparr>objs = sample_heap, id_gen = mk_id_generator 1 (VALUE_MASK sample_layout),
     memory_limits = mk_cache_limits 1000 900 800, count_limits = mk_cache_limits 100 900 800,
     maximum_age_threshold = 15, all_objects = [(1, 10), (2, 20)],
     root_object = Some 10, oldest_object = Some 20, deepest_youngest_object = Some 10,
     pinned_object_id = 0, minimum_required_creation_time = 5, total_size = 30, gc_running = False,
     timeout_source_id = 0, is_enabled = True, sources = [],
     broker = UPNP_BROKER, checks = no_override_table,
     contents = (\<lambda>a. if a = 10 then [\<lparr>child = 2, specific_data = init_server sample_device\<rparr>] else []),
     killed_register = {}, signals = [], bug_reports = 0, pending_list = None, default_cache_mode_request = REQ_AUTO,
     server_list_id = 1, server_list_at = 10, tree_lost_found = mk_lost_and_found, tree_connecting = [],
     media_sizes = (\<lambda>_. 0)\<rparr>"

lemma lost_server_reports_bug_witness:
  "\<exists>c'. remove_servers sample_layout (\<lambda>_. 1) 9 [''/s/1''] False sample_upnp_tree = Some (c', True) \<and>
     lookup c' 2 = None \<and> bug_reports c' = 1"
proof -
  have "cache.truncate sample_upnp_tree = cache.truncate sample_cache"
    by (simp add: sample_upnp_tree_def sample_cache_def cache.defs)
  then have inv: "cache_inv sample_layout sample_upnp_tree [20, 10]" using cache_inv_truncate sample_inv by blast
  have "children_in sample_upnp_tree [20, 10] 10 = {20}" "children_in sample_upnp_tree [20, 10] 20 = {}"
    by (auto simp: children_in_def sample_upnp_tree_def sample_heap_def)
  then have linked: "tree_linked sample_layout sample_upnp_tree [20, 10]"
    unfolding tree_linked_def using sample_valid
    by (auto simp: links_distinct_def enumerate_direct_sublists_def sample_upnp_tree_def sample_heap_def)
  have at: "server_list_at sample_upnp_tree = 10" "killed_register sample_upnp_tree = {}" "bug_reports sample_upnp_tree = 0"
    by (simp_all add: sample_upnp_tree_def)
  have "find_server ''/s/1'' (contents sample_upnp_tree 10) = Some 0" "child (contents sample_upnp_tree 10 ! 0) = 2"
    "contents sample_upnp_tree 20 = []"
    by (simp_all add: sample_upnp_tree_def find_server_def server_path_def init_server_def sample_device_def)
  moreover have "lookup sample_upnp_tree 2 = Some 20" "parent (objs sample_upnp_tree 20) = Some 10"
    "\<not> pinned (objs sample_upnp_tree 20)"
    by (simp_all add: sample_upnp_tree_def lookup_def sample_heap_def)
  ultimately show ?thesis
    using lost_server_reports_bug [OF inv linked, where path = "''/s/1''" and k = 0 and i = 2 and e = 20
        and gid = "\<lambda>_. 1" and now = 9] sample_valid at by simp
qed

end
