(* ===== verification/Upnp_Media.thy ===== *)
theory Upnp_Media
  imports Upnp_Tree
begin

text \<open>
  The functions of the UPnP list tree that read media lists (\<^verbatim>\<open>src/dlna/upnp_listtree.cc\<close>,
  \<^verbatim>\<open>upnp_list.cc\<close>, \<^verbatim>\<open>upnp_list.hh\<close>): the list of servers is a flat list of the tree, the items of
  all other lists are in the tiles of the pool that is passed along. \<open>None\<close> is a reader that
  blocks forever or undefined behaviour, the left case of a result is an exception; \<open>run\<close> is what
  the worker threads do while the reader waits.
\<close>

type_synonym media_pool = "upnp_item tile_pool"

section \<open>Items of media lists\<close>

definition media_list_at ::
  "ctx_layout \<Rightarrow> upnp_env \<Rightarrow> (media_pool \<Rightarrow> media_pool) \<Rightarrow> addr \<Rightarrow> list_id \<Rightarrow> nat \<Rightarrow> media_pool \<Rightarrow>
   (media_pool \<times> (list_error + upnp_item list_item)) option" where
  "media_list_at L W run e i idx p =
     tiled_list_at L reset_upnp_item media_list_tile_size (upnp_fill W) run e i idx p"

text \<open>All child lists that the items in the tiles link to; the fuel is as for \<open>find_child\<close>.\<close>

fun media_sublists_loop ::
  "nat \<Rightarrow> ctx_layout \<Rightarrow> (media_pool \<Rightarrow> media_pool) \<Rightarrow> addr \<Rightarrow> tile_iter \<Rightarrow> media_pool \<Rightarrow> list_id list \<Rightarrow>
   (media_pool \<times> (list_error + list_id list)) option" where
  "media_sublists_loop 0 L run l it p nodes = None"
| "media_sublists_loop (Suc fuel) L run l it p nodes =
     (if which_tile it = None \<and> iter_idx it = 0 then Some (p, Inr nodes)
      else (case iter_deref run l it p of
              None \<Rightarrow> None
            | Some (p1, Inl err) \<Rightarrow> Some (p1, Inl err)
            | Some (p1, Inr item) \<Rightarrow>
                let nodes1 = (if id_is_valid L (child item) then nodes @ [child item] else nodes)
                in (case iter_next run l it p1 of
                      None \<Rightarrow> None
                    | Some (Inl err) \<Rightarrow> Some (p1, Inl err)
                    | Some (Inr (p2, it')) \<Rightarrow> media_sublists_loop fuel L run l it' p2 nodes1)))"

definition media_direct_sublists ::
  "ctx_layout \<Rightarrow> (media_pool \<Rightarrow> media_pool) \<Rightarrow> addr \<Rightarrow> media_pool \<Rightarrow> (media_pool \<times> (list_error + list_id list)) option" where
  "media_direct_sublists L run l p =
     (case tiles_begin run l p of
        None \<Rightarrow> None
      | Some (p1, it) \<Rightarrow> media_sublists_loop (maximum_number_of_hot_items media_list_tile_size + 1) L run l it p1 [])"

text \<open>Changing an item that is in the center tile.\<close>

definition obliviate_in_center :: "addr \<Rightarrow> nat \<Rightarrow> media_pool \<Rightarrow> media_pool option" where
  "obliviate_in_center l idx p =
     (case active p l CENTER of
        None \<Rightarrow> None
      | Some k \<Rightarrow>
          let t = tiles p (l, k); i = u32_wrap (idx + 2 ^ 32 - base t) mod 2 ^ 16
          in if i < length (items t)
             then Some (p\<lparr>tiles := (tiles p)((l, k) := t\<lparr>items := (items t)[i := obliviate_item (items t ! i)]\<rparr>)\<rparr>)
             else None)"

text \<open>The item is looked up and then accessed by its index; the result tells whether a bug is reported.\<close>

definition media_obliviate_child ::
  "ctx_layout \<Rightarrow> upnp_env \<Rightarrow> (media_pool \<Rightarrow> media_pool) \<Rightarrow> addr \<Rightarrow> list_id \<Rightarrow> list_id \<Rightarrow> media_pool \<Rightarrow>
   (media_pool \<times> (list_error + bool)) option" where
  "media_obliviate_child L W run e i child_id p =
     (case tiled_lookup_child run media_list_tile_size e child_id p of
        None \<Rightarrow> None
      | Some (p1, Inl err) \<Rightarrow> Some (p1, Inl err)
      | Some (p1, Inr (Some (_, idx))) \<Rightarrow>
          (case media_list_at L W run e i idx p1 of
             None \<Rightarrow> None
           | Some (p2, Inl err) \<Rightarrow> Some (p2, Inl err)
           | Some (p2, Inr _) \<Rightarrow> map_option (\<lambda>p3. (p3, Inr False)) (obliviate_in_center e idx p2))
      | Some (p1, Inr None) \<Rightarrow>
          let (ks, found) = erase_killed child_id (pool_killed p1)
          in Some (p1\<lparr>pool_killed := ks\<rparr>, Inr (\<not> found)))"

text \<open>
  \<^verbatim>\<open>get_dbus_object_path()\<close> of a media list: the path of the item of its parent that links to it.
\<close>

definition media_dbus_object_path ::
  "(media_pool \<Rightarrow> media_pool) \<Rightarrow> addr \<Rightarrow> upnp_tree \<Rightarrow> media_pool \<Rightarrow> (media_pool \<times> (list_error + string)) option" where
  "media_dbus_object_path run e c p =
     (case parent (objs c e) of
        None \<Rightarrow> None
      | Some q \<Rightarrow>
          if parent (objs c q) \<noteq> None
          then (case tiled_lookup_child run media_list_tile_size q (cache_id (objs c e)) p of
                  Some (p1, Inr (Some (item, _))) \<Rightarrow> Some (p1, Inr (dbus_path (specific_data item)))
                | Some (p1, Inl err) \<Rightarrow> Some (p1, Inl err)
                | _ \<Rightarrow> None)
          else map_option (\<lambda>it. (p, Inr (server_path it))) (lookup_child_by_id (cache_id (objs c e)) (contents c q)))"

section \<open>The list tree\<close>

datatype upnp_kind = SERVER_KIND | ITEM_KIND item_kind

definition upnp_get_root_list_title :: i18n where
  "upnp_get_root_list_title = \<lparr>i18n_text = ''All UPnP servers'', is_subject_to_translation = True\<rparr>"

definition upnp_for_each_context :: "(string \<Rightarrow> string \<Rightarrow> bool \<Rightarrow> 'b) \<Rightarrow> 'b" where
  "upnp_for_each_context callback = callback ''upnp'' ''UPnP A/V'' True"

text \<open>\<open>is_dir\<close> is \<^verbatim>\<open>ListItemKind::is_directory()\<close>.\<close>

definition upnp_get_child_list_title ::
  "ctx_layout \<Rightarrow> upnp_env \<Rightarrow> (media_pool \<Rightarrow> media_pool) \<Rightarrow> (upnp_kind \<Rightarrow> bool) \<Rightarrow> list_id \<Rightarrow> nat \<Rightarrow> upnp_tree \<Rightarrow> media_pool \<Rightarrow>
   (media_pool \<times> (list_error + i18n)) option" where
  "upnp_get_child_list_title L W run is_dir i item c p =
     (if i = server_list_id c
      then map_option (\<lambda>t. (p, Inr t))
             (get_dynamic_title L (\<lambda>_. is_dir SERVER_KIND) (\<lambda>d. Some (server_name d)) i item c)
      else case lookup_list L i c of
        None \<Rightarrow> Some (p, Inr untranslated)
      | Some e \<Rightarrow>
          map_option
            (\<lambda>(p1, r). (p1, map_sum (\<lambda>err. err)
               (\<lambda>it. if is_dir (ITEM_KIND (kind (specific_data it)))
                     then \<lparr>i18n_text = display_name_utf8 (specific_data it), is_subject_to_translation = False\<rparr>
                     else untranslated) r))
            (media_list_at L W run e i item p))"

definition upnp_for_each ::
  "ctx_layout \<Rightarrow> upnp_env \<Rightarrow> (media_pool \<Rightarrow> media_pool) \<Rightarrow> list_id \<Rightarrow> nat \<Rightarrow> nat \<Rightarrow>
   (string \<times> upnp_kind \<Rightarrow> 'b \<Rightarrow> 'b \<times> bool) \<Rightarrow> 'b \<Rightarrow> upnp_tree \<Rightarrow> media_pool \<Rightarrow> (media_pool \<times> 'b \<times> list_error) option" where
  "upnp_for_each L W run i first count f acc c p =
     (if i = server_list_id c
      then map_option (Pair p) (list_for_each L (\<lambda>d. Some (server_name d, SERVER_KIND)) i first count f acc c)
      else for_each_item_tiled L reset_upnp_item media_list_tile_size (upnp_fill W) run (lookup_list L i c) i first count
             (\<lambda>_ it. f (display_name_utf8 (specific_data it), ITEM_KIND (kind (specific_data it)))) p acc)"

text \<open>The index is not touched (\<open>i0\<close>) for the root, and if there is no link.\<close>

definition upnp_get_parent_link ::
  "ctx_layout \<Rightarrow> (media_pool \<Rightarrow> media_pool) \<Rightarrow> list_id \<Rightarrow> nat \<Rightarrow> upnp_tree \<Rightarrow> media_pool \<Rightarrow>
   (media_pool \<times> (list_error + list_id \<times> nat)) option" where
  "upnp_get_parent_link L run i i0 c p =
     (case lookup_list L i c of
        None \<Rightarrow> Some (p, Inr (invalid_id, i0))
      | Some e \<Rightarrow>
          (case parent (objs c e) of
             None \<Rightarrow> Some (p, Inr (i, i0))
           | Some q \<Rightarrow>
               let link = (\<lambda>k. case k of None \<Rightarrow> (invalid_id, i0) | Some n \<Rightarrow> (cache_id (objs c q), n))
               in if cache_id (objs c q) = server_list_id c
                  then Some (p, Inr (link (lookup_item_id_by_child_id i (contents c q))))
                  else map_option (\<lambda>(p1, r). (p1, map_sum (\<lambda>err. err) (\<lambda>k. link (map_option snd k)) r))
                         (tiled_lookup_child run media_list_tile_size q i p)))"

text \<open>What \<^verbatim>\<open>MediaList::enter_child()\<close> adds to the cache for an item.\<close>

definition enter_container ::
  "ctx_layout \<Rightarrow> ((nat \<times> nat) list \<Rightarrow> nat) \<Rightarrow> time_point \<Rightarrow> addr \<Rightarrow> (string \<Rightarrow> u32) \<Rightarrow> nat \<Rightarrow> addr \<Rightarrow>
   upnp_item list_item \<Rightarrow> upnp_tree \<Rightarrow> (upnp_tree \<times> list_id \<times> list_error) option" where
  "enter_container L gid now e get_size_of_container size_of_list lst it c =
     (let i = cache_id (objs c lst);
          c1 = c\<lparr>media_sizes := (media_sizes c)(e := unat (get_size_of_container (dbus_path (specific_data it))))\<rparr>
      in do {
           (c2, new_id) \<leftarrow> add_child_list_to_cache L gid now e i (to_cache_mode (default_cache_mode_request c)) (get_context L i)
                             size_of_list c1;
           Some (c2, new_id, ERR_OK)
         })"

section \<open>Locations\<close>

text \<open>The functions for locations are not implemented; those that make locations leave the error alone.\<close>

definition upnp_can_handle_strbo_url :: "string \<Rightarrow> bool" where
  "upnp_can_handle_strbo_url u = False"

definition upnp_realize_strbo_url :: "string \<Rightarrow> 's \<Rightarrow> (realize_url_result \<times> list_error) \<times> 's" where
  "upnp_realize_strbo_url u s = ((mk_realize_url_result, ERR_INTERNAL), s)"

definition upnp_get_location_key :: "list_id \<Rightarrow> u32 \<Rightarrow> bool \<Rightarrow> 's \<Rightarrow> string option \<times> list_error" where
  "upnp_get_location_key i pos as_reference_key s = (None, ERR_OK)"

definition upnp_get_location_trace :: "list_id \<Rightarrow> u32 \<Rightarrow> list_id \<Rightarrow> u32 \<Rightarrow> 's \<Rightarrow> string option \<times> list_error" where
  "upnp_get_location_trace i pos ref_i ref_pos s = (None, ERR_OK)"

text \<open>So a client that asks for a location key gets an empty text and no error.\<close>

lemma location_key_without_error:
  assumes "get_location_key T = upnp_get_location_key" "id_is_valid L i" "\<not> (as_reference_key \<and> pos = 0)"
  shows "handle_get_location_key L T i pos as_reference_key s = (Reply (Location_key_reply ERR_OK []), s)"
  using assms by (simp add: handle_get_location_key_def upnp_get_location_key_def location_text_def)

end
