(* ===== verification/Usb_Lists.thy ===== *)
theory Usb_Lists
  imports Child_Lists "HOL-Library.List_Lexorder" "HOL-Library.Char_ord"
begin

text \<open>
  The lists of the USB broker (\<^verbatim>\<open>src/usb/usb_list.cc\<close>, \<^verbatim>\<open>usb_list.hh\<close>): the list of devices,
  the volumes of a device, and directories. A list is a flat list of items of one of the three
  kinds; a cast to another kind is undefined behaviour (\<open>None\<close>). What the system says about
  mounted devices and the contents of directories are parameters.
\<close>

section \<open>Items\<close>

datatype usb_kind = K_OPAQUE | K_DIRECTORY | K_REGULAR_FILE | K_STORAGE_DEVICE | K_LOGOUT_LINK

record volume_info =
  number :: u32
  volume_name_utf8 :: string
  mountpoint_path :: string

record device_data =
  dev_id :: u16
  device_name :: string
  usb_port :: string
  volumes :: "volume_info list"

definition mk_device :: "u16 \<Rightarrow> string \<Rightarrow> string \<Rightarrow> device_data" where
  "mk_device i name port = \<lparr>dev_id = i, device_name = name, usb_port = port, volumes = []\<rparr>"

record volume_data =
  volume_device_id :: u16
  volume_number :: u32

record file_data =
  file_name :: string
  file_kind :: usb_kind

datatype usb_data = Device device_data | Volume volume_data | File file_data

section \<open>Volumes of a device\<close>

text \<open>\<^verbatim>\<open>std::lower_bound()\<close> on the volumes, which are sorted by their numbers.\<close>

definition lower_bound :: "u32 \<Rightarrow> volume_info list \<Rightarrow> nat" where
  "lower_bound n vs = length (takeWhile (\<lambda>v. number v < n) vs)"

text \<open>The index is \<open>None\<close> for the value \<^verbatim>\<open>SIZE_MAX\<close>.\<close>

definition add_volume ::
  "u32 \<Rightarrow> string \<Rightarrow> string \<Rightarrow> device_data \<Rightarrow> bool \<times> nat option \<times> device_data" where
  "add_volume vol_id name path d =
     (let k = lower_bound vol_id (volumes d)
      in if k = length (volumes d) \<or> vol_id < number (volumes d ! k)
         then (True, Some k,
               d\<lparr>volumes := take k (volumes d) @
                   \<lparr>number = vol_id, volume_name_utf8 = name, mountpoint_path = path\<rparr> # drop k (volumes d)\<rparr>)
         else (False, None, d))"

definition fill_volume_list :: "device_data \<Rightarrow> usb_data flat_list" where
  "fill_volume_list d =
     map (\<lambda>v. new_list_item (Volume \<lparr>volume_device_id = dev_id d, volume_number = number v\<rparr>)) (volumes d)"

text \<open>The volume that is found need not be the one that was looked for.\<close>

definition lookup_existing_volume_info :: "u32 \<Rightarrow> device_data \<Rightarrow> volume_info option" where
  "lookup_existing_volume_info n d =
     (let k = lower_bound n (volumes d) in if k < length (volumes d) then Some (volumes d ! k) else None)"

definition get_volume_name :: "u32 \<Rightarrow> device_data \<Rightarrow> string option" where
  "get_volume_name n d = map_option volume_name_utf8 (lookup_existing_volume_info n d)"

definition get_volume_mountpoint :: "u32 \<Rightarrow> device_data \<Rightarrow> string option" where
  "get_volume_mountpoint n d = map_option mountpoint_path (lookup_existing_volume_info n d)"

section \<open>The list of devices\<close>

definition is_device :: "(device_data \<Rightarrow> bool) \<Rightarrow> usb_data list_item \<Rightarrow> bool" where
  "is_device P it = (case specific_data it of Device d \<Rightarrow> P d | _ \<Rightarrow> False)"

text \<open>\<^verbatim>\<open>get_device_by_id()\<close> and \<^verbatim>\<open>get_device_by_name()\<close>: the index and the data of the device.\<close>

definition get_device_by_x :: "(device_data \<Rightarrow> bool) \<Rightarrow> usb_data flat_list \<Rightarrow> (nat \<times> device_data) option" where
  "get_device_by_x P xs =
     (case index_of (is_device P) xs of
        None \<Rightarrow> None
      | Some k \<Rightarrow> (case specific_data (xs ! k) of Device d \<Rightarrow> Some (k, d) | _ \<Rightarrow> None))"

definition get_device_by_id :: "u16 \<Rightarrow> usb_data flat_list \<Rightarrow> (nat \<times> device_data) option" where
  "get_device_by_id i = get_device_by_x (\<lambda>d. dev_id d = i)"

definition get_device_by_name :: "string \<Rightarrow> usb_data flat_list \<Rightarrow> (nat \<times> device_data) option" where
  "get_device_by_name name = get_device_by_x (\<lambda>d. device_name d = name)"

definition put_device :: "nat \<Rightarrow> device_data \<Rightarrow> usb_data flat_list \<Rightarrow> usb_data flat_list" where
  "put_device k d xs = xs[k := (xs ! k)\<lparr>specific_data := Device d\<rparr>]"

definition device_add_to_list :: "u16 \<Rightarrow> string \<Rightarrow> string \<Rightarrow> usb_data flat_list \<Rightarrow> bool \<times> usb_data flat_list" where
  "device_add_to_list i name port xs =
     (if list_ex (is_device (\<lambda>d. dev_id d = i)) xs then (False, xs)
      else (True, append_unsorted (new_list_item (Device (mk_device i name port))) xs))"

definition device_remove_from_list :: "u16 \<Rightarrow> usb_data flat_list \<Rightarrow> (bool \<times> list_id \<times> usb_data flat_list) option" where
  "device_remove_from_list i xs =
     (case get_device_by_id i xs of
        None \<Rightarrow> Some (False, invalid_id, xs)
      | Some (k, _) \<Rightarrow> do { (xs', child_id) \<leftarrow> FIXME_remove k xs; Some (True, child_id, xs') })"

text \<open>
  What MounTA knows at the start: devices with ID, name and port, and volumes with number, label,
  mount point and device ID. The loop over the volumes remembers the current device and its ID.
\<close>

type_synonym mounta_device = "u16 \<times> string \<times> string"
type_synonym mounta_volume = "u32 \<times> string \<times> string \<times> u16"

fun fill_devices :: "mounta_device list \<Rightarrow> bool \<Rightarrow> usb_data flat_list \<Rightarrow> bool \<times> usb_data flat_list" where
  "fill_devices [] list_changed xs = (list_changed, xs)"
| "fill_devices ((i, name, port) # ds) list_changed xs =
     (let (added, xs') = device_add_to_list i name port xs
      in fill_devices ds (if added then True else list_changed) xs')"

definition add_volume_at :: "nat \<Rightarrow> u32 \<Rightarrow> string \<Rightarrow> string \<Rightarrow> usb_data flat_list \<Rightarrow> usb_data flat_list" where
  "add_volume_at k n label path xs =
     (case specific_data (xs ! k) of
        Device d \<Rightarrow> put_device k (snd (snd (add_volume n label path d))) xs
      | _ \<Rightarrow> xs)"

fun fill_volumes :: "mounta_volume list \<Rightarrow> u16 \<Rightarrow> nat option \<Rightarrow> usb_data flat_list \<Rightarrow> usb_data flat_list" where
  "fill_volumes [] cur_id cur xs = xs"
| "fill_volumes ((n, label, path, i) # vs) cur_id cur xs =
     (if i = 0 then fill_volumes vs cur_id cur xs
      else
        let (cur_id', cur') =
              (if i \<noteq> cur_id
               then case get_device_by_id i xs of None \<Rightarrow> (0, None) | Some (k, _) \<Rightarrow> (i, Some k)
               else (cur_id, cur))
        in fill_volumes vs cur_id' cur' (case cur' of None \<Rightarrow> xs | Some k \<Rightarrow> add_volume_at k n label path xs))"

definition fill_list_from_mounta_data ::
  "mounta_device list \<Rightarrow> mounta_volume list \<Rightarrow> usb_data flat_list \<Rightarrow> bool \<times> usb_data flat_list" where
  "fill_list_from_mounta_data ds vs xs =
     (let (list_changed, xs') = fill_devices ds False xs in (list_changed, fill_volumes vs 0 None xs'))"

section \<open>Directories\<close>

datatype dirent_type = DT_DIR | DT_REG | DT_OTHER

definition collect_all_names :: "string \<times> dirent_type \<Rightarrow> string list \<times> string list \<Rightarrow> string list \<times> string list" where
  "collect_all_names entry data =
     (case (entry, data) of
        ((path, DT_DIR), (directories, files)) \<Rightarrow> (directories @ [path], files)
      | ((path, DT_REG), (directories, files)) \<Rightarrow> (directories, files @ [path])
      | _ \<Rightarrow> data)"

text \<open>
  \<open>entries\<close> is what \<^verbatim>\<open>os_foreach_in_path()\<close> finds, \<open>None\<close> if it fails; \<^verbatim>\<open>std::sort()\<close> on strings
  is the order of their bytes.
\<close>

definition fill_from_file_system :: "(string \<times> dirent_type) list option \<Rightarrow> usb_data flat_list \<Rightarrow> usb_data flat_list option" where
  "fill_from_file_system entries xs =
     (case entries of
        None \<Rightarrow> None
      | Some es \<Rightarrow>
          let (directories, files) = fold collect_all_names es ([], [])
          in Some (xs @
               map (\<lambda>n. new_list_item (File \<lparr>file_name = n, file_kind = K_DIRECTORY\<rparr>)) (sort directories) @
               map (\<lambda>n. new_list_item (File \<lparr>file_name = n, file_kind = K_REGULAR_FILE\<rparr>)) (sort files)))"

section \<open>Facts\<close>

definition volumes_sorted :: "device_data \<Rightarrow> bool" where
  "volumes_sorted d \<longleftrightarrow> sorted_wrt (<) (map number (volumes d))"

lemma lower_bound_le: "lower_bound n vs \<le> length vs"
  unfolding lower_bound_def by (rule length_takeWhile_le)

lemma lower_bound_split:
  assumes "sorted_wrt (<) (map number vs)"
  shows "\<forall>v \<in> set (take (lower_bound n vs) vs). number v < n"
    and "\<forall>v \<in> set (drop (lower_bound n vs) vs). n \<le> number v"
proof -
  show "\<forall>v \<in> set (take (lower_bound n vs) vs). number v < n"
    unfolding lower_bound_def by (simp add: takeWhile_eq_take [symmetric]) (auto dest: set_takeWhileD)
  have "drop (lower_bound n vs) vs = dropWhile (\<lambda>v. number v < n) vs"
    by (simp add: lower_bound_def dropWhile_eq_drop)
  moreover have "\<forall>v \<in> set (dropWhile (\<lambda>v. number v < n) vs). n \<le> number v"
    using assms by (induction vs) auto
  ultimately show "\<forall>v \<in> set (drop (lower_bound n vs) vs). n \<le> number v" by simp
qed

text \<open>A volume can be added unless there is one with its number; the volumes remain sorted.\<close>

lemma add_volume_cases [consumes 1, case_names added known]:
  assumes "volumes_sorted d"
  obtains (added) k where "add_volume n name path d =
      (True, Some k, d\<lparr>volumes := take k (volumes d) @ \<lparr>number = n, volume_name_utf8 = name, mountpoint_path = path\<rparr> #
         drop k (volumes d)\<rparr>)"
    "k = lower_bound n (volumes d)" "n \<notin> number ` set (volumes d)"
  | (known) "add_volume n name path d = (False, None, d)" "n \<in> number ` set (volumes d)"
proof -
  let ?k = "lower_bound n (volumes d)"
  note S = lower_bound_split [OF assms [unfolded volumes_sorted_def], of n]
  have split: "set (volumes d) = set (take ?k (volumes d)) \<union> set (drop ?k (volumes d))"
    by (metis append_take_drop_id set_append)
  show thesis
  proof (cases "?k = length (volumes d) \<or> n < number (volumes d ! ?k)")
    case True
    have "n < number v" if "v \<in> set (drop ?k (volumes d))" for v
    proof -
      have k: "?k < length (volumes d)" using that by (cases "?k < length (volumes d)") auto
      then have "drop ?k (volumes d) = volumes d ! ?k # drop (Suc ?k) (volumes d)" by (simp add: Cons_nth_drop_Suc)
      moreover have "sorted_wrt (<) (map number (drop ?k (volumes d)))"
        using assms unfolding volumes_sorted_def drop_map [symmetric] by (rule sorted_wrt_drop)
      ultimately show ?thesis using True k that by auto
    qed
    then have "n \<notin> number ` set (volumes d)" unfolding split using S(1) by (auto simp: image_iff)
    then show ?thesis using added [of ?k] True by (simp add: add_volume_def Let_def)
  next
    case False
    then have k: "?k < length (volumes d)" using lower_bound_le [of n "volumes d"] by linarith
    then have "volumes d ! ?k \<in> set (drop ?k (volumes d))" by (metis Cons_nth_drop_Suc list.set_intros(1))
    then have "number (volumes d ! ?k) = n" using S(2) False by force
    then have "n \<in> number ` set (volumes d)" using k nth_mem by (metis image_eqI)
    then show ?thesis using known False by (simp add: add_volume_def Let_def)
  qed
qed

lemma add_volume_sorted:
  assumes "volumes_sorted d"
  shows "volumes_sorted (snd (snd (add_volume n name path d)))"
  using assms
proof (cases rule: add_volume_cases [where n = n and name = name and path = path])
  case (added k)
  note S = lower_bound_split [OF assms [unfolded volumes_sorted_def], of n]
  have "sorted_wrt (<) (map number (take k (volumes d) @ drop k (volumes d)))"
    using assms by (simp add: volumes_sorted_def)
  moreover have "n < number v" if "v \<in> set (drop k (volumes d))" for v
    using S(2) that added(2,3) in_set_dropD [OF that] by (metis image_eqI order_le_less)
  ultimately show ?thesis
    using S(1) added(1,2) by (auto simp: volumes_sorted_def sorted_wrt_append simp del: append_take_drop_id)
qed (use assms in simp)

lemma lookup_volume:
  assumes "volumes_sorted d" "v \<in> set (volumes d)"
  shows "lookup_existing_volume_info (number v) d = Some v"
proof -
  let ?k = "lower_bound (number v) (volumes d)"
  note S = lower_bound_split [OF assms(1) [unfolded volumes_sorted_def], of "number v"]
  have v: "v \<in> set (drop ?k (volumes d))"
    using assms(2) S(1) by (metis UnE append_take_drop_id less_irrefl set_append)
  then have k: "?k < length (volumes d)" by (cases "?k < length (volumes d)") auto
  have d: "drop ?k (volumes d) = volumes d ! ?k # drop (Suc ?k) (volumes d)" using k by (simp add: Cons_nth_drop_Suc)
  have "sorted_wrt (<) (map number (drop ?k (volumes d)))"
    using assms(1) unfolding volumes_sorted_def drop_map [symmetric] by (rule sorted_wrt_drop)
  then have "volumes d ! ?k = v" using v S(2) unfolding d by auto
  then show ?thesis using k by (simp add: lookup_existing_volume_info_def Let_def)
qed

end
