(* ===== verification/Usb_Tree.thy ===== *)
theory Usb_Tree
  imports Usb_Lists Url_String
begin

text \<open>
  The list tree of the USB broker (\<^verbatim>\<open>src/usb/usb_listtree.cc\<close>, \<^verbatim>\<open>usb_listtree.hh\<close>), the paths
  of files (\<^verbatim>\<open>usb_helpers.cc\<close>) and the signals of MounTA (\<^verbatim>\<open>dbus_mounta_handlers.cc\<close>). The
  root list holds the devices, their children are the lists of volumes, all others are directories.
  Log messages are left out; reports of bugs are counted where the tree is changed by a signal or by
  entering a list, not while devices are read at the start and not for lookups.
\<close>

record usb_tree = "usb_data lb_state" +
  devices_list_id :: list_id

text \<open>
  What the operations get from outside: the layout of IDs, the source IDs of timers, the time, the
  address of the next object, the files of a directory (\<open>None\<close> is an error), the sizes of list
  objects, whether to go on, and \<^verbatim>\<open>ListItemKind::is_directory()\<close>.
\<close>

record usb_env =
  env_layout :: ctx_layout
  env_gid :: "(nat \<times> nat) list \<Rightarrow> nat"
  env_now :: time_point
  env_fresh :: "usb_tree \<Rightarrow> addr"
  env_entries :: "string \<Rightarrow> (string \<times> dirent_type) list option"
  env_size_of_volume_list :: nat
  env_size_of_dir_list :: nat
  env_may_continue :: bool
  env_is_directory :: "usb_kind \<Rightarrow> bool"

definition get_list_of_usb_devices :: "ctx_layout \<Rightarrow> usb_tree \<Rightarrow> addr option" where
  "get_list_of_usb_devices L c = lookup_list L (devices_list_id c) c"

definition usb_init :: "usb_env \<Rightarrow> usb_tree \<Rightarrow> usb_tree option" where
  "usb_init E c =
     do {
       (c1, i) \<leftarrow> allocate_blessed_list (env_layout E) (env_gid E) (env_now E) (env_fresh E c) None 0 0 True c;
       Some (c1\<lparr>devices_list_id := i\<rparr>)
     }"

definition reinsert_device_list :: "ctx_layout \<Rightarrow> usb_tree \<Rightarrow> usb_tree option" where
  "reinsert_device_list L c =
     do { (c1, i) \<leftarrow> reinsert_list L (devices_list_id c) c; Some (c1\<lparr>devices_list_id := i\<rparr>) }"

text \<open>The answer of MounTA is \<open>None\<close> if there was an error.\<close>

definition init_from_mounta ::
  "(mounta_device list \<times> mounta_volume list) option \<Rightarrow> usb_data flat_list \<Rightarrow> bool \<times> usb_data flat_list" where
  "init_from_mounta answer xs =
     (case answer of None \<Rightarrow> (False, xs) | Some (ds, vs) \<Rightarrow> fill_list_from_mounta_data ds vs xs)"

definition set_items :: "addr \<Rightarrow> usb_data flat_list \<Rightarrow> usb_tree \<Rightarrow> usb_tree" where
  "set_items e xs c = c\<lparr>contents := (contents c)(e := xs)\<rparr>"

definition usb_pre_main_loop ::
  "ctx_layout \<Rightarrow> (mounta_device list \<times> mounta_volume list) option \<Rightarrow> usb_tree \<Rightarrow> usb_tree option" where
  "usb_pre_main_loop L answer c =
     (let c1 = announce_root_list L (devices_list_id c) c
      in do {
           e \<leftarrow> lookup_list L (devices_list_id c1) c1;
           let (list_changed, xs) = init_from_mounta answer (contents c1 e);
           (if list_changed then reinsert_device_list L (set_items e xs c1) else Some (set_items e xs c1))
         })"

text \<open>
  The list of volumes that has been entered already gets the new volume and a new ID. The reference
  to the item of the device remains valid.
\<close>

definition reinsert_volume_list :: "ctx_layout \<Rightarrow> u16 \<Rightarrow> u32 \<Rightarrow> nat \<Rightarrow> usb_tree \<Rightarrow> usb_tree option" where
  "reinsert_volume_list L device_id n added_at_index c =
     (case get_list_of_usb_devices L c of
        None \<Rightarrow> Some (c\<lparr>bug_reports := bug_reports c + 1\<rparr>)
      | Some r \<Rightarrow>
          (case get_device_by_id device_id (contents c r) of
             None \<Rightarrow> Some (c\<lparr>bug_reports := bug_reports c + 1\<rparr>)
           | Some (k, _) \<Rightarrow>
               (case lookup_list L (child (contents c r ! k)) c of
                  None \<Rightarrow> Some c
                | Some e \<Rightarrow>
                    let vol = new_list_item (Volume \<lparr>volume_device_id = device_id, volume_number = n\<rparr>);
                        c1 = set_items e (flat_insert_before added_at_index vol (contents c e)) c;
                        c2 = set_items r ((contents c1 r)[k := obliviate_item (contents c1 r ! k)]) c1
                    in do {
                         (c3, i) \<leftarrow> reinsert_list L (cache_id (objs c2 e)) c2;
                         Some (set_child_at r k i c3)
                       })))"

definition purge_device_subtree_and_reinsert_device_list ::
  "ctx_layout \<Rightarrow> ((nat \<times> nat) list \<Rightarrow> nat) \<Rightarrow> time_point \<Rightarrow> list_id \<Rightarrow> usb_tree \<Rightarrow> usb_tree option" where
  "purge_device_subtree_and_reinsert_device_list L gid now volume_list c =
     do {
       c1 \<leftarrow> (if id_is_valid L volume_list
              then map_option fst (purge_subtree L gid now volume_list invalid_id None c) else Some c);
       reinsert_device_list L c1
     }"

section \<open>Signals of MounTA\<close>

datatype mounta_signal =
    DeviceRemoved u16
  | NewUSBDevice u16 string string
  | NewVolume u32 string string u16
  | DeviceWillBeRemoved
  | UnknownSignal

text \<open>\<open>None\<close> is undefined behaviour (there is no list of devices).\<close>

definition mounta_signal_handler ::
  "ctx_layout \<Rightarrow> ((nat \<times> nat) list \<Rightarrow> nat) \<Rightarrow> time_point \<Rightarrow> mounta_signal \<Rightarrow> usb_tree \<Rightarrow> usb_tree option" where
  "mounta_signal_handler L gid now sig c =
     (case sig of
        DeviceRemoved device_id \<Rightarrow> do {
          r \<leftarrow> get_list_of_usb_devices L c;
          (removed, removed_list_id, xs) \<leftarrow> device_remove_from_list device_id (contents c r);
          (if removed then purge_device_subtree_and_reinsert_device_list L gid now removed_list_id (set_items r xs c)
           else Some (c\<lparr>bug_reports := bug_reports c + 1\<rparr>))
        }
      | NewUSBDevice device_id devname port \<Rightarrow> do {
          r \<leftarrow> get_list_of_usb_devices L c;
          let (added, xs) = device_add_to_list device_id devname port (contents c r);
          (if added then reinsert_device_list L (set_items r xs c) else Some c)
        }
      | NewVolume volume label mountpoint device_id \<Rightarrow> do {
          r \<leftarrow> get_list_of_usb_devices L c;
          (case get_device_by_id device_id (contents c r) of
             None \<Rightarrow> Some c
           | Some (k, d) \<Rightarrow>
               (case add_volume volume label mountpoint d of
                  (True, Some n, d') \<Rightarrow>
                    reinsert_volume_list L device_id volume n (set_items r (put_device k d' (contents c r)) c)
                | _ \<Rightarrow> Some c))
        }
      | DeviceWillBeRemoved \<Rightarrow> Some c
      | UnknownSignal \<Rightarrow> Some c)"

section \<open>Items\<close>

datatype usb_list_type = DEVICE_LIST | VOLUME_LIST | DIR_LIST

definition is_volume_list_or_invalid :: "ctx_layout \<Rightarrow> list_id \<Rightarrow> list_id \<Rightarrow> usb_tree \<Rightarrow> bool" where
  "is_volume_list_or_invalid L root_id i c =
     (let parent_id = get_parent_list_id L i c in \<not> id_is_valid L parent_id \<or> parent_id = root_id)"

definition usb_list_type :: "ctx_layout \<Rightarrow> list_id \<Rightarrow> usb_tree \<Rightarrow> usb_list_type" where
  "usb_list_type L i c =
     (if i = devices_list_id c then DEVICE_LIST
      else if is_volume_list_or_invalid L (devices_list_id c) i c then VOLUME_LIST
      else DIR_LIST)"

definition volume_name :: "ctx_layout \<Rightarrow> volume_data \<Rightarrow> usb_tree \<Rightarrow> string option" where
  "volume_name L v c =
     do {
       r \<leftarrow> get_list_of_usb_devices L c;
       (_, d) \<leftarrow> get_device_by_id (volume_device_id v) (contents c r);
       get_volume_name (volume_number v) d
     }"

definition volume_url :: "ctx_layout \<Rightarrow> volume_data \<Rightarrow> usb_tree \<Rightarrow> string option" where
  "volume_url L v c =
     do {
       r \<leftarrow> get_list_of_usb_devices L c;
       (_, d) \<leftarrow> get_device_by_id (volume_device_id v) (contents c r);
       get_volume_mountpoint (volume_number v) d
     }"

text \<open>Name and kind of an item of a list of the given type; \<open>None\<close> is undefined behaviour.\<close>

definition usb_item_data :: "ctx_layout \<Rightarrow> usb_list_type \<Rightarrow> usb_tree \<Rightarrow> usb_data \<Rightarrow> (string \<times> usb_kind) option" where
  "usb_item_data L t c d =
     (case (t, d) of
        (DEVICE_LIST, Device dev) \<Rightarrow> Some (device_name dev, K_STORAGE_DEVICE)
      | (VOLUME_LIST, Volume v) \<Rightarrow> map_option (\<lambda>n. (n, K_STORAGE_DEVICE)) (volume_name L v c)
      | (DIR_LIST, File f) \<Rightarrow> Some (file_name f, file_kind f)
      | _ \<Rightarrow> None)"

definition usb_get_child_list_title :: "usb_env \<Rightarrow> list_id \<Rightarrow> nat \<Rightarrow> usb_tree \<Rightarrow> i18n option" where
  "usb_get_child_list_title E i item c =
     (let data = usb_item_data (env_layout E) (usb_list_type (env_layout E) i c) c
      in get_dynamic_title (env_layout E)
           (\<lambda>d. case data d of None \<Rightarrow> True | Some (_, k) \<Rightarrow> env_is_directory E k) (map_option fst \<circ> data) i item c)"

definition usb_get_root_list_title :: i18n where
  "usb_get_root_list_title = \<lparr>i18n_text = ''All USB devices'', is_subject_to_translation = True\<rparr>"

definition usb_for_each ::
  "ctx_layout \<Rightarrow> list_id \<Rightarrow> nat \<Rightarrow> nat \<Rightarrow> (string \<times> usb_kind \<Rightarrow> 'b \<Rightarrow> 'b \<times> bool) \<Rightarrow> 'b \<Rightarrow> usb_tree \<Rightarrow>
   ('b \<times> list_error) option" where
  "usb_for_each L i first count f acc c =
     list_for_each L (usb_item_data L (usb_list_type L i c) c) i first count f acc c"

definition usb_size :: "ctx_layout \<Rightarrow> list_id \<Rightarrow> usb_tree \<Rightarrow> int" where
  "usb_size L i c = list_size L i c"

definition usb_get_parent_link :: "ctx_layout \<Rightarrow> list_id \<Rightarrow> nat \<Rightarrow> usb_tree \<Rightarrow> list_id \<times> nat" where
  "usb_get_parent_link L i i0 c = parent_link L i i0 c"

definition usb_link_to_context_root :: "string \<Rightarrow> list_id \<times> item_id \<times> bool \<times> bool" where
  "usb_link_to_context_root context_id = (invalid_id, 0, context_id = ''usb'', False)"

definition usb_for_each_context :: "(string \<Rightarrow> string \<Rightarrow> bool \<Rightarrow> 'b) \<Rightarrow> 'b" where
  "usb_for_each_context callback = callback ''usb'' ''USB devices'' True"

definition usb_discard_list_hint ::
  "ctx_layout \<Rightarrow> ((nat \<times> nat) list \<Rightarrow> nat) \<Rightarrow> time_point \<Rightarrow> list_id \<Rightarrow> usb_tree \<Rightarrow> usb_tree option" where
  "usb_discard_list_hint L gid now i c =
     (if i \<noteq> devices_list_id c then repin_if_first_is_deepest_pinned_list L gid now i (devices_list_id c) c else Some c)"

section \<open>Paths\<close>

text \<open>
  The names on the way from an item of a directory up to the volume, first the topmost. The inner
  \<open>None\<close> is a missing link, the outer one undefined behaviour. The recursion is over the number of
  directories.
\<close>

fun path_elements ::
  "ctx_layout \<Rightarrow> nat \<Rightarrow> addr \<Rightarrow> nat \<Rightarrow> string list \<Rightarrow> usb_tree \<Rightarrow> (addr \<times> nat \<times> string list) option option" where
  "path_elements L 0 e item names c = Some (Some (e, item, names))"
| "path_elements L (Suc n) e item names c =
     (if item < length (contents c e) then
        case specific_data (contents c e ! item) of
          File f \<Rightarrow>
            (case find_parent_link L (cache_id (objs c e)) item c of
               None \<Rightarrow> Some None
             | Some (p, k) \<Rightarrow> path_elements L n p k (file_name f # names) c)
        | _ \<Rightarrow> None
      else None)"

text \<open>\<open>escape\<close> is \<^verbatim>\<open>curlpp::escape()\<close>.\<close>

definition construct_fspath_to_item ::
  "ctx_layout \<Rightarrow> (string \<Rightarrow> string) \<Rightarrow> addr \<Rightarrow> nat \<Rightarrow> string option \<Rightarrow> usb_tree \<Rightarrow> string option option" where
  "construct_fspath_to_item L escape e item prefix c =
     (let list_depth = depth (objs c) e
      in if list_depth \<le> 2 then None
         else case path_elements L (list_depth - 2) e item [] c of
           None \<Rightarrow> None
         | Some None \<Rightarrow> Some None
         | Some (Some (v, k, names)) \<Rightarrow>
             if k < length (contents c v) then
               case specific_data (contents c v ! k) of
                 Volume vol \<Rightarrow>
                   do {
                     url \<leftarrow> volume_url L vol c;
                     Some (Some (case prefix of
                         None \<Rightarrow> url @ concat (map (\<lambda>n. CHR ''/'' # n) names)
                       | Some p \<Rightarrow> p @ url @ concat (map (\<lambda>n. CHR ''/'' # escape n) names)))
                   }
               | _ \<Rightarrow> None
             else None)"

text \<open>
  \<^verbatim>\<open>get_uris_for_item()\<close>: a path that cannot be constructed gives an empty URL. \<open>md5\<close> is the
  hash function.
\<close>

definition usb_get_uris_for_item ::
  "usb_env \<Rightarrow> (string \<Rightarrow> string) \<Rightarrow> (string \<Rightarrow> 8 word list) \<Rightarrow> list_id \<Rightarrow> nat \<Rightarrow> usb_tree \<Rightarrow>
   (url_string list \<times> list_item_key \<times> list_error) option" where
  "usb_get_uris_for_item E escape md5 i item c =
     (let L = env_layout E; no_key = \<lparr>item_key = [], key_is_valid = False\<rparr>
      in if usb_list_type L i c \<noteq> DIR_LIST then Some ([], no_key, ERR_INVALID_ID)
         else case lookup_list L i c of
           None \<Rightarrow> Some ([], no_key, ERR_INVALID_ID)
         | Some e \<Rightarrow>
             if item \<ge> length (contents c e) then Some ([], no_key, ERR_INVALID_ID)
             else case usb_item_data L DIR_LIST c (specific_data (contents c e ! item)) of
               None \<Rightarrow> None
             | Some (_, k) \<Rightarrow>
                 if env_is_directory E k then Some ([], no_key, ERR_OK)
                 else do {
                   path \<leftarrow> construct_fspath_to_item L escape e item (Some ''file://'') c;
                   let url = (case path of None \<Rightarrow> [] | Some p \<Rightarrow> p);
                   Some ([mk_url GENERIC url], \<lparr>item_key = md5 url, key_is_valid = True\<rparr>, ERR_OK)
                 })"

section \<open>Entering lists\<close>

definition device_list_enter_child ::
  "usb_env \<Rightarrow> addr \<Rightarrow> usb_data list_item \<Rightarrow> usb_tree \<Rightarrow> (usb_tree \<times> list_id \<times> list_error) option" where
  "device_list_enter_child E p it c =
     (case specific_data it of
        Device d \<Rightarrow>
          let L = env_layout E; i = cache_id (objs c p)
          in do {
               (c1, new_id) \<leftarrow> add_child_list_to_cache L (env_gid E) (env_now E) (env_fresh E c) i CACHED (get_context L i)
                                 (env_size_of_volume_list E) c;
               (if id_is_valid L new_id
                then do {
                  e \<leftarrow> lookup c1 new_id;
                  Some (set_items e (contents c1 e @ fill_volume_list d) c1, new_id, ERR_OK)
                }
                else Some (c1, new_id, ERR_INTERNAL))
             }
      | _ \<Rightarrow> None)"

definition attach_new_dirlist ::
  "usb_env \<Rightarrow> list_id \<Rightarrow> string \<Rightarrow> usb_tree \<Rightarrow> (usb_tree \<times> list_id \<times> list_error) option" where
  "attach_new_dirlist E i path c =
     (let L = env_layout E
      in do {
           (c1, new_id) \<leftarrow> add_child_list_to_cache L (env_gid E) (env_now E) (env_fresh E c) i CACHED (get_context L i)
                             (env_size_of_dir_list E) c;
           (if \<not> id_is_valid L new_id then Some (c1, invalid_id, ERR_INTERNAL)
            else do {
              e \<leftarrow> lookup c1 new_id;
              Some (case fill_from_file_system (env_entries E path) (contents c1 e) of
                  None \<Rightarrow> (c1\<lparr>bug_reports := bug_reports c1 + 1\<rparr>, invalid_id, ERR_PHYSICAL_MEDIA_IO)
                | Some xs \<Rightarrow> (set_items e xs c1, new_id, ERR_OK))
            })
         })"

definition volume_list_enter_child ::
  "usb_env \<Rightarrow> addr \<Rightarrow> usb_data list_item \<Rightarrow> usb_tree \<Rightarrow> (usb_tree \<times> list_id \<times> list_error) option" where
  "volume_list_enter_child E p it c =
     (case specific_data it of
        Volume v \<Rightarrow>
          do {
            _ \<leftarrow> volume_name (env_layout E) v c;
            url \<leftarrow> volume_url (env_layout E) v c;
            attach_new_dirlist E (cache_id (objs c p)) url c
          }
      | _ \<Rightarrow> None)"

definition dir_list_enter_child ::
  "usb_env \<Rightarrow> nat \<Rightarrow> addr \<Rightarrow> usb_data list_item \<Rightarrow> usb_tree \<Rightarrow> (usb_tree \<times> list_id \<times> list_error) option" where
  "dir_list_enter_child E item p it c =
     (case specific_data it of
        File f \<Rightarrow>
          if \<not> env_is_directory E (file_kind f) then Some (c, invalid_id, ERR_INVALID_ID)
          else do {
            path \<leftarrow> construct_fspath_to_item (env_layout E) (\<lambda>n. n) p item None c;
            (case path of
               None \<Rightarrow> Some (c, invalid_id, ERR_INTERNAL)
             | Some path \<Rightarrow> attach_new_dirlist E (cache_id (objs c p)) path c)
          }
      | _ \<Rightarrow> None)"

definition usb_enter_child ::
  "usb_env \<Rightarrow> list_id \<Rightarrow> nat \<Rightarrow> usb_tree \<Rightarrow> (usb_tree \<times> list_id \<times> list_error) option" where
  "usb_enter_child E i item c =
     manager_enter_child (env_layout E) (env_gid E) (env_now E) i item (env_may_continue E)
       (case usb_list_type (env_layout E) i c of
          DEVICE_LIST \<Rightarrow> device_list_enter_child E
        | VOLUME_LIST \<Rightarrow> volume_list_enter_child E
        | DIR_LIST \<Rightarrow> dir_list_enter_child E item) c"

end
