(* ===== verification/Usb_Location.thy ===== *)
theory Usb_Location
  imports Usb_Tree
begin

text \<open>
  Locations of USB items (\<^verbatim>\<open>src/usb/usb_listtree.cc\<close>): the location of an item of the tree is
  collected on the way up to the root, and a location is realised by entering lists on the way down.
  The texts of locations are made and read by a library whose sources are not part of the
  repository: here a location is the list of the parts given to it, and reading a text is a parameter.
\<close>

section \<open>Locations\<close>

text \<open>An object index that is not valid is \<open>None\<close>; where an index is passed as a number, it is not 0.\<close>

type_synonym object_index = u32

datatype usb_location =
    Location_key_simple string string "string list"
  | Location_key_reference string string "string list" string "object_index option"
  | Location_trace string string "string list" "string list" "string \<times> object_index option"

definition item_of_position :: "object_index \<Rightarrow> nat" where
  "item_of_position pos = unat (pos - 1)"

text \<open>
  One step up: \<open>process\<close> gets the list and the index of the item and gives \<open>None\<close> for undefined
  behaviour, \<open>Some None\<close> if the item has no name. The list is looked up in the first step only.
\<close>

definition get_component_name ::
  "ctx_layout \<Rightarrow> (addr \<Rightarrow> nat \<Rightarrow> 'b option option) \<Rightarrow> addr option \<Rightarrow> list_id \<Rightarrow> nat \<Rightarrow> usb_tree \<Rightarrow>
   (list_error + addr \<times> nat \<times> 'b) option" where
  "get_component_name L process entry dest_list_id item c =
     (case (case entry of Some e \<Rightarrow> Some e | None \<Rightarrow> lookup_list L dest_list_id c) of
        None \<Rightarrow> Some (Inl ERR_INVALID_ID)
      | Some e \<Rightarrow>
          if item \<ge> length (contents c e) then Some (Inl ERR_INVALID_ID)
          else case process e item of
            None \<Rightarrow> None
          | Some None \<Rightarrow> Some (Inl ERR_INTERNAL)
          | Some (Some x) \<Rightarrow>
              (case find_parent_link L (cache_id (objs c e)) item c of
                 None \<Rightarrow> Some (Inl ERR_INTERNAL)
               | Some (p, k) \<Rightarrow> Some (Inr (p, k, x))))"

definition item_name :: "ctx_layout \<Rightarrow> usb_list_type \<Rightarrow> usb_tree \<Rightarrow> addr \<Rightarrow> nat \<Rightarrow> string option" where
  "item_name L t c e item = map_option fst (usb_item_data L t c (specific_data (contents c e ! item)))"

definition nonempty_name :: "string \<Rightarrow> string option" where
  "nonempty_name n = (if n = [] then None else Some n)"

definition process_name :: "ctx_layout \<Rightarrow> usb_list_type \<Rightarrow> usb_tree \<Rightarrow> addr \<Rightarrow> nat \<Rightarrow> string option option" where
  "process_name L t c e item = map_option nonempty_name (item_name L t c e item)"

text \<open>The loop over the directories; the names come out with the topmost first.\<close>

fun directory_names ::
  "ctx_layout \<Rightarrow> list_id \<Rightarrow> nat \<Rightarrow> addr option \<Rightarrow> nat \<Rightarrow> string list \<Rightarrow> usb_tree \<Rightarrow>
   (list_error + addr option \<times> nat \<times> string list) option" where
  "directory_names L i 0 entry item names c = Some (Inr (entry, item, names))"
| "directory_names L i (Suc n) entry item names c =
     (case get_component_name L (process_name L DIR_LIST c) entry i item c of
        None \<Rightarrow> None
      | Some (Inl err) \<Rightarrow> Some (Inl err)
      | Some (Inr (p, k, name)) \<Rightarrow> directory_names L i n (Some p) k (name # names) c)"

text \<open>Volume and device; the name of the volume is empty for an item of the root list.\<close>

definition volume_and_device ::
  "ctx_layout \<Rightarrow> list_id \<Rightarrow> nat \<Rightarrow> addr option \<Rightarrow> nat \<Rightarrow> usb_tree \<Rightarrow> (list_error + string \<times> string) option" where
  "volume_and_device L i list_depth entry item c =
     do {
       volume \<leftarrow> (if list_depth = 1 then Some (Inr (entry, item, []))
                  else map_option (map_sum (\<lambda>e. e) (\<lambda>(p, k, name). (Some p, k, name)))
                         (get_component_name L (process_name L VOLUME_LIST c) entry i item c));
       (case volume of
          Inl err \<Rightarrow> Some (Inl err)
        | Inr (entry, item, volume) \<Rightarrow>
            map_option (map_sum (\<lambda>e. e) (\<lambda>(_, _, device). (device, volume)))
              (get_component_name L (process_name L DEVICE_LIST c) entry i item c))
     }"

definition usb_get_location_key ::
  "ctx_layout \<Rightarrow> list_id \<Rightarrow> object_index \<Rightarrow> bool \<Rightarrow> usb_tree \<Rightarrow> (list_error + usb_location) option" where
  "usb_get_location_key L i pos as_reference_key c =
     (let list_depth = get_list_depth L i c
      in if list_depth = 0 then Some (Inl ERR_INVALID_ID)
         else do {
           dirs \<leftarrow> directory_names L i (list_depth - 2) None (item_of_position pos) [] c;
           (case dirs of
              Inl err \<Rightarrow> Some (Inl err)
            | Inr (entry, item, names) \<Rightarrow>
                map_option (map_sum (\<lambda>e. e)
                    (\<lambda>(device, volume).
                       if \<not> as_reference_key then Location_key_simple device volume names
                       else if list_depth \<le> 2
                       then Location_key_reference device volume [] [] (if list_depth = 1 then None else Some pos)
                       else Location_key_reference device volume (butlast names) (last names) (Some pos)))
                  (volume_and_device L i (min list_depth 2) entry item c))
         })"

section \<open>Traces\<close>

text \<open>\<open>None\<close> if the reference point does not match; otherwise whether it has been found by now.\<close>

definition handle_reference_point ::
  "list_id \<Rightarrow> nat \<Rightarrow> list_id \<Rightarrow> object_index \<Rightarrow> bool \<Rightarrow> bool option" where
  "handle_reference_point i item ref_list_id ref_pos found =
     (if i \<noteq> ref_list_id then Some found
      else if u32_wrap (item + 1) \<noteq> unat ref_pos then None
      else Some True)"

definition process_traced ::
  "ctx_layout \<Rightarrow> usb_list_type \<Rightarrow> list_id \<Rightarrow> object_index \<Rightarrow> bool \<Rightarrow> usb_tree \<Rightarrow> addr \<Rightarrow> nat \<Rightarrow> (string \<times> bool) option option" where
  "process_traced L t ref_list_id ref_pos found c e item =
     map_option
       (\<lambda>name. if name = [] then None
               else map_option (Pair name) (handle_reference_point (cache_id (objs c e)) item ref_list_id ref_pos found))
       (item_name L t c e item)"

text \<open>
  The loop over the directories: the names below the reference point and those from there up. The
  reference point itself belongs to the upper part.
\<close>

fun traced_names ::
  "ctx_layout \<Rightarrow> list_id \<Rightarrow> list_id \<Rightarrow> object_index \<Rightarrow> nat \<Rightarrow> addr option \<Rightarrow> nat \<Rightarrow> bool \<Rightarrow> bool \<Rightarrow>
   string list \<Rightarrow> string list \<Rightarrow> usb_tree \<Rightarrow>
   (list_error + addr option \<times> nat \<times> bool \<times> string list \<times> string list) option" where
  "traced_names L i ref_i ref_pos 0 entry item found upper refs names c = Some (Inr (entry, item, found, refs, names))"
| "traced_names L i ref_i ref_pos (Suc n) entry item found upper refs names c =
     (case get_component_name L
             (\<lambda>e k. map_option (map_option (\<lambda>(name, found'). (name, found', upper \<or> cache_id (objs c e) = ref_i)))
                      (process_traced L DIR_LIST ref_i ref_pos found c e k)) entry i item c of
        None \<Rightarrow> None
      | Some (Inl err) \<Rightarrow> Some (Inl err)
      | Some (Inr (p, k, name, found', upper')) \<Rightarrow>
          traced_names L i ref_i ref_pos n (Some p) k found' upper'
            (if upper' then name # refs else refs) (if upper' then names else name # names) c)"

definition traced_volume_and_device ::
  "ctx_layout \<Rightarrow> list_id \<Rightarrow> list_id \<Rightarrow> object_index \<Rightarrow> nat \<Rightarrow> addr option \<Rightarrow> nat \<Rightarrow> bool \<Rightarrow> usb_tree \<Rightarrow>
   (list_error + string \<times> string \<times> bool) option" where
  "traced_volume_and_device L i ref_i ref_pos list_depth entry item found c =
     do {
       volume \<leftarrow> (if list_depth = 1 then Some (Inr (entry, item, [], found))
                  else map_option (map_sum (\<lambda>e. e) (\<lambda>(p, k, name, found). (Some p, k, name, found)))
                         (get_component_name L (process_traced L VOLUME_LIST ref_i ref_pos found c) entry i item c));
       (case volume of
          Inl err \<Rightarrow> Some (Inl err)
        | Inr (entry, item, volume, found) \<Rightarrow>
            map_option (map_sum (\<lambda>e. e) (\<lambda>(_, _, device, found). (device, volume, found)))
              (get_component_name L (process_traced L DEVICE_LIST ref_i ref_pos found c) entry i item c))
     }"

text \<open>
  A trace whose item path has no elements is undefined behaviour (\<open>item_elements.front()\<close> of an
  empty vector).
\<close>

definition usb_get_location_trace ::
  "ctx_layout \<Rightarrow> list_id \<Rightarrow> object_index \<Rightarrow> list_id \<Rightarrow> object_index \<Rightarrow> usb_tree \<Rightarrow> (list_error + usb_location) option" where
  "usb_get_location_trace L i pos ref_i ref_pos c =
     (let list_depth = get_list_depth L i c
      in if list_depth = 0 then Some (Inl ERR_INVALID_ID)
         else do {
           dirs \<leftarrow> traced_names L i ref_i ref_pos (list_depth - 2) None (item_of_position pos)
                     (\<not> id_is_valid L ref_i) False [] [] c;
           (case dirs of
              Inl err \<Rightarrow> Some (Inl err)
            | Inr (entry, item, found, refs, names) \<Rightarrow>
                if list_depth > 2 \<and> names = [] then None
                else do {
                  res \<leftarrow> traced_volume_and_device L i ref_i ref_pos (min list_depth 2) entry item found c;
                  Some (case res of
                      Inl err \<Rightarrow> Inl err
                    | Inr (device, volume, found) \<Rightarrow>
                        if \<not> found then Inl ERR_INVALID_ID
                        else if list_depth \<le> 2
                        then Inr (Location_trace device volume [] [] ([], if list_depth = 1 then None else Some pos))
                        else Inr (Location_trace device volume refs (butlast names) (last names, Some pos)))
                })
         })"

section \<open>Realising locations\<close>

record rz_state =
  rs_dir_list_id :: list_id
  rs_candidate :: "list_id \<times> nat"
  rs_parent_link :: "list_id \<times> nat"
  rs_result :: realize_url_result

definition mk_rz_state :: "realize_url_result \<Rightarrow> rz_state" where
  "mk_rz_state res =
     \<lparr>rs_dir_list_id = invalid_id, rs_candidate = (invalid_id, 0), rs_parent_link = (invalid_id, 0), rs_result = res\<rparr>"

definition set_item_data :: "list_id \<Rightarrow> nat \<Rightarrow> realize_url_result \<Rightarrow> realize_url_result" where
  "set_item_data i item res = res\<lparr>rz_list_id := i, rz_item_id := of_nat item\<rparr>"

text \<open>The callback that looks for a name and counts items.\<close>

definition match_name :: "string \<Rightarrow> string \<times> usb_kind \<Rightarrow> bool \<times> nat \<times> usb_kind \<Rightarrow> (bool \<times> nat \<times> usb_kind) \<times> bool" where
  "match_name name data acc =
     (case (data, acc) of
        ((n, k), (found, idx, kind)) \<Rightarrow> if n = name then ((True, idx, k), False) else ((found, Suc idx, kind), True))"

definition look_for_name ::
  "ctx_layout \<Rightarrow> list_id \<Rightarrow> nat \<Rightarrow> nat \<Rightarrow> string \<Rightarrow> usb_tree \<Rightarrow> ((bool \<times> nat \<times> usb_kind) \<times> list_error) option" where
  "look_for_name L i first count name c =
     usb_for_each L i first count (match_name name) (False, first, K_LOGOUT_LINK) c"

definition enter_volume ::
  "usb_env \<Rightarrow> string \<Rightarrow> string \<Rightarrow> usb_tree \<Rightarrow> rz_state \<Rightarrow> (usb_tree \<times> rz_state \<times> list_error) option" where
  "enter_volume E device volume c s =
     (if device = [] then Some (c, s, ERR_INTERNAL)
      else do {
        r \<leftarrow> get_list_of_usb_devices (env_layout E) c;
        (case get_device_by_name device (contents c r) of
           None \<Rightarrow> Some (c, s, ERR_NOT_FOUND)
         | Some (device_index, _) \<Rightarrow> do {
             (c1, volumes_list_id, error) \<leftarrow> usb_enter_child E (cache_id (objs c r)) device_index c;
             (if \<not> id_is_valid (env_layout E) volumes_list_id then Some (c1, s, error)
              else
                let s1 = s\<lparr>rs_candidate := (cache_id (objs c1 r), device_index)\<rparr>
                in do {
                     ((found, volume_index, _), error) \<leftarrow>
                       (if volume = [] then Some ((False, 0, K_LOGOUT_LINK), error)
                        else look_for_name (env_layout E) volumes_list_id 0 0 volume c1);
                     (if error \<noteq> ERR_OK \<or> \<not> found
                      then
                        let s2 = s1\<lparr>rs_result := set_item_data (cache_id (objs c1 r)) device_index (rs_result s1)\<rparr>
                        in Some (c1, s2, if error \<noteq> ERR_OK \<or> volume = [] then error else ERR_NOT_FOUND)
                      else do {
                        (c2, root_id, error) \<leftarrow> usb_enter_child E volumes_list_id volume_index c1;
                        Some (c2,
                          if id_is_valid (env_layout E) root_id
                          then s1\<lparr>rs_dir_list_id := root_id, rs_parent_link := rs_candidate s1,
                                  rs_candidate := (volumes_list_id, volume_index),
                                  rs_result := set_item_data volumes_list_id volume_index (rs_result s1)\<rparr>
                          else s1\<lparr>rs_dir_list_id := root_id\<rparr>, error)
                      })
                   })
           })
      })"

text \<open>Slashes separate the components of a path, empty components are skipped.\<close>

function path_components :: "string \<Rightarrow> string list" where
  "path_components path =
     (case dropWhile (\<lambda>ch. ch = CHR ''/'') path of
        [] \<Rightarrow> []
      | ch # rest \<Rightarrow>
          (ch # takeWhile (\<lambda>ch. ch \<noteq> CHR ''/'') rest) # path_components (dropWhile (\<lambda>ch. ch \<noteq> CHR ''/'') rest))"
  by pat_completeness auto
termination
proof (relation "measure length")
  fix path rest :: string and ch :: char
  assume "dropWhile (\<lambda>ch. ch = CHR ''/'') path = ch # rest"
  then have "length (ch # rest) \<le> length path" by (metis length_dropWhile_le)
  then show "(dropWhile (\<lambda>ch. ch \<noteq> CHR ''/'') rest, path) \<in> measure length"
    using length_dropWhile_le [of "\<lambda>ch. ch \<noteq> CHR ''/''" rest] by simp
qed simp

declare path_components.simps [simp del]

text \<open>
  The search for one component: a range that does not hold the name is given up for the entire
  list, if that is wanted, and remains given up.
\<close>

definition find_component ::
  "ctx_layout \<Rightarrow> bool \<Rightarrow> list_id \<Rightarrow> nat \<times> nat \<Rightarrow> string \<Rightarrow> usb_tree \<Rightarrow>
   ((bool \<times> nat \<times> usb_kind) \<times> list_error \<times> (nat \<times> nat)) option" where
  "find_component L auto_search i rng component c =
     do {
       ((found, idx, kind), error) \<leftarrow> look_for_name L i (fst rng) (snd rng) component c;
       (if found \<or> \<not> auto_search \<or> rng = (0, 0) then Some ((found, idx, kind), error, rng)
        else do {
          (res, error) \<leftarrow> look_for_name L i 0 0 component c;
          Some (res, error, (0, 0))
        })
     }"

type_synonym found_item = "list_id \<Rightarrow> nat \<Rightarrow> usb_kind \<Rightarrow> realize_url_result \<Rightarrow> realize_url_result \<times> list_error"

text \<open>What happens with a component that has been found; \<open>is_last\<close> tells whether there is no other.\<close>

definition follow_component ::
  "usb_env \<Rightarrow> found_item \<Rightarrow> bool \<Rightarrow> nat \<Rightarrow> usb_kind \<Rightarrow> usb_tree \<Rightarrow> rz_state \<Rightarrow>
   (usb_tree \<times> rz_state \<times> list_error \<times> bool) option" where
  "follow_component E found_item is_last idx kind c s =
     (let dir = rs_dir_list_id s; s1 = s\<lparr>rs_parent_link := rs_candidate s\<rparr>;
          (res, error) = found_item dir idx kind (rs_result s1)
      in if env_is_directory E kind
         then do {
           (c1, next_id, enter_error) \<leftarrow> usb_enter_child E dir idx c;
           Some (if \<not> id_is_valid (env_layout E) next_id then (c1, s1, enter_error, False)
             else (c1,
               s1\<lparr>rs_result := res, rs_candidate := (if error = ERR_OK then (dir, idx) else rs_candidate s1),
                  rs_dir_list_id := next_id\<rparr>,
               error, error = ERR_OK))
         }
         else Some (c, s1\<lparr>rs_result := res\<rparr>,
           if \<not> is_last \<and> error = ERR_OK then ERR_NOT_FOUND else error, is_last \<and> error = ERR_OK))"

text \<open>The last component of the result of \<open>follow_component\<close> tells whether to go on.\<close>

fun follow_components ::
  "usb_env \<Rightarrow> bool \<Rightarrow> found_item \<Rightarrow> string list \<Rightarrow> nat \<times> nat \<Rightarrow> usb_tree \<Rightarrow> rz_state \<Rightarrow>
   (usb_tree \<times> rz_state \<times> list_error) option" where
  "follow_components E auto_search found_item [] rng c s = Some (c, s, ERR_OK)"
| "follow_components E auto_search found_item (component # comps) rng c s =
     do {
       ((found, idx, kind), error, rng') \<leftarrow> find_component (env_layout E) auto_search (rs_dir_list_id s) rng component c;
       (if error \<noteq> ERR_OK then Some (c, s, error)
        else if \<not> found then Some (c, s, ERR_NOT_FOUND)
        else do {
          (c1, s1, error, go_on) \<leftarrow> follow_component E found_item (comps = []) idx kind c s;
          (if go_on then follow_components E auto_search found_item comps rng' c1 s1 else Some (c1, s1, error))
        })
     }"

definition follow_path ::
  "usb_env \<Rightarrow> bool \<Rightarrow> found_item \<Rightarrow> string \<Rightarrow> nat \<times> nat \<Rightarrow> usb_tree \<Rightarrow> rz_state \<Rightarrow>
   (usb_tree \<times> rz_state \<times> list_error) option" where
  "follow_path E auto_search found_item path rng c s =
     (if \<not> id_is_valid (env_layout E) (rs_dir_list_id s)
      then Some (c, s, if path = [] then ERR_OK else ERR_INVALID_STRBO_URL)
      else follow_components E auto_search found_item (path_components path) rng c s)"

definition set_list_title ::
  "usb_env \<Rightarrow> usb_tree \<Rightarrow> list_id \<times> nat \<Rightarrow> realize_url_result \<Rightarrow> realize_url_result option" where
  "set_list_title E c link res =
     (if \<not> id_is_valid (env_layout E) (rz_list_id res) then Some res
      else map_option (\<lambda>t. res\<lparr>rz_list_title := t\<rparr>)
        (if id_is_valid (env_layout E) (fst link) then usb_get_child_list_title E (fst link) (snd link) c
         else Some usb_get_root_list_title))"

text \<open>The three callbacks.\<close>

definition found_any :: found_item where
  "found_any i item kind res = (set_item_data i item res, ERR_OK)"

definition found_reference :: "usb_env \<Rightarrow> found_item" where
  "found_reference E i item kind res =
     (if env_is_directory E kind then (set_item_data i item res, ERR_OK) else (res, ERR_NOT_FOUND))"

definition found_counted :: found_item where
  "found_counted i item kind res =
     (let r = set_item_data i item res in (r\<lparr>rz_distance := rz_distance r + 1\<rparr>, ERR_OK))"

definition finish_realize ::
  "usb_env \<Rightarrow> usb_tree \<times> rz_state \<times> list_error \<Rightarrow> (usb_tree \<times> realize_url_result \<times> list_error) option" where
  "finish_realize E res =
     (case res of (c, s, error) \<Rightarrow> do { r \<leftarrow> set_list_title E c (rs_parent_link s) (rs_result s); Some (c, r, error) })"

text \<open>The components of the location as read from the URL.\<close>

definition realize_simple ::
  "usb_env \<Rightarrow> string \<Rightarrow> string \<Rightarrow> string \<Rightarrow> usb_tree \<Rightarrow> realize_url_result \<Rightarrow>
   (usb_tree \<times> realize_url_result \<times> list_error) option" where
  "realize_simple E device part path c res =
     do {
       (c1, s1, error) \<leftarrow> enter_volume E device part c (mk_rz_state res);
       x \<leftarrow> (if error = ERR_OK then follow_path E False found_any path (0, 0) c1 s1 else Some (c1, s1, error));
       finish_realize E x
     }"

definition realize_reference ::
  "usb_env \<Rightarrow> string \<Rightarrow> string \<Rightarrow> string \<Rightarrow> string \<Rightarrow> object_index option \<Rightarrow> usb_tree \<Rightarrow> realize_url_result \<Rightarrow>
   (usb_tree \<times> realize_url_result \<times> list_error) option" where
  "realize_reference E device part reference_point item position c res =
     do {
       (c1, s1, error) \<leftarrow> enter_volume E device part c (mk_rz_state res);
       (c2, s2, error) \<leftarrow>
         (if error = ERR_OK then follow_path E False (found_reference E) reference_point (0, 0) c1 s1 else Some (c1, s1, error));
       x \<leftarrow> (if error = ERR_OK
             then follow_path E True found_any item
                    (case position of None \<Rightarrow> (0, 0) | Some pos \<Rightarrow> (item_of_position pos, 1)) c2 s2
             else Some (c2, s2, error));
       finish_realize E x
     }"

definition realize_trace ::
  "usb_env \<Rightarrow> nat \<Rightarrow> string \<Rightarrow> string \<Rightarrow> string \<Rightarrow> string \<Rightarrow> usb_tree \<Rightarrow> realize_url_result \<Rightarrow>
   (usb_tree \<times> realize_url_result \<times> list_error) option" where
  "realize_trace E trace_length device part reference_point item c res =
     do {
       (c1, s1, error) \<leftarrow> enter_volume E device part c (mk_rz_state (res\<lparr>rz_trace_length := trace_length\<rparr>));
       (c2, s2, error) \<leftarrow>
         (if error = ERR_OK then follow_path E False (found_reference E) reference_point (0, 0) c1 s1 else Some (c1, s1, error));
       x \<leftarrow> (if error = ERR_OK
             then
               let s3 = s2\<lparr>rs_result := (rs_result s2)\<lparr>rz_ref_list_id := fst (rs_candidate s2),
                              rz_ref_item_id := of_nat (snd (rs_candidate s2))\<rparr>\<rparr>
               in follow_path E False found_counted item (0, 0) c2 s3
             else Some (c2, s2, error));
       finish_realize E x
     }"

text \<open>
  \<^verbatim>\<open>try_set_url_and_apply()\<close> (\<^verbatim>\<open>strbo_url_listtree_helpers.hh\<close>): the first component tells
  whether the URL has been handled. Reading the URL may throw one of three exceptions.
\<close>

datatype 'a set_url_result = Url_set 'a | WrongSchemeError | InvalidCharactersError | ParsingError

definition try_set_url_and_apply ::
  "'a set_url_result \<Rightarrow> ('a \<Rightarrow> 's \<Rightarrow> ('s \<times> list_error) option) \<Rightarrow> 's \<Rightarrow> (bool \<times> 's \<times> list_error) option" where
  "try_set_url_and_apply loc apply s =
     (case loc of
        Url_set l \<Rightarrow> map_option (Pair True) (apply l s)
      | WrongSchemeError \<Rightarrow> Some (False, s, ERR_NOT_SUPPORTED)
      | InvalidCharactersError \<Rightarrow> Some (True, s, ERR_INVALID_STRBO_URL)
      | ParsingError \<Rightarrow> Some (True, s, ERR_INVALID_STRBO_URL))"

record usb_url_reader =
  read_simple :: "string \<Rightarrow> (string \<times> string \<times> string) set_url_result"
  read_reference :: "string \<Rightarrow> (string \<times> string \<times> string \<times> string \<times> object_index option) set_url_result"
  read_trace :: "string \<Rightarrow> (nat \<times> string \<times> string \<times> string \<times> string) set_url_result"

text \<open>Which schemes the three types of location have is not part of the repository.\<close>

definition usb_can_handle_strbo_url :: "(string \<Rightarrow> bool) \<Rightarrow> (string \<Rightarrow> bool) \<Rightarrow> (string \<Rightarrow> bool) \<Rightarrow> string \<Rightarrow> bool" where
  "usb_can_handle_strbo_url is_simple is_reference is_trace u = (is_simple u \<or> is_reference u \<or> is_trace u)"

definition usb_realize_strbo_url ::
  "usb_env \<Rightarrow> usb_url_reader \<Rightarrow> string \<Rightarrow> usb_tree \<Rightarrow> realize_url_result \<Rightarrow>
   (usb_tree \<times> realize_url_result \<times> list_error) option" where
  "usb_realize_strbo_url E U u c res =
     (let run = (\<lambda>f (c, res). map_option (\<lambda>(c, res, error). ((c, res), error)) (f c res))
      in do {
           (handled, s, error) \<leftarrow> try_set_url_and_apply (read_simple U u)
              (\<lambda>(device, part, path). run (realize_simple E device part path)) (c, res);
           (handled, s, error) \<leftarrow> (if handled then Some (handled, s, error)
              else try_set_url_and_apply (read_reference U u)
                (\<lambda>(device, part, ref, item, pos). run (realize_reference E device part ref item pos)) s);
           (handled, s, error) \<leftarrow> (if handled then Some (handled, s, error)
              else try_set_url_and_apply (read_trace U u)
                (\<lambda>(n, device, part, ref, item). run (realize_trace E n device part ref item)) s);
           Some (fst s, snd s, if \<not> handled \<and> error = ERR_OK then ERR_INTERNAL else error)
         })"

end
