(* ===== verification/Usb_Props.thy ===== *)
theory Usb_Props
  imports Usb_Tree Lost_Child
begin

text \<open>
  The list of volumes of a USB device that has been entered follows the volumes that MounTA tells.
\<close>

section \<open>Devices and volumes\<close>

lemma index_of_update: "index_of P xs = Some k \<Longrightarrow> P y \<Longrightarrow> index_of P (xs[k := y]) = Some k"
  by (auto simp: index_of_Some nth_list_update)

lemma get_device_by_xD:
  assumes "get_device_by_x P xs = Some (k, d)"
  shows "k < length xs" "specific_data (xs ! k) = Device d" "P d" "index_of (is_device P) xs = Some k"
proof -
  obtain it where it: "index_of (is_device P) xs = Some k" "specific_data (xs ! k) = Device d"
    using assms by (auto simp: get_device_by_x_def split: option.splits usb_data.splits)
  then show "k < length xs" "specific_data (xs ! k) = Device d" "P d" "index_of (is_device P) xs = Some k"
    by (auto simp: index_of_Some is_device_def)
qed

lemma get_device_put:
  assumes "get_device_by_x P xs = Some (k, d)" and "P d'"
  shows "get_device_by_x P (put_device k d' xs) = Some (k, d')"
proof -
  note D = get_device_by_xD [OF assms(1)]
  have "is_device P ((xs ! k)\<lparr>specific_data := Device d'\<rparr>)" using assms(2) by (simp add: is_device_def)
  from index_of_update [OF D(4) this] show ?thesis using D(1) by (simp add: get_device_by_x_def put_device_def)
qed

lemma get_device_relinked:
  assumes "get_device_by_x P xs = Some (k, d)"
  shows "get_device_by_x P (xs[k := (xs ! k)\<lparr>child := i\<rparr>]) = Some (k, d)"
proof -
  note D = get_device_by_xD [OF assms]
  have "is_device P ((xs ! k)\<lparr>child := i\<rparr>)" using D(2,3) by (simp add: is_device_def)
  from index_of_update [OF D(4) this] show ?thesis using D(1,2) by (simp add: get_device_by_x_def)
qed

lemma fill_volume_list_data:
  "map specific_data (fill_volume_list d) =
   map (\<lambda>v. Volume \<lparr>volume_device_id = dev_id d, volume_number = number v\<rparr>) (volumes d)"
  by (simp add: fill_volume_list_def new_list_item_def)

lemma insert_before_data:
  "map specific_data (flat_insert_before k it xs) =
   take k (map specific_data xs) @ specific_data it # drop k (map specific_data xs)"
  by (simp add: flat_insert_before_def take_map drop_map)

lemma insert_before_sublists:
  assumes "\<not> id_is_valid L (child it)"
  shows "enumerate_direct_sublists L (flat_insert_before k it xs) = enumerate_direct_sublists L xs"
proof -
  have "enumerate_direct_sublists L xs = enumerate_direct_sublists L (take k xs @ drop k xs)" by simp
  then show ?thesis using assms by (simp add: enumerate_direct_sublists_def flat_insert_before_def del: append_take_drop_id)
qed

section \<open>The list of devices\<close>

lemma set_items_simps [simp]:
  "objs (set_items e xs c) = objs c" "lookup (set_items e xs c) i = lookup c i"
  "lookup_list L i (set_items e xs c) = lookup_list L i c"
  "contents (set_items e xs c) = (contents c)(e := xs)" "devices_list_id (set_items e xs c) = devices_list_id c"
  "cache.truncate (set_items e xs c) = cache.truncate c" "all_objects (set_items e xs c) = all_objects c"
  "id_gen (set_items e xs c) = id_gen c"
  by (simp_all add: set_items_def lookup_def lookup_list_def cache.defs)

lemma set_child_at_simps [simp]:
  "objs (set_child_at e n i c) = objs c" "lookup (set_child_at e n i c) j = lookup c j"
  "lookup_list L j (set_child_at e n i c) = lookup_list L j c"
  "contents (set_child_at e n i c) = (contents c)(e := (contents c e)[n := set_child_list i (contents c e ! n)])"
  "cache.truncate (set_child_at e n i c) = cache.truncate c"
  "devices_list_id (set_child_at e n i (c' :: usb_tree)) = devices_list_id c'"
  by (simp_all add: set_child_at_def lookup_def lookup_list_def cache.defs)

lemma reinsert_keeps:
  fixes c :: usb_tree
  assumes I: "cache_inv L c xs" and e: "e \<in> set xs" and id: "i = cache_id (objs c e)"
    and free: "some_free L (\<lambda>j. smap_find (smap_erase i (all_objects c)) j = None) (id_gen c)
      (get_cache_mode L i) (get_context L i)"
  obtains c' j where "reinsert_list L i c = Some (c', j)" "cache_inv L c' xs" "id_is_valid L j" "lookup c' j = Some e"
    "contents c' = contents c" "devices_list_id c' = devices_list_id c"
    "\<And>a. a \<in> set xs \<Longrightarrow> a \<noteq> e \<Longrightarrow> lookup c' (cache_id (objs c a)) = Some a"
proof -
  obtain c1 j where R: "insert_again L (Some e) c = Some (c1, j)" "cache_inv L c1 xs" "id_is_valid L j" "lookup c1 j = Some e"
    using insert_again_spec [OF I e, folded id, OF free] by metis
  have f: "contents c1 = contents c" "devices_list_id c1 = devices_list_id c" "\<And>a. a \<noteq> e \<Longrightarrow> objs c1 a = objs c a"
    using R(1) by (auto simp: insert_again_def Let_def set_id_def split: if_splits Option.bind_splits)
  let ?c = "emit_list_invalidate i j (check_list_invalidate L i j c1)"
  have t: "cache.truncate ?c = cache.truncate c1" "contents ?c = contents c1" "devices_list_id ?c = devices_list_id c1"
    by (simp_all add: emit_list_invalidate_def check_list_invalidate_def split: broker_kind.splits)
  have l: "lookup ?c a = lookup c1 a" for a using truncate_eqD(6) [OF t(1)] by (simp add: lookup_def)
  have "lookup c i = Some e" using member_lookup(1) [OF I e] id by simp
  then have run: "reinsert_list L i c = Some (?c, j)" using R(1) id by (simp add: reinsert_list_def Let_def)
  have inv: "cache_inv L ?c xs" using R(2) cache_inv_truncate [OF t(1)] by blast
  show ?thesis
  proof (rule that [OF run inv R(3)])
    show "lookup ?c (cache_id (objs c a)) = Some a" if "a \<in> set xs" "a \<noteq> e" for a
      using member_lookup(1) [OF R(2) that(1)] f(3) [OF that(2)] l by simp
  qed (use l R(4) t f in simp_all)
qed


definition sample_usb_device :: device_data where
  "sample_usb_device = \<lparr>dev_id = 7, device_name = ''Stick'', usb_port = ''p'', volumes =
     [\<lparr>number = 1, volume_name_utf8 = ''A'', mountpoint_path = ''/m/a''\<rparr>,
      \<lparr>number = 3, volume_name_utf8 = ''C'', mountpoint_path = ''/m/c''\<rparr>]\<rparr>"

definition sample_usb_tree :: usb_tree where
  "sample_usb_tree = \<lparr>objs = sample_heap, id_gen = mk_id_generator 1 (VALUE_MASK sample_layout),
     memory_limits = mk_cache_limits 1000 900 800, count_limits = mk_cache_limits 100 900 800,
     maximum_age_threshold = 15, all_objects = [(1, 10), (2, 20)],
     root_object = Some 10, oldest_object = Some 20, deepest_youngest_object = Some 10,
     pinned_object_id = 0, minimum_required_creation_time = 5, total_size = 30, gc_running = False,
     timeout_source_id = 0, is_enabled = True, sources = [],
     broker = USB_BROKER, checks = no_override_table,
     contents = (\<lambda>a. if a = 10 then [\<lparr>child = 2, specific_data = Device sample_usb_device\<rparr>]
                  else if a = 20 then fill_volume_list sample_usb_device else []),
     killed_register = {}, signals = [], bug_reports = 0, pending_list = None, default_cache_mode_request = REQ_AUTO,
     devices_list_id = 1\<rparr>"


end
