(* ===== verification/Usb_Location_Props.thy ===== *)
theory Usb_Location_Props
  imports Usb_Location Usb_Props
begin

text \<open>
  The location key of an item leads back to the item, as long as the lists on the way are cached.
\<close>

section \<open>Paths\<close>

abbreviation join_path :: "string list \<Rightarrow> string" where
  "join_path names \<equiv> concat (map (\<lambda>n. CHR ''/'' # n) names)"

lemma path_components_join:
  assumes "\<forall>n \<in> set names. n \<noteq> [] \<and> CHR ''/'' \<notin> set n"
  shows "path_components (join_path names) = names"
  using assms
proof (induction names)
  case (Cons n names)
  then obtain ch rest where n: "n = ch # rest" "ch \<noteq> CHR ''/''" "CHR ''/'' \<notin> set rest"
    by (cases n) auto
  have "takeWhile (\<lambda>ch. ch \<noteq> CHR ''/'') (join_path names) = []"
    "dropWhile (\<lambda>ch. ch \<noteq> CHR ''/'') (join_path names) = join_path names" by (cases names; simp)+
  moreover have "\<forall>ch \<in> set rest. ch \<noteq> CHR ''/''" using n(3) by metis
  ultimately have "takeWhile (\<lambda>ch. ch \<noteq> CHR ''/'') (rest @ join_path names) = rest"
    "dropWhile (\<lambda>ch. ch \<noteq> CHR ''/'') (rest @ join_path names) = join_path names"
    by (simp_all add: takeWhile_append2 dropWhile_append2)
  then show ?case using n(1,2) Cons by (simp add: path_components.simps [of "CHR ''/'' # ch # rest @ join_path names"])
qed (simp add: path_components.simps)

section \<open>Looking for names\<close>

text \<open>Name and kind of an item, by the type of the list.\<close>

definition list_item_data :: "ctx_layout \<Rightarrow> usb_tree \<Rightarrow> addr \<Rightarrow> nat \<Rightarrow> (string \<times> usb_kind) option" where
  "list_item_data L c e n =
     usb_item_data L (usb_list_type L (cache_id (objs c e)) c) c (specific_data (contents c e ! n))"

lemma subscript_match:
  assumes "\<And>n. n < length xs \<Longrightarrow> data (specific_data (xs ! n)) = Some (nm n, kd n)"
    and "k < length xs" "\<And>m. m < k \<Longrightarrow> nm m \<noteq> nm k" "j \<le> k"
  shows "subscript_loop (flat_list_at xs) (\<lambda>_. apply_to_item data (match_name (nm k))) [j..<length xs] () (Some (False, j, kind)) =
    Some ((), Some (True, k, kd k), ERR_OK)"
  using assms(4)
proof (induction "k - j" arbitrary: j)
  case 0
  then have "j = k" by simp
  then show ?case using assms(1) [OF assms(2)] assms(2)
    by (simp add: upt_conv_Cons flat_list_at_def apply_to_item_def match_name_def)
next
  case (Suc n)
  then have j: "j < k" "n = k - Suc j" "Suc j \<le> k" by simp_all
  then have "[j..<length xs] = j # [Suc j..<length xs]" using assms(2) by (simp add: upt_conv_Cons)
  moreover have "nm j \<noteq> nm k" "data (specific_data (xs ! j)) = Some (nm j, kd j)"
    using assms(1) [of j] assms(2,3) j by simp_all
  ultimately show ?case using Suc(1) [OF j(2,3)] j assms(2)
    by (simp add: flat_list_at_def apply_to_item_def match_name_def)
qed

text \<open>
  A tree in which items can be found by their names: the cache is consistent and all lists in it may
  be used; items have data of the right kind and names that are unique in the list; in directories,
  names have no slashes and items with children are directories.
\<close>

definition browsable :: "usb_env \<Rightarrow> usb_tree \<Rightarrow> addr list \<Rightarrow> bool" where
  "browsable E c xs \<longleftrightarrow> (let L = env_layout E in
     cache_inv L c xs \<and> env_may_continue E \<and>
     (\<exists>r. get_list_of_usb_devices L c = Some r \<and> parent (objs c r) = None) \<and>
     (\<forall>e \<in> set xs. check_is_cacheable L (cache_id (objs c e)) c \<and>
        (\<forall>n < length (contents c e). list_item_data L c e n \<noteq> None \<and>
           (\<forall>m < n. fst (the (list_item_data L c e m)) \<noteq> fst (the (list_item_data L c e n)))) \<and>
        (usb_list_type L (cache_id (objs c e)) c = DIR_LIST \<longrightarrow>
           (\<forall>n < length (contents c e). CHR ''/'' \<notin> set (fst (the (list_item_data L c e n))) \<and>
              (id_is_valid L (child (contents c e ! n)) \<longrightarrow> env_is_directory E (snd (the (list_item_data L c e n))))))))"

lemma browsableD:
  assumes "browsable E c xs"
  shows "cache_inv (env_layout E) c xs" "env_may_continue E"
    and "\<And>e. e \<in> set xs \<Longrightarrow> check_is_cacheable (env_layout E) (cache_id (objs c e)) c"
    and "\<And>e n. e \<in> set xs \<Longrightarrow> n < length (contents c e) \<Longrightarrow> list_item_data (env_layout E) c e n \<noteq> None"
    and "\<And>e m n. e \<in> set xs \<Longrightarrow> m < n \<Longrightarrow> n < length (contents c e) \<Longrightarrow>
      fst (the (list_item_data (env_layout E) c e m)) \<noteq> fst (the (list_item_data (env_layout E) c e n))"
    and "\<And>e n. e \<in> set xs \<Longrightarrow> n < length (contents c e) \<Longrightarrow>
      usb_list_type (env_layout E) (cache_id (objs c e)) c = DIR_LIST \<Longrightarrow>
      CHR ''/'' \<notin> set (fst (the (list_item_data (env_layout E) c e n)))"
    and "\<And>e n. e \<in> set xs \<Longrightarrow> n < length (contents c e) \<Longrightarrow>
      usb_list_type (env_layout E) (cache_id (objs c e)) c = DIR_LIST \<Longrightarrow>
      id_is_valid (env_layout E) (child (contents c e ! n)) \<Longrightarrow>
      env_is_directory E (snd (the (list_item_data (env_layout E) c e n)))"
  using assms unfolding browsable_def Let_def by blast+

text \<open>The root list is the only list without a parent.\<close>

lemma browsable_root:
  assumes "browsable E c xs"
  obtains r where "get_list_of_usb_devices (env_layout E) c = Some r" "r \<in> set xs" "parent (objs c r) = None"
    "cache_id (objs c r) = devices_list_id c" "\<And>e. e \<in> set xs \<Longrightarrow> parent (objs c e) = None \<Longrightarrow> e = r"
proof -
  obtain r where r: "get_list_of_usb_devices (env_layout E) c = Some r" "parent (objs c r) = None"
    using assms by (auto simp: browsable_def Let_def)
  then have "lookup c (devices_list_id c) = Some r"
    by (auto simp: get_list_of_usb_devices_def lookup_list_def split: if_splits)
  then have m: "r \<in> set xs" "cache_id (objs c r) = devices_list_id c"
    using lookup_member [OF browsableD(1) [OF assms]] by simp_all
  have "e = r" if "e \<in> set xs" "parent (objs c e) = None" for e
    using cache_invD(4) [OF browsableD(1) [OF assms]] that m(1) r(2) unfolding roots_ok_def
    by (metis option.inject)
  then show ?thesis using that r m by blast
qed

lemma browsable_lookup:
  assumes "browsable E c xs" "e \<in> set xs"
  shows "lookup_list (env_layout E) (cache_id (objs c e)) c = Some e"
  using member_lookup [OF browsableD(1) [OF assms(1)] assms(2)] by (simp add: lookup_list_def)

lemma browsable_member:
  assumes "browsable E c xs" "lookup_list (env_layout E) i c = Some e"
  shows "e \<in> set xs" "cache_id (objs c e) = i" "id_is_valid (env_layout E) i"
  using lookup_member [OF browsableD(1) [OF assms(1)], of i e] assms(2) by (auto simp: lookup_list_def split: if_splits)

lemma browsable_parent:
  assumes "browsable E c xs" "e \<in> set xs" "parent (objs c e) = Some p"
  shows "p \<in> set xs" "p \<noteq> e" "depth (objs c) e = Suc (depth (objs c) p)"
proof -
  note I = browsableD(1) [OF assms(1)]
  have "p < e" using aging_list_ofD(3) [OF cache_invD(1) [OF I]] assms(3) by (simp add: parents_older_def)
  then have ch: "chain (objs c) e = e # chain (objs c) p" using assms(3) by (simp add: chain.simps [of "objs c" e])
  then show "depth (objs c) e = Suc (depth (objs c) p)" "p \<noteq> e" using \<open>p < e\<close> by (simp_all add: depth_def)
  have "p \<in> set (chain (objs c) e)" unfolding ch by simp
  then show "p \<in> set xs" using chain_members [OF I assms(2)] by auto
qed

lemma list_types:
  assumes "browsable E c xs" "e \<in> set xs"
  shows "parent (objs c e) = None \<Longrightarrow> usb_list_type (env_layout E) (cache_id (objs c e)) c = DEVICE_LIST"
    and "parent (objs c e) = Some p \<Longrightarrow> parent (objs c p) = None \<Longrightarrow>
      usb_list_type (env_layout E) (cache_id (objs c e)) c = VOLUME_LIST"
    and "parent (objs c e) = Some p \<Longrightarrow> parent (objs c p) = Some q \<Longrightarrow>
      usb_list_type (env_layout E) (cache_id (objs c e)) c = DIR_LIST"
proof -
  note I = browsableD(1) [OF assms(1)]
  obtain r where r: "r \<in> set xs" "parent (objs c r) = None" "cache_id (objs c r) = devices_list_id c"
    "\<And>e. e \<in> set xs \<Longrightarrow> parent (objs c e) = None \<Longrightarrow> e = r"
    using browsable_root [OF assms(1)] by metis
  have id: "cache_id (objs c a) = devices_list_id c \<longleftrightarrow> a = r" if "a \<in> set xs" for a
    using ids_inj [OF I that r(1)] r(3) by auto
  have p: "get_parent_list_id (env_layout E) (cache_id (objs c e)) c = cache_id (objs c p) \<and> p \<in> set xs \<and>
      id_is_valid (env_layout E) (cache_id (objs c p))" if "parent (objs c e) = Some p" for p
    using that member_lookup [OF I assms(2)] browsable_parent(1) [OF assms that] member_lookup(2) [OF I]
    by (simp add: get_parent_list_id_def)
  note d = usb_list_type_def is_volume_list_or_invalid_def Let_def
  show "usb_list_type (env_layout E) (cache_id (objs c e)) c = DEVICE_LIST" if "parent (objs c e) = None"
    using r(4) [OF assms(2) that] r(3) by (simp add: d)
  show "usb_list_type (env_layout E) (cache_id (objs c e)) c = VOLUME_LIST"
    if "parent (objs c e) = Some p" "parent (objs c p) = None"
  proof -
    have "p = r" using r(4) p [OF that(1)] that(2) by blast
    moreover have "e \<noteq> r" using that(1) r(2) by auto
    ultimately show ?thesis using p [OF that(1)] r(3) id [OF assms(2)] by (simp add: d)
  qed
  show "usb_list_type (env_layout E) (cache_id (objs c e)) c = DIR_LIST"
    if "parent (objs c e) = Some p" "parent (objs c p) = Some q"
  proof -
    have "p \<noteq> r" "e \<noteq> r" using that r(2) by auto
    then show ?thesis using p [OF that(1)] id [OF assms(2)] id [of p] by (simp add: d)
  qed
qed

text \<open>The item with a name is found.\<close>

lemma find_name:
  assumes B: "browsable E c xs" and e: "e \<in> set xs" and k: "k < length (contents c e)"
    and d: "list_item_data (env_layout E) c e k = Some (name, kind)"
  shows "look_for_name (env_layout E) (cache_id (objs c e)) 0 0 name c = Some ((True, k, kind), ERR_OK)"
proof -
  let ?L = "env_layout E"
  let ?t = "usb_list_type ?L (cache_id (objs c e)) c"
  define nm where "nm n = fst (the (list_item_data ?L c e n))" for n
  define kd where "kd n = snd (the (list_item_data ?L c e n))" for n
  have "usb_item_data ?L ?t c (specific_data (contents c e ! n)) = Some (nm n, kd n)" if "n < length (contents c e)" for n
    using browsableD(4) [OF B e that] by (auto simp: list_item_data_def nm_def kd_def)
  moreover have "nm m \<noteq> nm k" if "m < k" for m
    using browsableD(5) [OF B e that k] by (simp add: nm_def)
  moreover have "nm k = name" "kd k = kind" "contents c e \<noteq> []" using k d by (auto simp: nm_def kd_def)
  ultimately show ?thesis
    using subscript_match [where xs = "contents c e" and data = "usb_item_data ?L ?t c" and nm = nm and kd = kd and k = k and j = 0
        and kind = K_LOGOUT_LINK] k browsable_lookup [OF B e]
    by (simp add: look_for_name_def usb_for_each_def list_for_each_def for_each_item_flat_def range_end_def Let_def
        split: option.splits)
qed

lemma enter_cached:
  assumes B: "browsable E c xs" and e: "e \<in> set xs" and k: "k < length (contents c e)"
    and f: "lookup_list (env_layout E) (child (contents c e ! k)) c = Some f"
  shows "usb_enter_child E (cache_id (objs c e)) k c = Some (c, child (contents c e ! k), ERR_OK)"
proof -
  have "check_is_cacheable (env_layout E) (child (contents c e ! k)) c"
    using browsableD(3) [OF B] browsable_member [OF B f] by metis
  from enter_cached_child [OF k this] show ?thesis
    using browsable_lookup [OF B e] browsableD(2) [OF B] by (simp add: usb_enter_child_def manager_enter_child_def)
qed

section \<open>Up and down\<close>

lemma one_up:
  assumes B: "browsable E c xs" and e: "e \<in> set xs"
    and up: "get_component_name (env_layout E) (process_name (env_layout E) (usb_list_type (env_layout E) (cache_id (objs c e)) c) c)
      (Some e) i item c = Some (Inr (p, k, name))"
  shows "item < length (contents c e)" "name \<noteq> []"
    and "\<exists>kind. list_item_data (env_layout E) c e item = Some (name, kind)"
    and "parent (objs c e) = Some q \<Longrightarrow>
      p = q \<and> p \<in> set xs \<and> k < length (contents c p) \<and> child (contents c p ! k) = cache_id (objs c e)"
proof -
  from up have U: "item < length (contents c e)" "item_name (env_layout E) (usb_list_type (env_layout E) (cache_id (objs c e)) c) c e item = Some name"
    "name \<noteq> []" "find_parent_link (env_layout E) (cache_id (objs c e)) item c = Some (p, k)"
    by (auto simp: get_component_name_def process_name_def nonempty_name_def split: if_splits option.splits)
  then show "item < length (contents c e)" "name \<noteq> []"
    "\<exists>kind. list_item_data (env_layout E) c e item = Some (name, kind)"
    by (auto simp: item_name_def list_item_data_def)
  show "p = q \<and> p \<in> set xs \<and> k < length (contents c p) \<and> child (contents c p ! k) = cache_id (objs c e)"
    if "parent (objs c e) = Some q"
    using find_parent_link_right [OF U(4) browsable_lookup [OF B e] that] browsable_parent(1) [OF B e that] by simp
qed

definition stepped :: "list_id \<Rightarrow> nat \<Rightarrow> list_id \<Rightarrow> rz_state \<Rightarrow> rz_state" where
  "stepped d k nid s =
     s\<lparr>rs_parent_link := rs_candidate s, rs_result := set_item_data d k (rs_result s), rs_candidate := (d, k),
       rs_dir_list_id := nid\<rparr>"

lemma one_down:
  assumes B: "browsable E c xs" and e: "e \<in> set xs" and k: "k < length (contents c e)"
    and d: "list_item_data (env_layout E) c e k = Some (name, kind)" "env_is_directory E kind"
    and f: "lookup_list (env_layout E) (child (contents c e ! k)) c = Some f"
    and s: "rs_dir_list_id s = cache_id (objs c e)"
  shows "follow_components E False found_any (name # comps) (0, 0) c s =
    follow_components E False found_any comps (0, 0) c (stepped (cache_id (objs c e)) k (child (contents c e ! k)) s)"
  using find_name [OF B e k d(1)] enter_cached [OF B e k f] d(2) s browsable_member(3) [OF B f]
  by (simp add: find_component_def follow_component_def found_any_def stepped_def Let_def)

definition item_link :: "usb_tree \<Rightarrow> addr list \<Rightarrow> list_id \<times> nat \<Rightarrow> bool" where
  "item_link c xs l \<longleftrightarrow> (\<exists>a j. l = (cache_id (objs c a), j) \<and> a \<in> set xs \<and> j < length (contents c a))"

text \<open>The names from a volume down to a list lead from the root directory to the list.\<close>

lemma names_lead_down:
  assumes B: "browsable E c xs"
  shows "directory_names (env_layout E) i n (Some p) k rest c = Some (Inr (Some v, m, names)) \<Longrightarrow>
    e \<in> set xs \<Longrightarrow> depth (objs c) e = n + 3 \<Longrightarrow> parent (objs c e) = Some p \<Longrightarrow>
    k < length (contents c p) \<Longrightarrow> child (contents c p ! k) = cache_id (objs c e) \<Longrightarrow>
    \<exists>ups. names = ups @ rest \<and> v \<in> set xs \<and> depth (objs c) v = 2 \<and> m < length (contents c v) \<and>
      lookup_list (env_layout E) (child (contents c v ! m)) c \<noteq> None \<and>
      (\<forall>nm \<in> set ups. nm \<noteq> [] \<and> CHR ''/'' \<notin> set nm) \<and>
      (\<forall>s comps. rs_dir_list_id s = child (contents c v ! m) \<longrightarrow>
         (\<exists>s'. follow_components E False found_any (ups @ comps) (0, 0) c s = follow_components E False found_any comps (0, 0) c s' \<and>
            rs_dir_list_id s' = cache_id (objs c e) \<and>
            (item_link c xs (rs_candidate s') \<or> rs_candidate s' = rs_candidate s)))"
proof (induction n arbitrary: p k rest e)
  case 0
  then show ?case
    using browsable_parent [OF B 0(2,4)] browsable_lookup [OF B 0(2)] by (intro exI [of _ "[]"]) auto
next
  case (Suc n)
  let ?L = "env_layout E"
  note P = browsable_parent [OF B Suc.prems(2,4)]
  obtain q where q: "parent (objs c p) = Some q"
    using P(3) Suc.prems(3) by (cases "parent (objs c p)") (auto simp: depth_def chain.simps [of "objs c" p])
  note Q = browsable_parent [OF B P(1) q]
  obtain q' where "parent (objs c q) = Some q'"
    using P(3) Q(3) Suc.prems(3) by (cases "parent (objs c q)") (auto simp: depth_def chain.simps [of "objs c" q])
  then have t: "usb_list_type ?L (cache_id (objs c p)) c = DIR_LIST" using list_types(3) [OF B P(1) q] by simp
  from Suc.prems(1) obtain p' k' name where U:
    "get_component_name ?L (process_name ?L DIR_LIST c) (Some p) i k c = Some (Inr (p', k', name))"
    "directory_names ?L i n (Some p') k' (name # rest) c = Some (Inr (Some v, m, names))"
    by (auto split: option.splits sum.splits)
  note up = one_up [OF B P(1) U(1) [folded t]]
  have link: "p' = q" "p' \<in> set xs" "k' < length (contents c p')" "child (contents c p' ! k') = cache_id (objs c p)"
    using up(4) [OF q] by blast+
  obtain kind where d: "list_item_data ?L c p k = Some (name, kind)" using up(3) by blast
  have dir: "env_is_directory E kind" "CHR ''/'' \<notin> set name"
    using browsableD(6,7) [OF B P(1) Suc.prems(5) t] d Suc.prems(6)
      member_lookup(2) [OF browsableD(1) [OF B] Suc.prems(2)] by simp_all
  have e: "lookup_list ?L (child (contents c p ! k)) c = Some e"
    using browsable_lookup [OF B Suc.prems(2)] Suc.prems(6) by simp
  obtain ups where IH: "names = ups @ name # rest" "v \<in> set xs" "depth (objs c) v = 2" "m < length (contents c v)"
      "lookup_list ?L (child (contents c v ! m)) c \<noteq> None" "\<forall>nm \<in> set ups. nm \<noteq> [] \<and> CHR ''/'' \<notin> set nm"
    and F: "\<And>s comps. rs_dir_list_id s = child (contents c v ! m) \<Longrightarrow>
      \<exists>s'. follow_components E False found_any (ups @ comps) (0, 0) c s = follow_components E False found_any comps (0, 0) c s' \<and>
        rs_dir_list_id s' = cache_id (objs c p) \<and>
        (item_link c xs (rs_candidate s') \<or> rs_candidate s' = rs_candidate s)"
    using Suc.IH [OF U(2) P(1) _ _ link(3,4)] q link(1) P(3) Suc.prems(3) by auto
  have "\<exists>s'. follow_components E False found_any ((ups @ [name]) @ comps) (0, 0) c s = follow_components E False found_any comps (0, 0) c s' \<and>
      rs_dir_list_id s' = cache_id (objs c e) \<and>
      (item_link c xs (rs_candidate s') \<or> rs_candidate s' = rs_candidate s)"
    if s: "rs_dir_list_id s = child (contents c v ! m)" for s comps
  proof -
    obtain s' where s': "follow_components E False found_any (ups @ name # comps) (0, 0) c s =
        follow_components E False found_any (name # comps) (0, 0) c s'" "rs_dir_list_id s' = cache_id (objs c p)"
      using F [OF s, of "name # comps"] by blast
    show ?thesis
      using s'(1) one_down [OF B P(1) Suc.prems(5) d dir(1) e s'(2), of comps] Suc.prems(5,6) P(1)
      by (intro exI [of _ "stepped (cache_id (objs c p)) k (child (contents c p ! k)) s'"]) (auto simp: stepped_def item_link_def)
  qed
  moreover have "names = (ups @ [name]) @ rest" "\<forall>nm \<in> set (ups @ [name]). nm \<noteq> [] \<and> CHR ''/'' \<notin> set nm"
    using IH(1,6) up(2) dir(2) by auto
  ultimately show ?case using IH(2-5) by blast
qed

lemma last_down:
  assumes B: "browsable E c xs" and e: "e \<in> set xs" and k: "k < length (contents c e)"
    and d: "list_item_data (env_layout E) c e k = Some (name, kind)"
    and f: "\<not> env_is_directory E kind \<or> lookup_list (env_layout E) (child (contents c e ! k)) c \<noteq> None"
    and s: "rs_dir_list_id s = cache_id (objs c e)"
  shows "\<exists>s'. follow_components E False found_any [name] (0, 0) c s = Some (c, s', ERR_OK) \<and>
    rs_parent_link s' = rs_candidate s \<and> rs_result s' = set_item_data (cache_id (objs c e)) k (rs_result s)"
proof (cases "env_is_directory E kind")
  case True
  then obtain f where "lookup_list (env_layout E) (child (contents c e ! k)) c = Some f" using f by auto
  from one_down [OF B e k d True this s, of "[]"] show ?thesis by (simp add: stepped_def)
next
  case False
  then show ?thesis using find_name [OF B e k d] s
    by (simp add: find_component_def follow_component_def found_any_def Let_def)
qed

lemma title_exists:
  assumes "browsable E c xs" "a \<in> set xs" "j < length (contents c a)"
  shows "\<exists>t. usb_get_child_list_title E (cache_id (objs c a)) j c = Some t"
  using browsableD(4) [OF assms] browsable_lookup [OF assms(1,2)] assms(3)
  by (auto simp: usb_get_child_list_title_def get_dynamic_title_def list_item_data_def Let_def)

section \<open>Devices and volumes\<close>

lemma find_device:
  assumes B: "browsable E c xs" and r: "r \<in> set xs" "parent (objs c r) = None" and k: "k < length (contents c r)"
    and d: "list_item_data (env_layout E) c r k = Some (name, kind)"
  shows "\<exists>d. get_device_by_name name (contents c r) = Some (k, d)"
proof -
  note t = list_types(1) [OF B r]
  have data: "\<exists>d. specific_data (contents c r ! n) = Device d \<and> list_item_data (env_layout E) c r n = Some (device_name d, K_STORAGE_DEVICE)"
    if "n < length (contents c r)" for n
    using browsableD(4) [OF B r(1) that] by (auto simp: list_item_data_def t usb_item_data_def split: usb_data.splits)
  obtain dk where dk: "specific_data (contents c r ! k) = Device dk" "device_name dk = name" using data [OF k] d by auto
  have "\<not> is_device (\<lambda>d. device_name d = name) (contents c r ! m)" if "m < k" for m
    using data [of m] that k browsableD(5) [OF B r(1) that k] d by (auto simp: is_device_def)
  then have "index_of (is_device (\<lambda>d. device_name d = name)) (contents c r) = Some k"
    using k dk by (auto simp: index_of_Some is_device_def)
  then show ?thesis using dk(1) by (simp add: get_device_by_name_def get_device_by_x_def)
qed

lemma volume_up:
  assumes B: "browsable E c xs" and v: "v \<in> set xs" "parent (objs c v) = Some r" "parent (objs c r) = None"
    and up: "volume_and_device (env_layout E) i 2 (Some v) m c = Some (Inr (device, volume))"
  shows "\<exists>k kv kr. m < length (contents c v) \<and> list_item_data (env_layout E) c v m = Some (volume, kv) \<and> volume \<noteq> [] \<and>
    r \<in> set xs \<and> k < length (contents c r) \<and> child (contents c r ! k) = cache_id (objs c v) \<and>
    list_item_data (env_layout E) c r k = Some (device, kr) \<and> device \<noteq> []"
proof -
  let ?L = "env_layout E"
  note t = list_types(2) [OF B v]
  obtain x where x: "get_component_name ?L (process_name ?L VOLUME_LIST c) (Some v) i m c = Some x"
    using up by (auto simp: volume_and_device_def split: Option.bind_splits)
  with up obtain p k n where pk: "x = Inr (p, k, n)" by (cases x) (auto simp: volume_and_device_def)
  with up x obtain y where y: "get_component_name ?L (process_name ?L DEVICE_LIST c) (Some p) i k c = Some y"
    by (auto simp: volume_and_device_def)
  with up x pk obtain p' k' where "y = Inr (p', k', device)" "n = volume" by (cases y) (auto simp: volume_and_device_def)
  note U = x [unfolded pk this] y [unfolded this]
  note V = one_up [OF B v(1) U(1) [folded t]]
  have p: "p = r" "r \<in> set xs" "k < length (contents c r)" "child (contents c r ! k) = cache_id (objs c v)"
    using V(4) [OF v(2)] by auto
  note R = one_up [OF B p(2) U(2) [folded list_types(1) [OF B p(2) v(3)], unfolded p(1)]]
  show ?thesis using V(1-3) R(2,3) p by blast
qed

lemma enter_cached_volume:
  assumes B: "browsable E c xs" and v: "v \<in> set xs" "parent (objs c v) = Some r" "parent (objs c r) = None"
    and r: "r \<in> set xs" "k < length (contents c r)" "child (contents c r ! k) = cache_id (objs c v)"
    and d: "list_item_data (env_layout E) c r k = Some (device, kr)" "device \<noteq> []"
    and m: "m < length (contents c v)" "list_item_data (env_layout E) c v m = Some (volume, kv)" "volume \<noteq> []"
    and f: "lookup_list (env_layout E) (child (contents c v ! m)) c \<noteq> None"
  shows "enter_volume E device volume c s = Some (c,
    s\<lparr>rs_dir_list_id := child (contents c v ! m), rs_parent_link := (cache_id (objs c r), k),
      rs_candidate := (cache_id (objs c v), m), rs_result := set_item_data (cache_id (objs c v)) m (rs_result s)\<rparr>, ERR_OK)"
proof -
  have root: "get_list_of_usb_devices (env_layout E) c = Some r" using browsable_root [OF B] r(1) v(3) by metis
  obtain d' where dev: "get_device_by_name device (contents c r) = Some (k, d')" using find_device [OF B r(1) v(3) r(2) d(1)] by blast
  have lv: "lookup_list (env_layout E) (child (contents c r ! k)) c = Some v" using browsable_lookup [OF B v(1)] r(3) by simp
  obtain g where g: "lookup_list (env_layout E) (child (contents c v ! m)) c = Some g" using f by auto
  show ?thesis
    using root dev d(2) m(3) enter_cached [OF B r(1,2) lv] enter_cached [OF B v(1) m(1) g] find_name [OF B v(1) m(1,2)]
      browsable_member(3) [OF B lv] browsable_member(3) [OF B g] r(3)
    by (simp add: enter_volume_def Let_def)
qed

lemma device_up:
  assumes B: "browsable E c xs" and r: "r \<in> set xs" "parent (objs c r) = None"
    and up: "volume_and_device (env_layout E) i 1 (Some r) k c = Some (Inr (device, volume))"
  shows "k < length (contents c r) \<and> (\<exists>kr. list_item_data (env_layout E) c r k = Some (device, kr)) \<and> device \<noteq> [] \<and> volume = []"
proof -
  let ?L = "env_layout E"
  obtain y where y: "get_component_name ?L (process_name ?L DEVICE_LIST c) (Some r) i k c = Some y"
    using up by (auto simp: volume_and_device_def)
  with up obtain p k' where "y = Inr (p, k', device)" "volume = []" by (cases y) (auto simp: volume_and_device_def)
  then show ?thesis using one_up [OF B r(1) y [folded list_types(1) [OF B r], unfolded \<open>y = _\<close>]] by auto
qed

text \<open>The first list is looked up.\<close>

lemma component_of_list:
  assumes "lookup_list L i c = Some e"
  shows "get_component_name L f None i item c = get_component_name L f (Some e) i item c"
    and "volume_and_device L i n None item c = volume_and_device L i n (Some e) item c"
  using assms by (auto simp: get_component_name_def volume_and_device_def)

lemma directory_names_entry:
  "directory_names L i n (Some p) k names c = Some (Inr (entry, item, names')) \<Longrightarrow> \<exists>v. entry = Some v"
  by (induction n arbitrary: p k names) (auto split: option.splits sum.splits)

section \<open>The round trip\<close>

text \<open>An item can be realised without loading lists: its own list is cached, or it is a file.\<close>

definition item_cached :: "usb_env \<Rightarrow> usb_tree \<Rightarrow> addr \<Rightarrow> nat \<Rightarrow> bool" where
  "item_cached E c e n \<longleftrightarrow>
     lookup_list (env_layout E) (child (contents c e ! n)) c \<noteq> None \<or>
     (usb_list_type (env_layout E) (cache_id (objs c e)) c = DIR_LIST \<and>
      \<not> env_is_directory E (snd (the (list_item_data (env_layout E) c e n))))"

lemma finish_with_link:
  assumes "browsable E c xs" "item_link c xs (rs_parent_link s) \<or> rs_parent_link s = (invalid_id, 0)"
    and "rs_result s = set_item_data i n res"
  shows "\<exists>res'. finish_realize E (c, s, err) = Some (c, res', err) \<and> rz_list_id res' = i \<and> rz_item_id res' = of_nat n"
proof (cases "id_is_valid (env_layout E) (rz_list_id (rs_result s)) \<and> id_is_valid (env_layout E) (fst (rs_parent_link s))")
  case True
  then have "item_link c xs (rs_parent_link s)" using assms(2) by (auto simp: id_is_valid_def ListIDTraits_is_valid_def)
  then obtain t where "usb_get_child_list_title E (fst (rs_parent_link s)) (snd (rs_parent_link s)) c = Some t"
    using title_exists [OF assms(1)] unfolding item_link_def by (metis fst_conv snd_conv)
  then show ?thesis using True assms(3) by (simp add: finish_realize_def set_list_title_def set_item_data_def)
next
  case False
  then show ?thesis using assms(3) by (auto simp: finish_realize_def set_list_title_def set_item_data_def)
qed

lemma realize_device:
  assumes B: "browsable E c xs" and r: "r \<in> set xs" "parent (objs c r) = None"
    and k: "k < length (contents c r)" "list_item_data (env_layout E) c r k = Some (device, kr)" "device \<noteq> []"
    and v: "lookup_list (env_layout E) (child (contents c r ! k)) c = Some v"
  shows "\<exists>res'. realize_simple E device [] [] c res = Some (c, res', ERR_OK) \<and> rz_list_id res' = cache_id (objs c r) \<and>
    rz_item_id res' = of_nat k"
proof -
  have root: "get_list_of_usb_devices (env_layout E) c = Some r" using browsable_root [OF B] r by metis
  obtain d where dev: "get_device_by_name device (contents c r) = Some (k, d)" using find_device [OF B r k(1,2)] by blast
  let ?s = "(mk_rz_state res)\<lparr>rs_candidate := (cache_id (objs c r), k), rs_result := set_item_data (cache_id (objs c r)) k res\<rparr>"
  have "enter_volume E device [] c (mk_rz_state res) = Some (c, ?s, ERR_OK)"
    using root dev k(3) enter_cached [OF B r(1) k(1) v] browsable_member(3) [OF B v]
    by (simp add: enter_volume_def mk_rz_state_def Let_def)
  moreover have "follow_path E False found_any [] (0, 0) c ?s = Some (c, ?s, ERR_OK)"
    by (simp add: follow_path_def mk_rz_state_def id_is_valid_def ListIDTraits_is_valid_def)
  ultimately show ?thesis
    using finish_with_link [OF B, of ?s _ _ _ ERR_OK] by (simp add: realize_simple_def mk_rz_state_def)
qed

lemma realize_volume:
  assumes B: "browsable E c xs" and v: "v \<in> set xs" "parent (objs c v) = Some r" "parent (objs c r) = None"
    and up: "volume_and_device (env_layout E) i 2 (Some v) m c = Some (Inr (device, volume))"
    and f: "lookup_list (env_layout E) (child (contents c v ! m)) c \<noteq> None"
  obtains s where "enter_volume E device volume c (mk_rz_state res) = Some (c, s, ERR_OK)"
    "rs_dir_list_id s = child (contents c v ! m)" "item_link c xs (rs_parent_link s)" "item_link c xs (rs_candidate s)"
    "rs_result s = set_item_data (cache_id (objs c v)) m res" "m < length (contents c v)"
proof -
  obtain k kv kr where V: "m < length (contents c v)" "list_item_data (env_layout E) c v m = Some (volume, kv)" "volume \<noteq> []"
    "r \<in> set xs" "k < length (contents c r)" "child (contents c r ! k) = cache_id (objs c v)"
    "list_item_data (env_layout E) c r k = Some (device, kr)" "device \<noteq> []"
    using volume_up [OF B v up] by blast
  show ?thesis
    by (rule that [OF enter_cached_volume [OF B v V(4-8) V(1-3) f, of "mk_rz_state res"]])
      (use V v(1) in \<open>auto simp: item_link_def mk_rz_state_def\<close>)
qed

lemma location_key_parts:
  assumes B: "browsable E c xs" and e: "lookup_list (env_layout E) i c = Some e"
    and key: "usb_get_location_key (env_layout E) i pos False c = Some (Inr (Location_key_simple device volume names))"
  shows "\<exists>entry item.
    directory_names (env_layout E) i (depth (objs c) e - 2) None (item_of_position pos) [] c = Some (Inr (entry, item, names)) \<and>
    volume_and_device (env_layout E) i (min (depth (objs c) e) 2) entry item c = Some (Inr (device, volume))"
proof -
  let ?L = "env_layout E" and ?d = "depth (objs c) e"
  have "lookup c i = Some e" using e by (simp add: lookup_list_def split: if_splits)
  then have dep: "get_list_depth ?L i c = ?d" using browsable_member(3) [OF B e] by (simp add: get_list_depth_def)
  obtain x where x: "directory_names ?L i (?d - 2) None (item_of_position pos) [] c = Some x"
    using key unfolding usb_get_location_key_def dep Let_def by (auto split: if_splits Option.bind_splits)
  with key obtain entry item ns where xs: "x = Inr (entry, item, ns)"
    unfolding usb_get_location_key_def dep Let_def by (cases x) (auto split: if_splits)
  with key x obtain y where y: "volume_and_device ?L i (min ?d 2) entry item c = Some y"
    unfolding usb_get_location_key_def dep Let_def by (auto split: if_splits)
  with key x xs have "y = Inr (device, volume) \<and> ns = names"
    unfolding usb_get_location_key_def dep Let_def by (cases y) (auto split: if_splits)
  then show ?thesis using x y xs by blast
qed

lemma realize_in_directory:
  assumes B: "browsable E c xs" and e: "lookup_list (env_layout E) i c = Some e" and deep: "depth (objs c) e \<ge> 3"
    and key: "usb_get_location_key (env_layout E) i pos False c = Some (Inr (Location_key_simple device volume names))"
    and cached: "item_cached E c e (item_of_position pos)"
  shows "\<exists>res'. realize_simple E device volume (join_path names) c res = Some (c, res', ERR_OK) \<and>
    rz_list_id res' = i \<and> rz_item_id res' = pos - 1"
proof -
  let ?L = "env_layout E" and ?n = "item_of_position pos"
  note m = browsable_member [OF B e]
  obtain n where n: "depth (objs c) e = n + 3" using deep by (metis add.commute le_Suc_ex)
  obtain entry item where K: "directory_names ?L i (Suc n) None ?n [] c = Some (Inr (entry, item, names))"
    "volume_and_device ?L i 2 entry item c = Some (Inr (device, volume))"
    using location_key_parts [OF B e key] n by (auto simp: numeral_eq_Suc)
  obtain p where p: "parent (objs c e) = Some p"
    using n by (cases "parent (objs c e)") (auto simp: depth_def chain.simps [of "objs c" e])
  note P = browsable_parent [OF B m(1) p]
  obtain q where q: "parent (objs c p) = Some q"
    using n P(3) by (cases "parent (objs c p)") (auto simp: depth_def chain.simps [of "objs c" p])
  note t = list_types(3) [OF B m(1) p q]
  from K(1) obtain p' k name where U:
    "get_component_name ?L (process_name ?L DIR_LIST c) (Some e) i ?n c = Some (Inr (p', k, name))"
    "directory_names ?L i n (Some p') k [name] c = Some (Inr (entry, item, names))"
    unfolding directory_names.simps component_of_list(1) [OF e] by (auto split: option.splits sum.splits)
  note up = one_up [OF B m(1) U(1) [folded t]]
  obtain kind where d: "list_item_data ?L c e ?n = Some (name, kind)" using up(3) by blast
  have link: "p' = p" "k < length (contents c p)" "child (contents c p ! k) = cache_id (objs c e)"
    using up(4) [OF p] by auto
  obtain v where v: "entry = Some v" using directory_names_entry [OF U(2)] by blast
  obtain ups where W: "names = ups @ [name]" "v \<in> set xs" "depth (objs c) v = 2"
      "lookup_list ?L (child (contents c v ! item)) c \<noteq> None" "\<forall>nm \<in> set ups. nm \<noteq> [] \<and> CHR ''/'' \<notin> set nm"
    and F: "\<And>s comps. rs_dir_list_id s = child (contents c v ! item) \<Longrightarrow>
      \<exists>s'. follow_components E False found_any (ups @ comps) (0, 0) c s = follow_components E False found_any comps (0, 0) c s' \<and>
        rs_dir_list_id s' = cache_id (objs c e) \<and> (item_link c xs (rs_candidate s') \<or> rs_candidate s' = rs_candidate s)"
    using names_lead_down [OF B U(2) [unfolded v link(1)] m(1) n p link(2,3)] by auto
  obtain r where r: "parent (objs c v) = Some r"
    using W(3) by (cases "parent (objs c v)") (auto simp: depth_def chain.simps [of "objs c" v])
  have "depth (objs c) r = 1" using W(3) browsable_parent(3) [OF B W(2) r] by simp
  then have "parent (objs c r) = None"
    using browsable_parent [OF B browsable_parent(1) [OF B W(2) r]] by (cases "parent (objs c r)") (auto simp: depth_def)
  then obtain s where s: "enter_volume E device volume c (mk_rz_state res) = Some (c, s, ERR_OK)"
    "rs_dir_list_id s = child (contents c v ! item)" "item_link c xs (rs_candidate s)"
    using realize_volume [OF B W(2) r _ K(2) [unfolded v] W(4)] by metis
  obtain s' where s': "follow_components E False found_any names (0, 0) c s = follow_components E False found_any [name] (0, 0) c s'"
    "rs_dir_list_id s' = cache_id (objs c e)" "item_link c xs (rs_candidate s')"
    using F [OF s(2), of "[name]"] s(3) W(1) by metis
  have "\<not> env_is_directory E kind \<or> lookup_list ?L (child (contents c e ! ?n)) c \<noteq> None"
    using cached d by (auto simp: item_cached_def)
  from last_down [OF B m(1) up(1) d this s'(2)] obtain s2 where s2:
    "follow_components E False found_any [name] (0, 0) c s' = Some (c, s2, ERR_OK)"
    "rs_parent_link s2 = rs_candidate s'" "rs_result s2 = set_item_data i ?n (rs_result s')" using m(2) by auto
  have "CHR ''/'' \<notin> set name" using browsableD(6) [OF B m(1) up(1) t] d by simp
  then have "path_components (join_path names) = names"
    using W(1,5) up(2) by (intro path_components_join) auto
  moreover have "id_is_valid ?L (rs_dir_list_id s)" using W(4) s(2) browsable_member(3) [OF B] by auto
  ultimately have "follow_path E False found_any (join_path names) (0, 0) c s = Some (c, s2, ERR_OK)"
    using s'(1) s2(1) by (simp add: follow_path_def)
  then show ?thesis
    using s(1) finish_with_link [OF B _ s2(3), of ERR_OK] s2(2) s'(3)
    by (simp add: realize_simple_def item_of_position_def)
qed

text \<open>C9: The simple location key of an item leads back to the item: when the key of an item of a cached
  list is taken apart and realised, the result names the list and the position of the item,
  there is no error, and the tree is not changed. This holds for trees whose lists have unique names,
  for items whose own list, if they have one, is cached, and for paths whose components are separated
  by slashes.\<close>

theorem location_key_roundtrip:
  assumes B: "browsable E c xs" and e: "lookup_list (env_layout E) i c = Some e"
    and key: "usb_get_location_key (env_layout E) i pos False c = Some (Inr (Location_key_simple device volume names))"
    and cached: "item_cached E c e (item_of_position pos)"
  shows "\<exists>res'. realize_simple E device volume (join_path names) c res = Some (c, res', ERR_OK) \<and>
    rz_list_id res' = i \<and> rz_item_id res' = pos - 1"
proof -
  let ?L = "env_layout E" and ?n = "item_of_position pos"
  note m = browsable_member [OF B e]
  have at: "of_nat ?n = pos - 1" by (simp add: item_of_position_def)
  note K = location_key_parts [OF B e key]
  show ?thesis
  proof (cases "parent (objs c e)")
    case None
    then have d: "depth (objs c) e = 1" by (simp add: depth_def chain.simps)
    then have n: "names = []" "volume_and_device ?L i 1 (Some e) ?n c = Some (Inr (device, volume))"
      using K component_of_list(2) [OF e] by auto
    obtain v where "lookup_list ?L (child (contents c e ! ?n)) c = Some v"
      using cached list_types(1) [OF B m(1) None] m(2) by (auto simp: item_cached_def)
    then show ?thesis
      using device_up [OF B m(1) None n(2)] realize_device [OF B m(1) None, where k = ?n and res = res] at m(2) n(1) by fastforce
  next
    case (Some p)
    note P = browsable_parent [OF B m(1) Some]
    show ?thesis
    proof (cases "parent (objs c p)")
      case None
      then have d: "depth (objs c) e = 2" using P(3) by (simp add: depth_def chain.simps)
      then have n: "names = []" "volume_and_device ?L i 2 (Some e) ?n c = Some (Inr (device, volume))"
        using K component_of_list(2) [OF e] by auto
      have "lookup_list ?L (child (contents c e ! ?n)) c \<noteq> None"
        using cached list_types(2) [OF B m(1) Some None] m(2) by (auto simp: item_cached_def)
      then obtain s where s: "enter_volume E device volume c (mk_rz_state res) = Some (c, s, ERR_OK)"
        "item_link c xs (rs_parent_link s)" "rs_result s = set_item_data i ?n res"
        using realize_volume [OF B m(1) Some None n(2)] m(2) by metis
      have "follow_path E False found_any [] (0, 0) c s = Some (c, s, ERR_OK)"
        by (simp add: follow_path_def path_components.simps)
      then show ?thesis using s finish_with_link [OF B disjI1 [OF s(2)] s(3), of ERR_OK] n(1) at
        by (simp add: realize_simple_def)
    next
      case (Some q)
      then have "depth (objs c) e \<ge> 3"
        using P(3) browsable_parent(3) [OF B P(1) Some] by (cases "chain (objs c) q") (auto simp: depth_def)
      then show ?thesis using realize_in_directory [OF B e _ key cached] by blast
    qed
  qed
qed

definition sample_deep_heap :: heap where
  "sample_deep_heap = (\<lambda>a.
     if a = 10 then \<lparr>parent = None, children_count = 1, cache_id = 1, object_size = 10, pinned = False,
                    last_used = 7, younger = None, older = Some 20\<rparr>
     else if a = 20 then \<lparr>parent = Some 10, children_count = 1, cache_id = 2, object_size = 20, pinned = False,
                    last_used = 5, younger = Some 10, older = Some 30\<rparr>
     else if a = 30 then \<lparr>parent = Some 20, children_count = 0, cache_id = 3, object_size = 20, pinned = False,
                    last_used = 5, younger = Some 20, older = None\<rparr>
     else mk_entry None 8)"

definition sample_deep_tree :: usb_tree where
  "sample_deep_tree = \<lparr>objs = sample_deep_heap, id_gen = mk_id_generator 1 (VALUE_MASK sample_layout),
     memory_limits = mk_cache_limits 1000 900 800, count_limits = mk_cache_limits 100 900 800,
     maximum_age_threshold = 15, all_objects = [(1, 10), (2, 20), (3, 30)],
     root_object = Some 10, oldest_object = Some 30, deepest_youngest_object = Some 10,
     pinned_object_id = 0, minimum_required_creation_time = 5, total_size = 50, gc_running = False,
     timeout_source_id = 0, is_enabled = True, sources = [],
     broker = USB_BROKER, checks = no_override_table,
     contents = (\<lambda>a. if a = 10 then [\<lparr>child = 2, specific_data = Device sample_usb_device\<rparr>]
                  else if a = 20 then [\<lparr>child = 3, specific_data = Volume \<lparr>volume_device_id = 7, volume_number = 1\<rparr>\<rparr>]
                  else if a = 30 then [\<lparr>child = 0, specific_data = File \<lparr>file_name = ''b'', file_kind = K_REGULAR_FILE\<rparr>\<rparr>]
                  else []),
     killed_register = {}, signals = [], bug_reports = 0, pending_list = None, default_cache_mode_request = REQ_AUTO,
     devices_list_id = 1\<rparr>"

definition sample_env :: usb_env where
  "sample_env = \<lparr>env_layout = sample_layout, env_gid = (\<lambda>_. 1), env_now = 9, env_fresh = (\<lambda>_. 40),
     env_entries = (\<lambda>_. None), env_size_of_volume_list = 8, env_size_of_dir_list = 8, env_may_continue = True,
     env_is_directory = (\<lambda>k. k \<noteq> K_REGULAR_FILE)\<rparr>"

lemma sample_deep_chain:
  "chain sample_deep_heap 10 = [10]" "chain sample_deep_heap 20 = [20, 10]" "chain sample_deep_heap 30 = [30, 20, 10]"
proof -
  have "parent (sample_deep_heap 10) = None" "parent (sample_deep_heap 20) = Some 10" "parent (sample_deep_heap 30) = Some 20"
    by (simp_all add: sample_deep_heap_def)
  then show "chain sample_deep_heap 10 = [10]" "chain sample_deep_heap 20 = [20, 10]" "chain sample_deep_heap 30 = [30, 20, 10]"
    by (simp_all add: chain.simps [of sample_deep_heap 20] chain.simps [of sample_deep_heap 30] chain.simps [of sample_deep_heap 10])
qed

lemma sample_deep_ids:
  "id_is_valid sample_layout 3" "\<not> get_nocache_bit sample_layout 1" "\<not> get_nocache_bit sample_layout 2" "\<not> get_nocache_bit sample_layout 3"
  "\<not> id_is_valid sample_layout 0"
  by (simp_all add: id_is_valid_def ListIDTraits_is_valid_def VALUE_MASK_def NOCACHE_BIT_def sample_layout_def get_nocache_bit_def)

lemma sample_deep_inv: "cache_inv sample_layout sample_deep_tree [30, 20, 10]"
proof -
  have "aging_list_of sample_deep_heap (Some 10) [30, 20, 10]"
    unfolding aging_list_of_def by (auto simp: sample_deep_chain parents_older_def sample_deep_heap_def mk_entry_def)
  moreover have "roots_ok sample_deep_heap [30, 20, 10]" by (simp add: roots_ok_def sample_deep_heap_def last_opt_def)
  moreover have "ids_ok sample_layout sample_deep_heap [(1, 10), (2, 20), (3, 30)] {30, 20, 10}"
    by (auto simp: ids_ok_def sample_deep_heap_def sample_valid sample_deep_ids)
  moreover have "{b. (b = 30 \<or> b = 20 \<or> b = 10) \<and> parent (sample_deep_heap b) = Some 10} = {20}"
    "{b. (b = 30 \<or> b = 20 \<or> b = 10) \<and> parent (sample_deep_heap b) = Some 20} = {30}"
    "{b. (b = 30 \<or> b = 20 \<or> b = 10) \<and> parent (sample_deep_heap b) = Some 30} = {}"
    by (auto simp: sample_deep_heap_def)
  then have "counts_ok sample_deep_heap {30, 20, 10} 50"
    by (simp add: counts_ok_def) (simp add: sample_deep_heap_def)
  moreover have "pins_ok sample_layout sample_deep_heap [(1, 10), (2, 20), (3, 30)] {30, 20, 10} 0"
    by (auto simp: pins_ok_def pinned_path_def sample_deep_heap_def sample_deep_ids)
  moreover have "ages_ok sample_deep_heap (Some 10) [30, 20, 10] 5"
    by (simp add: ages_ok_def sample_deep_chain last_opt_def) (simp add: sample_deep_heap_def)
  moreover have "generator_ok sample_layout (mk_id_generator 1 (VALUE_MASK sample_layout))"
    by (rule generator_ok_initial) (simp_all add: one_le_VALUE_MASK [OF sample_layout_ok])
  ultimately show ?thesis
    using sample_layout_ok by (simp add: cache_inv_def sample_deep_tree_def last_opt_def)
qed

lemma sample_deep_fields:
  "cache_id (objs sample_deep_tree 10) = 1" "cache_id (objs sample_deep_tree 20) = 2" "cache_id (objs sample_deep_tree 30) = 3"
  "parent (objs sample_deep_tree 10) = None" "parent (objs sample_deep_tree 20) = Some 10" "parent (objs sample_deep_tree 30) = Some 20"
  "lookup sample_deep_tree 1 = Some 10" "lookup sample_deep_tree 2 = Some 20" "lookup sample_deep_tree 3 = Some 30"
  "contents sample_deep_tree 10 = [\<lparr>child = 2, specific_data = Device sample_usb_device\<rparr>]"
  "contents sample_deep_tree 20 = [\<lparr>child = 3, specific_data = Volume \<lparr>volume_device_id = 7, volume_number = 1\<rparr>\<rparr>]"
  "contents sample_deep_tree 30 = [\<lparr>child = 0, specific_data = File \<lparr>file_name = ''b'', file_kind = K_REGULAR_FILE\<rparr>\<rparr>]"
  "devices_list_id sample_deep_tree = 1" "broker sample_deep_tree = USB_BROKER"
  by (simp_all add: sample_deep_tree_def sample_deep_heap_def lookup_def)

lemma sample_deep_depth: "depth (objs sample_deep_tree) 30 = 3"
  by (simp add: depth_def sample_deep_tree_def sample_deep_chain)

lemma sample_deep_types:
  "usb_list_type sample_layout 1 sample_deep_tree = DEVICE_LIST" "usb_list_type sample_layout 2 sample_deep_tree = VOLUME_LIST"
  "usb_list_type sample_layout 3 sample_deep_tree = DIR_LIST"
  by (simp_all add: usb_list_type_def is_volume_list_or_invalid_def get_parent_list_id_def sample_deep_fields sample_valid sample_deep_ids)

lemma sample_deep_data:
  "list_item_data sample_layout sample_deep_tree 10 0 = Some (''Stick'', K_STORAGE_DEVICE)"
  "list_item_data sample_layout sample_deep_tree 20 0 = Some (''A'', K_STORAGE_DEVICE)"
  "list_item_data sample_layout sample_deep_tree 30 0 = Some (''b'', K_REGULAR_FILE)"
proof -
  have "get_volume_name 1 sample_usb_device = Some ''A''"
    by (simp add: get_volume_name_def lookup_existing_volume_info_def lower_bound_def sample_usb_device_def)
  then have "volume_name sample_layout \<lparr>volume_device_id = 7, volume_number = 1\<rparr> sample_deep_tree = Some ''A''"
    by (simp add: volume_name_def get_list_of_usb_devices_def lookup_list_def sample_deep_fields sample_valid get_device_by_id_def
        get_device_by_x_def is_device_def) (simp add: sample_usb_device_def)
  then show "list_item_data sample_layout sample_deep_tree 10 0 = Some (''Stick'', K_STORAGE_DEVICE)"
    "list_item_data sample_layout sample_deep_tree 20 0 = Some (''A'', K_STORAGE_DEVICE)"
    "list_item_data sample_layout sample_deep_tree 30 0 = Some (''b'', K_REGULAR_FILE)"
    by (simp_all add: list_item_data_def usb_item_data_def sample_deep_types sample_deep_fields) (simp add: sample_usb_device_def)
qed

lemma sample_env_fields:
  "env_layout sample_env = sample_layout" "env_is_directory sample_env = (\<lambda>k. k \<noteq> K_REGULAR_FILE)" "env_may_continue sample_env"
  by (simp_all add: sample_env_def)

lemma sample_browsable: "browsable sample_env sample_deep_tree [30, 20, 10]"
  unfolding browsable_def Let_def sample_env_fields(1,2) using sample_deep_inv sample_env_fields(3)
  by (simp add: get_list_of_usb_devices_def lookup_list_def sample_deep_fields sample_valid sample_deep_ids sample_deep_types
      sample_deep_data check_is_cacheable_def is_cacheable_plain_def)

lemma location_key_roundtrip_witness:
  "\<exists>res'. realize_simple sample_env ''Stick'' ''A'' ''/b'' sample_deep_tree mk_realize_url_result = Some (sample_deep_tree, res', ERR_OK) \<and>
     rz_list_id res' = 3 \<and> rz_item_id res' = 0"
proof -
  note L = sample_env_fields
  have e: "lookup_list (env_layout sample_env) 3 sample_deep_tree = Some 30"
    by (simp add: lookup_list_def L sample_deep_fields sample_deep_ids)
  have names: "item_name sample_layout DEVICE_LIST sample_deep_tree 10 0 = Some ''Stick''"
    "item_name sample_layout VOLUME_LIST sample_deep_tree 20 0 = Some ''A''"
    "item_name sample_layout DIR_LIST sample_deep_tree 30 0 = Some ''b''"
    using sample_deep_data by (simp_all add: item_name_def list_item_data_def sample_deep_types sample_deep_fields)
  note up = get_component_name_def process_name_def nonempty_name_def names find_parent_link_def lookup_item_id_by_child_id_def
    lookup_list_def sample_deep_fields sample_deep_ids sample_valid
  have "directory_names sample_layout 3 (Suc 0) None 0 [] sample_deep_tree = Some (Inr (Some 20, 0, [''b'']))"
    by (simp add: up)
  moreover have "volume_and_device sample_layout 3 2 (Some 20) 0 sample_deep_tree = Some (Inr (''Stick'', ''A''))"
    by (simp add: volume_and_device_def up)
  ultimately have key: "usb_get_location_key (env_layout sample_env) 3 1 False sample_deep_tree =
      Some (Inr (Location_key_simple ''Stick'' ''A'' [''b'']))"
    by (simp add: usb_get_location_key_def get_list_depth_def L sample_deep_fields sample_deep_depth sample_deep_ids
        item_of_position_def Let_def)
  have "item_cached sample_env sample_deep_tree 30 (item_of_position 1)"
    by (simp add: item_cached_def L sample_deep_fields sample_deep_types sample_deep_data item_of_position_def)
  from location_key_roundtrip [OF sample_browsable e key this] show ?thesis by simp
qed

end
