(* ===== verification/Usb_Trace_Props.thy ===== *)
theory Usb_Trace_Props
  imports Usb_Location_Props
begin

text \<open>
  Location traces: the checks of the D-Bus handler keep \<^verbatim>\<open>get_location_trace()\<close> from reading the
  first element of an empty vector.
\<close>

lemma process_traced_defined:
  assumes "browsable E c xs" "e \<in> set xs" "t = usb_list_type (env_layout E) (cache_id (objs c e)) c" "item < length (contents c e)"
  shows "process_traced (env_layout E) t ref_i ref_pos found c e item \<noteq> None"
  using browsableD(4) [OF assms(1,2,4)] assms(3) by (simp add: process_traced_def item_name_def list_item_data_def)

lemma component_defined:
  assumes "\<And>k. k < length (contents c e) \<Longrightarrow> f e k \<noteq> None"
  shows "get_component_name L f (Some e) i item c \<noteq> None"
  using assms [of item] by (cases "item < length (contents c e)") (auto simp: get_component_name_def split: option.splits)

lemma component_up:
  assumes B: "browsable E c xs" and e: "e \<in> set xs" "parent (objs c e) = Some q"
    and "get_component_name (env_layout E) f (Some e) i item c = Some (Inr (p, k, x))"
  shows "p = q" and "f e item = Some (Some x)"
proof -
  from assms(4) have "find_parent_link (env_layout E) (cache_id (objs c e)) item c = Some (p, k)" "f e item = Some (Some x)"
    by (auto simp: get_component_name_def split: if_splits option.splits)
  then show "p = q" "f e item = Some (Some x)"
    using find_parent_link_right [OF _ browsable_lookup [OF B e(1)] e(2)] by auto
qed

text \<open>The way up through directories always comes to an end, at a volume unless there is an error.\<close>

lemma traced_names_defined:
  assumes B: "browsable E c xs"
  shows "e \<in> set xs \<Longrightarrow> depth (objs c) e = n + 2 \<Longrightarrow>
    (\<exists>err. traced_names (env_layout E) i ref_i ref_pos n (Some e) item found upper refs names c = Some (Inl err)) \<or>
    (\<exists>v item' found' refs' names'. traced_names (env_layout E) i ref_i ref_pos n (Some e) item found upper refs names c =
        Some (Inr (Some v, item', found', refs', names')) \<and> v \<in> set xs \<and> depth (objs c) v = 2 \<and>
        (names \<noteq> [] \<or> n > 0 \<and> \<not> upper \<and> cache_id (objs c e) \<noteq> ref_i \<longrightarrow> names' \<noteq> []))"
proof (induction n arbitrary: e item found upper refs names)
  case 0
  then show ?case by auto
next
  case (Suc n)
  let ?L = "env_layout E"
  let ?f = "\<lambda>e k. map_option (map_option (\<lambda>(name, found'). (name, found', upper \<or> cache_id (objs c e) = ref_i)))
      (process_traced ?L DIR_LIST ref_i ref_pos found c e k)"
  obtain p where p: "parent (objs c e) = Some p"
    using Suc.prems(2) by (cases "parent (objs c e)") (auto simp: depth_def chain.simps [of "objs c" e])
  note P = browsable_parent [OF B Suc.prems(1) p]
  obtain q where q: "parent (objs c p) = Some q"
    using P(3) Suc.prems(2) by (cases "parent (objs c p)") (auto simp: depth_def chain.simps [of "objs c" p])
  note t = list_types(3) [OF B Suc.prems(1) p q]
  have "get_component_name ?L ?f (Some e) i item c \<noteq> None"
    using process_traced_defined [OF B Suc.prems(1) t [symmetric]] by (intro component_defined) simp
  then obtain x where x: "get_component_name ?L ?f (Some e) i item c = Some x" by blast
  show ?case
  proof (cases x)
    case (Inl err)
    then show ?thesis using x by simp
  next
    case (Inr y)
    then obtain p' k name found' upper' where y: "get_component_name ?L ?f (Some e) i item c = Some (Inr (p', k, name, found', upper'))"
      using x by (cases y) auto
    note up = component_up [OF B Suc.prems(1) p y]
    have u: "upper' \<longleftrightarrow> upper \<or> cache_id (objs c e) = ref_i"
      using up(2) by (auto simp: map_option_case split: option.splits)
    have "traced_names ?L i ref_i ref_pos (Suc n) (Some e) item found upper refs names c =
        traced_names ?L i ref_i ref_pos n (Some p) k found' upper'
          (if upper' then name # refs else refs) (if upper' then names else name # names) c"
      using y up(1) by simp
    moreover have "depth (objs c) p = n + 2" using P(3) Suc.prems(2) by simp
    ultimately show ?thesis
      using Suc.IH [OF P(1), of k found' upper' "if upper' then name # refs else refs" "if upper' then names else name # names"] u
      by (auto split: if_splits)
  qed
qed

lemma traced_volume_defined:
  assumes B: "browsable E c xs" and e: "e \<in> set xs" "depth (objs c) e = d" "d = 1 \<or> d = 2"
  shows "traced_volume_and_device (env_layout E) i ref_i ref_pos d (Some e) item found c \<noteq> None"
proof -
  let ?L = "env_layout E"
  have device: "get_component_name ?L (process_traced ?L DEVICE_LIST ref_i ref_pos found c) (Some r) i item c \<noteq> None"
    if "r \<in> set xs" "parent (objs c r) = None" for r item found
    using process_traced_defined [OF B that(1) list_types(1) [OF B that, symmetric]] by (intro component_defined)
  show ?thesis
  proof (cases "parent (objs c e)")
    case None
    then have "d = 1" using e(2) by (simp add: depth_def chain.simps)
    then show ?thesis using device [OF e(1) None] by (simp add: traced_volume_and_device_def)
  next
    case (Some r)
    note P = browsable_parent [OF B e(1) Some]
    have d: "d = 2" "depth (objs c) r = 1" using e(2,3) P(3) by (auto simp: depth_def)
    have r: "parent (objs c r) = None"
      using d(2) browsable_parent(3) [OF B P(1)] by (cases "parent (objs c r)") (auto simp: depth_def)
    have "get_component_name ?L (process_traced ?L VOLUME_LIST ref_i ref_pos found c) (Some e) i item c \<noteq> None"
      using process_traced_defined [OF B e(1) list_types(2) [OF B e(1) Some r, symmetric]] by (intro component_defined)
    then obtain x where x: "get_component_name ?L (process_traced ?L VOLUME_LIST ref_i ref_pos found c) (Some e) i item c = Some x"
      by blast
    show ?thesis
    proof (cases x)
      case (Inl err)
      then show ?thesis using x d(1) by (simp add: traced_volume_and_device_def)
    next
      case (Inr y)
      then obtain p k name found' where y: "x = Inr (p, k, name, found')" by (cases y) auto
      then have "p = r" using component_up(1) [OF B e(1) Some x [unfolded y]] by simp
      then show ?thesis using x y d(1) device [OF P(1) r] by (simp add: traced_volume_and_device_def)
    qed
  qed
qed

lemma traced_volume_of_list:
  assumes "lookup_list L i c = Some e"
  shows "traced_volume_and_device L i ref_i ref_pos d None item found c = traced_volume_and_device L i ref_i ref_pos d (Some e) item found c"
  using assms by (simp add: traced_volume_and_device_def get_component_name_def)



end
