(* ===== verification/Readiness.thy ===== *)
theory Readiness
  imports LB_Prelude
begin

text \<open>
  The ready state of a broker (\<^verbatim>\<open>src/common/readyprobe.hh\<close>, \<^verbatim>\<open>ready.hh\<close>): a manager watches
  probes, each of which is ready or not, and tells its watchers when all of them are ready and when
  this is over. Within the repository only the tests use it. Calls come one after the other; a probe is
  a flag in the list of the manager, and the calls of watchers, which are numbered, are recorded.
\<close>

record ready_manager =
  ready_probes :: "bool list"
  watcher_count :: nat
  is_ready :: bool
  watcher_calls :: "(nat \<times> bool) list"

fun ready_update_state :: "bool list \<Rightarrow> bool" where
  "ready_update_state [] = True"
| "ready_update_state (p # ps) = (if \<not> p then False else ready_update_state ps)"

definition notify_watchers :: "bool \<Rightarrow> ready_manager \<Rightarrow> ready_manager" where
  "notify_watchers state m =
     m\<lparr>watcher_calls := watcher_calls m @ map (\<lambda>w. (w, state)) [0..<watcher_count m]\<rparr>"

definition mk_ready_manager :: "bool list \<Rightarrow> ready_manager" where
  "mk_ready_manager ps =
     \<lparr>ready_probes = ps, watcher_count = 0, is_ready = ready_update_state ps, watcher_calls = []\<rparr>"

definition add_watcher :: "bool \<Rightarrow> ready_manager \<Rightarrow> ready_manager" where
  "add_watcher call_watchers m =
     (let m1 = m\<lparr>watcher_count := watcher_count m + 1\<rparr>
      in if call_watchers then m1\<lparr>watcher_calls := watcher_calls m1 @ [(watcher_count m, is_ready m)]\<rparr> else m1)"

definition notify_probe_state_changed :: "ready_manager \<Rightarrow> ready_manager" where
  "notify_probe_state_changed m =
     (let temp = ready_update_state (ready_probes m)
      in if is_ready m \<noteq> temp then notify_watchers temp (m\<lparr>is_ready := temp\<rparr>) else m\<lparr>is_ready := temp\<rparr>)"

definition get_probe :: "nat \<Rightarrow> ready_manager \<Rightarrow> bool option" where
  "get_probe k m = (if k < length (ready_probes m) then Some (ready_probes m ! k) else None)"

definition set_ready :: "nat \<Rightarrow> ready_manager \<Rightarrow> ready_manager" where
  "set_ready k m =
     (if \<not> ready_probes m ! k then notify_probe_state_changed (m\<lparr>ready_probes := (ready_probes m)[k := True]\<rparr>) else m)"

definition set_unready :: "nat \<Rightarrow> ready_manager \<Rightarrow> ready_manager" where
  "set_unready k m =
     (if ready_probes m ! k then notify_probe_state_changed (m\<lparr>ready_probes := (ready_probes m)[k := False]\<rparr>) else m)"

datatype ready_op = Set_ready nat | Set_unready nat | Add_watcher bool

text \<open>One call; there are no calls for probes that do not exist.\<close>

fun ready_step :: "ready_op \<Rightarrow> ready_manager \<Rightarrow> ready_manager" where
  "ready_step (Set_ready k) m = (case get_probe k m of None \<Rightarrow> m | Some _ \<Rightarrow> set_ready k m)"
| "ready_step (Set_unready k) m = (case get_probe k m of None \<Rightarrow> m | Some _ \<Rightarrow> set_unready k m)"
| "ready_step (Add_watcher call_watchers) m = add_watcher call_watchers m"

section \<open>What a watcher sees\<close>

definition seen :: "nat \<Rightarrow> ready_manager \<Rightarrow> bool list" where
  "seen w m = map snd (filter (\<lambda>c. fst c = w) (watcher_calls m))"

definition ready_ok :: "ready_manager \<Rightarrow> bool" where
  "ready_ok m \<longleftrightarrow> is_ready m = list_all (\<lambda>p. p) (ready_probes m) \<and>
     (\<forall>w. distinct_adj (seen w m) \<and> (seen w m = [] \<or> w < watcher_count m \<and> last (seen w m) = is_ready m))"

lemma ready_update_state_all: "ready_update_state ps = list_all (\<lambda>p. p) ps"
  by (induction ps) auto

lemma filter_numbered: "filter (\<lambda>c. fst c = w) (map (\<lambda>w. (w, s)) [0..<n]) = (if w < n then [(w, s)] else [])"
  by (induction n) auto

lemma changed_ok:
  assumes "ready_ok m"
  shows "ready_ok (notify_probe_state_changed (m\<lparr>ready_probes := ps\<rparr>))"
proof -
  have "seen w (m\<lparr>ready_probes := ps\<rparr>) = seen w m" "seen w (m\<lparr>ready_probes := ps, is_ready := b\<rparr>) = seen w m" for w b
    by (simp_all add: seen_def)
  moreover have "seen w (notify_watchers b (m\<lparr>ready_probes := ps, is_ready := b\<rparr>)) =
      seen w m @ (if w < watcher_count m then [b] else [])" for w b
    by (simp add: seen_def notify_watchers_def filter_numbered)
  moreover have "seen w m = []" if "\<not> w < watcher_count m" for w using assms that by (auto simp: ready_ok_def)
  ultimately show ?thesis
    using assms by (auto simp: ready_ok_def notify_probe_state_changed_def ready_update_state_all Let_def
        distinct_adj_append_iff) (auto simp: notify_watchers_def)
qed

lemma add_watcher_ok:
  assumes "ready_ok m"
  shows "ready_ok (add_watcher b m)"
proof -
  have "seen w (add_watcher b m) = seen w m @ (if b \<and> w = watcher_count m then [is_ready m] else [])" for w
    by (simp add: seen_def add_watcher_def Let_def)
  moreover have "is_ready (add_watcher b m) = is_ready m" "ready_probes (add_watcher b m) = ready_probes m"
    "watcher_count (add_watcher b m) = Suc (watcher_count m)"
    by (simp_all add: add_watcher_def Let_def)
  moreover have "seen (watcher_count m) m = []" using assms unfolding ready_ok_def by (metis less_irrefl)
  ultimately show ?thesis using assms by (auto simp: ready_ok_def less_SucI)
qed

lemma ready_step_ok: "ready_ok m \<Longrightarrow> ready_ok (ready_step opn m)"
  by (cases opn) (auto simp: set_ready_def set_unready_def changed_ok add_watcher_ok split: option.splits)


end
