(* ===== verification/Filler_Threads.thy ===== *)
theory Filler_Threads
  imports Tile_Inv "HOL-Library.Multiset"
begin

text \<open>
  The life of the threads that fill tiles (\<^verbatim>\<open>ListThreads\<close> in \<^verbatim>\<open>src/common/lists_base.hh\<close>): starting and
  stopping them, waiting for them, and the condition variable on which they sleep while there is
  no work. What the threads do to the tiles is in \<^verbatim>\<open>List_Tiles\<close>; here each of them has a position in
  \<^verbatim>\<open>worker()\<close>. A step of a thread is what it does between taking and releasing the lock of the work
  queue, or the filling of one tile. The parameters \<open>run\<close> are what the threads do while the caller
  waits or has not got the lock yet; \<open>None\<close> is a caller that waits forever.
\<close>

section \<open>The threads\<close>

text \<open>A thread is about to lock the queue, sleeps on \<^verbatim>\<open>work_available_\<close>, fills a tile that it has locked,
  or has left its loop.\<close>

datatype worker = Locking | Asleep | Filling_tile tile_ref | Ended

record 'd list_threads =
  threads :: "worker list"
  pool :: "'d tile_pool"
  shutdown_request :: bool
  is_synchronous_mode :: bool

definition mk_list_threads :: "bool \<Rightarrow> 'd tile_pool \<Rightarrow> 'd list_threads" where
  "mk_list_threads synced p =
     \<lparr>threads = [], pool = p\<lparr>work := []\<rparr>, shutdown_request = False, is_synchronous_mode = synced\<rparr>"

definition set_synchronized :: "'d list_threads \<Rightarrow> 'd list_threads" where
  "set_synchronized s = s\<lparr>is_synchronous_mode := True\<rparr>"

definition set_worker :: "nat \<Rightarrow> worker \<Rightarrow> 'd list_threads \<Rightarrow> 'd list_threads" where
  "set_worker i w s = s\<lparr>threads := (threads s)[i := w]\<rparr>"

text \<open>Which of the sleeping threads \<^verbatim>\<open>notify_one()\<close> wakes is not determined: \<open>j\<close> chooses it.\<close>

definition sleepers :: "worker list \<Rightarrow> nat list" where
  "sleepers ws = filter (\<lambda>i. ws ! i = Asleep) [0..<length ws]"

definition notify_one :: "nat \<Rightarrow> worker list \<Rightarrow> worker list" where
  "notify_one j ws =
     (let is = sleepers ws in if is = [] then ws else ws[is ! (j mod length is) := Locking])"

definition notify_all :: "worker list \<Rightarrow> worker list" where
  "notify_all ws = map (\<lambda>w. if w = Asleep then Locking else w) ws"

section \<open>Operations\<close>

definition start :: "nat \<Rightarrow> 'd list_threads \<Rightarrow> 'd list_threads" where
  "start number_of_threads s =
     s\<lparr>shutdown_request := False, threads := threads s @ replicate number_of_threads Locking\<rparr>"

definition enqueue_work :: "nat \<Rightarrow> tile_ref \<Rightarrow> list_id \<Rightarrow> 'd list_threads \<Rightarrow> 'd list_threads" where
  "enqueue_work j r i s = s\<lparr>pool := enqueue r i (pool s), threads := notify_one j (threads s)\<rparr>"

text \<open>One round of \<^verbatim>\<open>worker()\<close>; \<open>None\<close> if the thread cannot do anything.\<close>

definition worker_round ::
  "ctx_layout \<Rightarrow> ('d \<Rightarrow> 'd) \<Rightarrow> nat \<Rightarrow> 'd filler \<Rightarrow> nat \<Rightarrow> 'd list_threads \<Rightarrow> 'd list_threads option" where
  "worker_round L rd ts filler i s =
     (if i < length (threads s) then
        (case threads s ! i of
           Locking \<Rightarrow>
             if shutdown_request s then Some (set_worker i Ended s)
             else (case work (pool s) of
                     [] \<Rightarrow> Some (set_worker i Asleep s)
                   | (r, _) # _ \<Rightarrow>
                       map_option (\<lambda>p. set_worker i (Filling_tile r) (s\<lparr>pool := p\<rparr>)) (worker_take (pool s)))
         | Filling_tile r \<Rightarrow>
             Some (set_worker i Locking (s\<lparr>pool := worker_done L rd ts filler r (pool s)\<rparr>))
         | Asleep \<Rightarrow> None
         | Ended \<Rightarrow> None)
      else None)"

text \<open>The thread that has the lock of a tile gives it back.\<close>

definition release :: "tile_ref \<Rightarrow> worker list \<Rightarrow> worker list" where
  "release r ws = map (\<lambda>w. if w = Filling_tile r then Locking else w) ws"

text \<open>The thread that fills the tile has finished it when \<^verbatim>\<open>cancel_filler()\<close> gets the lock of the tile.\<close>

definition cancel_filler_of ::
  "ctx_layout \<Rightarrow> ('d \<Rightarrow> 'd) \<Rightarrow> nat \<Rightarrow> 'd filler \<Rightarrow> tile_ref \<Rightarrow> 'd list_threads \<Rightarrow> 'd list_threads" where
  "cancel_filler_of L rd ts filler r s =
     s\<lparr>pool := cancel_filler L rd ts filler r (pool s),
       threads := (if being_filled (tiles (pool s) r) = None then threads s
                   else release r (threads s))\<rparr>"

definition wait_empty :: "('d list_threads \<Rightarrow> 'd list_threads) \<Rightarrow> 'd list_threads \<Rightarrow> 'd list_threads option" where
  "wait_empty run s = (let s' = run s in if work (pool s') = [] then Some s' else None)"

definition wait_empty_if_synchronized ::
  "('d list_threads \<Rightarrow> 'd list_threads) \<Rightarrow> 'd list_threads \<Rightarrow> 'd list_threads option" where
  "wait_empty_if_synchronized run s = (if is_synchronous_mode s then wait_empty run s else Some s)"

text \<open>The threads may run between the request and the wake-up, and they run until all have been joined.\<close>

definition shutdown ::
  "('d list_threads \<Rightarrow> 'd list_threads) \<Rightarrow> ('d list_threads \<Rightarrow> 'd list_threads) \<Rightarrow> 'd list_threads \<Rightarrow>
   ('d list_threads \<times> nat) option" where
  "shutdown run joining s =
     (let s1 = s\<lparr>shutdown_request := True\<rparr>
      in if shutdown_request s \<or> threads s1 = [] then Some (s1, 0)
         else let s2 = run s1; s3 = joining (s2\<lparr>threads := notify_all (threads s2)\<rparr>)
              in if set (threads s3) \<subseteq> {Ended} then Some (s3\<lparr>threads := []\<rparr>, length (threads s3)) else None)"

definition start_threads :: "nat \<Rightarrow> bool \<Rightarrow> 'd list_threads \<Rightarrow> 'd list_threads" where
  "start_threads number_of_threads synchronous_mode s =
     start number_of_threads (if synchronous_mode then set_synchronized s else s)"

definition sync_threads ::
  "('d list_threads \<Rightarrow> 'd list_threads) \<Rightarrow> ('d list_threads \<Rightarrow> 'd list_threads) \<Rightarrow>
   ('d list_threads \<Rightarrow> 'd list_threads) \<Rightarrow> 'd list_threads \<Rightarrow> 'd list_threads option" where
  "sync_threads wait run joining s =
     (case wait_empty wait s of
        None \<Rightarrow> None
      | Some s1 \<Rightarrow> (case shutdown run joining s1 of None \<Rightarrow> None | Some (s2, n) \<Rightarrow> Some (start n s2)))"

section \<open>What the threads can do\<close>

definition worker_rounds ::
  "ctx_layout \<Rightarrow> ('d \<Rightarrow> 'd) \<Rightarrow> nat \<Rightarrow> 'd filler \<Rightarrow> 'd list_threads \<Rightarrow> 'd list_threads \<Rightarrow> bool" where
  "worker_rounds L rd ts filler s s' \<longleftrightarrow> (\<exists>i. worker_round L rd ts filler i s = Some s')"

definition at_rest :: "'d list_threads \<Rightarrow> bool" where
  "at_rest s \<longleftrightarrow> set (threads s) \<subseteq> {Asleep, Ended}"

text \<open>A schedule: always the first thread that can do something.\<close>

fun run_workers ::
  "ctx_layout \<Rightarrow> ('d \<Rightarrow> 'd) \<Rightarrow> nat \<Rightarrow> 'd filler \<Rightarrow> nat \<Rightarrow> 'd list_threads \<Rightarrow> 'd list_threads" where
  "run_workers L rd ts filler 0 s = s"
| "run_workers L rd ts filler (Suc fuel) s =
     (case find (\<lambda>i. worker_round L rd ts filler i s \<noteq> None) [0..<length (threads s)] of
        None \<Rightarrow> s
      | Some i \<Rightarrow> run_workers L rd ts filler fuel (the (worker_round L rd ts filler i s)))"

text \<open>The number of rounds that are left until all threads sleep or have ended.\<close>

primrec rounds_of :: "worker \<Rightarrow> nat" where
  "rounds_of Locking = 1"
| "rounds_of Asleep = 0"
| "rounds_of (Filling_tile r) = 2"
| "rounds_of Ended = 0"

definition rounds_left :: "'d list_threads \<Rightarrow> nat" where
  "rounds_left s = 2 * length (work (pool s)) + sum_list (map rounds_of (threads s))"

definition run_to_rest ::
  "ctx_layout \<Rightarrow> ('d \<Rightarrow> 'd) \<Rightarrow> nat \<Rightarrow> 'd filler \<Rightarrow> 'd list_threads \<Rightarrow> 'd list_threads" where
  "run_to_rest L rd ts filler s = run_workers L rd ts filler (rounds_left s) s"

text \<open>Everything that can happen. Threads are started only when there are none (the code asserts it). Readers do what they like to tiles, but leave the queue and the locks of the
  threads alone; threads may also wake up for no reason.\<close>

inductive threads_reach ::
  "ctx_layout \<Rightarrow> ('d \<Rightarrow> 'd) \<Rightarrow> nat \<Rightarrow> 'd filler \<Rightarrow> 'd list_threads \<Rightarrow> bool"
  for L rd ts filler where
  created: "(\<And>r. being_filled (tiles p r) = None) \<Longrightarrow> threads_reach L rd ts filler (mk_list_threads synced p)"
| started: "threads_reach L rd ts filler s \<Longrightarrow> threads s = [] \<Longrightarrow>
    threads_reach L rd ts filler (start_threads n synced s)"
| worked: "threads_reach L rd ts filler s \<Longrightarrow> worker_round L rd ts filler i s = Some s' \<Longrightarrow>
    threads_reach L rd ts filler s'"
| spurious: "threads_reach L rd ts filler s \<Longrightarrow> i < length (threads s) \<Longrightarrow> threads s ! i = Asleep \<Longrightarrow>
    threads_reach L rd ts filler (set_worker i Locking s)"
| tiles_changed: "threads_reach L rd ts filler s \<Longrightarrow> work p = work (pool s) \<Longrightarrow>
    (\<And>r. being_filled (tiles p r) = being_filled (tiles (pool s) r)) \<Longrightarrow> threads_reach L rd ts filler (s\<lparr>pool := p\<rparr>)"
| queued: "threads_reach L rd ts filler s \<Longrightarrow> being_filled (tiles (pool s) r) = None \<Longrightarrow>
    r \<notin> fst ` set (work (pool s)) \<Longrightarrow> threads_reach L rd ts filler (enqueue_work j r k s)"
| canceled: "threads_reach L rd ts filler s \<Longrightarrow> threads_reach L rd ts filler (cancel_filler_of L rd ts filler r s)"
| all_canceled: "threads_reach L rd ts filler s \<Longrightarrow>
    threads_reach L rd ts filler (s\<lparr>pool := cancel_all_queued_fillers L rd (pool s)\<rparr>)"
| requested: "threads_reach L rd ts filler s \<Longrightarrow> threads_reach L rd ts filler (s\<lparr>shutdown_request := True\<rparr>)"
| notified: "threads_reach L rd ts filler s \<Longrightarrow> threads_reach L rd ts filler (s\<lparr>threads := notify_all (threads s)\<rparr>)"
| joined: "threads_reach L rd ts filler s \<Longrightarrow> set (threads s) \<subseteq> {Ended} \<Longrightarrow>
    threads_reach L rd ts filler (s\<lparr>threads := []\<rparr>)"

section \<open>Invariant\<close>

text \<open>
  The threads as a multiset: as long as a thread sleeps and nobody wants to stop them, there is for each item of the queue a thread
  that is about to take it; tiles are locked by exactly the threads that fill them, one each;
  threads end only on request.
\<close>

definition wakeups_ok :: "worker multiset \<Rightarrow> nat \<Rightarrow> bool" where
  "wakeups_ok T n \<longleftrightarrow> (Asleep \<in># T \<longrightarrow> n \<le> count T Locking)"

definition locks_ok :: "worker multiset \<Rightarrow> 'd tile_pool \<Rightarrow> bool" where
  "locks_ok T p \<longleftrightarrow>
     (\<forall>r. count T (Filling_tile r) = (if being_filled (tiles p r) = None then 0 else 1)) \<and>
     distinct (map fst (work p)) \<and> (\<forall>r \<in> fst ` set (work p). being_filled (tiles p r) = None)"

definition threads_inv :: "'d list_threads \<Rightarrow> bool" where
  "threads_inv s \<longleftrightarrow>
     (\<not> shutdown_request s \<longrightarrow> wakeups_ok (mset (threads s)) (length (work (pool s)))) \<and> locks_ok (mset (threads s)) (pool s) \<and>
     (Ended \<in># mset (threads s) \<longrightarrow> shutdown_request s)"

lemma mset_swap:
  assumes "i < length xs"
  obtains M where "mset xs = add_mset (xs ! i) M" "\<And>y. mset (xs[i := y]) = add_mset y M"
proof
  show "mset xs = add_mset (xs ! i) (mset xs - {#xs ! i#})" using assms by simp
  show "mset (xs[i := y]) = add_mset y (mset xs - {#xs ! i#})" for y using assms by (simp add: mset_update)
qed

lemma set_worker_simps [simp]:
  "threads (set_worker i w s) = (threads s)[i := w]" "pool (set_worker i w s) = pool s"
  "shutdown_request (set_worker i w s) = shutdown_request s"
  "is_synchronous_mode (set_worker i w s) = is_synchronous_mode s"
  by (simp_all add: set_worker_def)

lemma mset_notify_all:
  "mset (notify_all ws) = filter_mset (\<lambda>w. w \<noteq> Asleep) (mset ws) + replicate_mset (count (mset ws) Asleep) Locking"
  by (induction ws) (auto simp: notify_all_def)

lemma notify_one_cases:
  obtains "Asleep \<notin> set ws" "notify_one j ws = ws"
  | M where "mset ws = add_mset Asleep M" "mset (notify_one j ws) = add_mset Locking M"
proof (cases "sleepers ws = []")
  case True
  then have "Asleep \<notin> set ws" by (auto simp: sleepers_def filter_empty_conv in_set_conv_nth)
  then show ?thesis using True that(1) by (simp add: notify_one_def)
next
  case False
  let ?i = "sleepers ws ! (j mod length (sleepers ws))"
  have "?i \<in> set (sleepers ws)" using False by simp
  then have i: "?i < length ws" "ws ! ?i = Asleep" by (auto simp: sleepers_def simp del: nth_mem)
  from mset_swap [OF i(1)] obtain M where "mset ws = add_mset (ws ! ?i) M" "mset (ws[?i := Locking]) = add_mset Locking M"
    by metis
  then show ?thesis using that(2) i False by (simp add: notify_one_def Let_def)
qed

lemma worker_done_unlocks: "being_filled (tiles (worker_done L rd ts filler r p) r) = None"
  by (simp add: worker_done_def Let_def split: option.split)

lemma worker_done_others:
  "q \<noteq> r \<Longrightarrow> tiles (worker_done L rd ts filler r p) q = tiles p q"
  "work (worker_done L rd ts filler r p) = work p"
  using worker_done_frame [of r p L rd ts filler] by (simp_all add: only_tile_def del: split_paired_All)

text \<open>What a round of a thread is.\<close>

lemma worker_round_cases:
  assumes "worker_round L rd ts filler i s = Some s'"
  obtains (ended) "i < length (threads s)" "threads s ! i = Locking" "shutdown_request s" "s' = set_worker i Ended s"
  | (asleep) "i < length (threads s)" "threads s ! i = Locking" "\<not> shutdown_request s" "work (pool s) = []"
      "s' = set_worker i Asleep s"
  | (taken) r k ws where "i < length (threads s)" "threads s ! i = Locking" "\<not> shutdown_request s"
      "work (pool s) = (r, k) # ws"
      "s' = set_worker i (Filling_tile r)
         (s\<lparr>pool := set_tile r ((tiles (pool s) r)\<lparr>being_filled := Some k\<rparr>) ((pool s)\<lparr>work := ws\<rparr>)\<rparr>)"
  | (filled) r where "i < length (threads s)" "threads s ! i = Filling_tile r"
      "s' = set_worker i Locking (s\<lparr>pool := worker_done L rd ts filler r (pool s)\<rparr>)"
  using assms
  by (auto simp: worker_round_def worker_take_def split: if_splits worker.splits list.splits)

section \<open>The invariant holds\<close>

lemma worker_round_inv:
  assumes "worker_round L rd ts filler i s = Some s'" "threads_inv s"
  shows "threads_inv s'"
  using assms(1)
proof (cases rule: worker_round_cases)
  case ended
  obtain M where M: "mset (threads s) = add_mset Locking M" "\<And>y. mset ((threads s)[i := y]) = add_mset y M"
    using mset_swap [OF ended(1)] ended(2) by metis
  show ?thesis using assms(2) ended by (simp add: threads_inv_def locks_ok_def M)
next
  case asleep
  obtain M where M: "mset (threads s) = add_mset Locking M" "\<And>y. mset ((threads s)[i := y]) = add_mset y M"
    using mset_swap [OF asleep(1)] asleep(2) by metis
  show ?thesis using assms(2) asleep by (simp add: threads_inv_def locks_ok_def wakeups_ok_def M)
next
  case (taken r k ws)
  obtain M where M: "mset (threads s) = add_mset Locking M" "\<And>y. mset ((threads s)[i := y]) = add_mset y M"
    using mset_swap [OF taken(1)] taken(2) by metis
  have "wakeups_ok (add_mset (Filling_tile r) M) (length ws)"
    using assms(2) taken by (auto simp: threads_inv_def wakeups_ok_def M)
  moreover have "locks_ok (add_mset (Filling_tile r) M) (pool s')"
    using assms(2) taken by (auto simp: threads_inv_def locks_ok_def M)
  ultimately show ?thesis using assms(2) taken by (simp add: threads_inv_def M)
next
  case (filled r)
  obtain M where M: "mset (threads s) = add_mset (Filling_tile r) M" "\<And>y. mset ((threads s)[i := y]) = add_mset y M"
    using mset_swap [OF filled(1)] filled(2) by metis
  have l: "locks_ok (add_mset (Filling_tile r) M) (pool s)" using assms(2) by (simp add: threads_inv_def M)
  have "count (add_mset (Filling_tile r) M) (Filling_tile q) = (if being_filled (tiles (pool s) q) = None then 0 else 1)" for q
    using l unfolding locks_ok_def by blast
  then have "count M (Filling_tile q) = (if q = r \<or> being_filled (tiles (pool s) q) = None then 0 else 1)" for q
    by (metis One_nat_def Suc_inject count_add_mset nat.distinct(1) worker.inject)
  then have "count (add_mset Locking M) (Filling_tile q) = (if being_filled (tiles (pool s') q) = None then 0 else 1)" for q
    using filled(3) by (cases "q = r") (simp_all add: worker_done_unlocks worker_done_others)
  moreover have "being_filled (tiles (pool s') q) = None" if "q \<in> fst ` set (work (pool s))" for q
    using l that filled(3) by (cases "q = r") (auto simp: locks_ok_def worker_done_unlocks worker_done_others)
  ultimately have "locks_ok (add_mset Locking M) (pool s')"
    using l filled(3) by (simp add: locks_ok_def worker_done_others)
  then show ?thesis using assms(2) filled(3) by (auto simp: threads_inv_def wakeups_ok_def worker_done_others M)
qed

lemma notify_one_locks: "locks_ok (mset ws) p \<Longrightarrow> locks_ok (mset (notify_one j ws)) p"
  by (cases j ws rule: notify_one_cases) (simp_all add: locks_ok_def)

lemma notify_one_wakeups: "wakeups_ok (mset ws) n \<Longrightarrow> wakeups_ok (mset (notify_one j ws)) (Suc n)"
  by (cases j ws rule: notify_one_cases) (simp_all add: wakeups_ok_def)

lemma notify_one_ended: "Ended \<in> set (notify_one j ws) \<longleftrightarrow> Ended \<in> set ws"
  by (cases j ws rule: notify_one_cases) (simp_all flip: set_mset_mset)

lemma locks_ok_same_tiles:
  assumes "locks_ok T p" "work p' = work p" "\<And>r. being_filled (tiles p' r) = being_filled (tiles p r)"
  shows "locks_ok T p'"
  using assms by (simp add: locks_ok_def)

lemma count_notify_all:
  "count (mset (notify_all ws)) w =
     (if w = Asleep then 0 else count (mset ws) w + (if w = Locking then count (mset ws) Asleep else 0))"
  by (auto simp: mset_notify_all)

lemma in_notify_all: "w \<in> set (notify_all ws) \<longleftrightarrow> w \<noteq> Asleep \<and> (w \<in> set ws \<or> w = Locking \<and> Asleep \<in> set ws)"
  by (auto simp: notify_all_def)

lemma remove_first_work_parts:
  "set (remove_first_work r ws) \<subseteq> set ws" "distinct (map fst ws) \<Longrightarrow> distinct (map fst (remove_first_work r ws))"
  "length (remove_first_work r ws) \<le> length ws"
proof -
  show sub: "set (remove_first_work r ws) \<subseteq> set ws" for ws by (induction ws) auto
  show "distinct (map fst ws) \<Longrightarrow> distinct (map fst (remove_first_work r ws))"
    by (induction ws) (use sub in \<open>auto simp: image_iff subset_iff\<close>)
  show "length (remove_first_work r ws) \<le> length ws" by (induction ws) auto
qed

lemma cancel_tile_locks [simp]:
  "being_filled (tiles (cancel_tile r p) q) = being_filled (tiles p q)" "work (cancel_tile r p) = work p"
  by (simp_all add: cancel_tile_def)

lemma cancel_filler_idle:
  assumes "being_filled (tiles p r) = None"
  shows "being_filled (tiles (cancel_filler L rd ts filler r p) q) = being_filled (tiles p q)"
    "work (cancel_filler L rd ts filler r p) \<in> {work p, remove_first_work r (work p)}"
  using assms by (auto simp: cancel_filler_def Let_def simp flip: fun_upd_apply) (auto simp: cancel_tile_def)

lemma cancel_all_locks:
  "being_filled (tiles (cancel_all_queued_fillers L rd p) q) = being_filled (tiles p q)"
proof -
  have "being_filled (tiles (fold (\<lambda>(r, _). canceled_notification L rd ERR_OK r) ws p) q) = being_filled (tiles p q)" for ws
    by (induction ws arbitrary: p) auto
  then show ?thesis by (simp add: cancel_all_queued_fillers_def)
qed

lemma nothing_filled_iff:
  assumes "locks_ok (mset ws) p"
  shows "being_filled (tiles p r) = None \<longleftrightarrow> Filling_tile r \<notin> set ws"
proof -
  have "count (mset ws) (Filling_tile r) = (if being_filled (tiles p r) = None then 0 else 1)"
    using assms by (simp add: locks_ok_def del: split_paired_All)
  moreover have "count (mset ws) (Filling_tile r) = 0 \<longleftrightarrow> Filling_tile r \<notin> set ws"
    by (simp only: count_eq_zero_iff set_mset_mset)
  ultimately show ?thesis by (simp split: if_splits)
qed

lemma nothing_filled: "locks_ok (mset ws) p \<Longrightarrow> Filling_tile r \<notin> set ws \<Longrightarrow> being_filled (tiles p r) = None"
  by (simp add: nothing_filled_iff)

lemma cancel_all_work: "work (cancel_all_queued_fillers L rd p) = []"
  by (simp add: cancel_all_queued_fillers_def)

lemma locks_ok_less_work:
  assumes "locks_ok T p" "\<And>r. being_filled (tiles p' r) = being_filled (tiles p r)"
    "set (work p') \<subseteq> set (work p)" "distinct (map fst (work p'))"
  shows "locks_ok T p'"
  using assms by (auto simp: locks_ok_def)

lemma wakeups_ok_less: "wakeups_ok T n \<Longrightarrow> m \<le> n \<Longrightarrow> wakeups_ok T m"
  by (auto simp: wakeups_ok_def)

lemma count_release:
  "count (mset (release r ws)) v =
     (if v = Filling_tile r then 0 else count (mset ws) v + (if v = Locking then count (mset ws) (Filling_tile r) else 0))"
  by (induction ws) (auto simp: release_def)

lemma in_release:
  "Ended \<in> set (release r ws) \<longleftrightarrow> Ended \<in> set ws" "Asleep \<in> set (release r ws) \<longleftrightarrow> Asleep \<in> set ws"
  by (auto simp: release_def)

lemma cancel_filler_of_inv:
  assumes "threads_inv s"
  shows "threads_inv (cancel_filler_of L rd ts filler r s)"
proof (cases "being_filled (tiles (pool s) r)")
  case None
  let ?p = "cancel_filler L rd ts filler r (pool s)"
  have "work ?p = work (pool s) \<or> work ?p = remove_first_work r (work (pool s))"
    using cancel_filler_idle(2) [OF None, of L rd ts filler] by simp
  then have w: "set (work ?p) \<subseteq> set (work (pool s))" "length (work ?p) \<le> length (work (pool s))"
    "distinct (map fst (work (pool s))) \<Longrightarrow> distinct (map fst (work ?p))"
    using remove_first_work_parts [where r = r and ws = "work (pool s)"] by (elim disjE; simp)+
  have l: "locks_ok (mset (threads s)) (pool s)" using assms by (simp add: threads_inv_def)
  then have "distinct (map fst (work (pool s)))" by (simp add: locks_ok_def)
  then have "locks_ok (mset (threads s)) ?p"
    by (intro locks_ok_less_work [OF l] cancel_filler_idle(1) [OF None] w)
  then show ?thesis
    using assms None w(2) by (auto simp: threads_inv_def cancel_filler_of_def intro: wakeups_ok_less)
next
  case (Some k)
  let ?p = "cancel_filler L rd ts filler r (pool s)"
  let ?ws = "release r (threads s)"
  have p: "?p = worker_done L rd ts filler r (cancel_tile r (pool s))" using Some by (simp add: cancel_filler_def Let_def)
  have bf: "being_filled (tiles ?p q) = (if q = r then None else being_filled (tiles (pool s) q))" for q
    by (simp add: p worker_done_unlocks worker_done_others)
  have "locks_ok (mset (threads s)) (pool s)" using assms by (simp add: threads_inv_def)
  then have "locks_ok (mset ?ws) ?p"
    unfolding locks_ok_def bf count_release by (auto simp: p worker_done_others)
  moreover have "wakeups_ok (mset (threads s)) n \<Longrightarrow> wakeups_ok (mset ?ws) n" for n
    by (auto simp: wakeups_ok_def count_release in_release)
  ultimately show ?thesis using assms Some by (simp add: threads_inv_def cancel_filler_of_def in_release p worker_done_others)
qed

text \<open>In every state that the threads and their callers can reach.\<close>

lemma threads_reach_inv: "threads_reach L rd ts filler s \<Longrightarrow> threads_inv s"
proof (induction rule: threads_reach.induct)
  case (created p synced)
  then show ?case by (simp add: threads_inv_def locks_ok_def wakeups_ok_def mk_list_threads_def)
next
  case (started s n synced)
  then show ?case
    by (auto simp: threads_inv_def locks_ok_def wakeups_ok_def start_threads_def start_def set_synchronized_def)
next
  case (worked s i s')
  then show ?case by (blast intro: worker_round_inv)
next
  case (spurious s i)
  obtain M where "mset (threads s) = add_mset Asleep M" "\<And>y. mset ((threads s)[i := y]) = add_mset y M"
    using mset_swap [OF spurious(2)] spurious(3) by metis
  then show ?case using spurious(4) by (auto simp: threads_inv_def locks_ok_def wakeups_ok_def)
next
  case (tiles_changed s p)
  then show ?case using locks_ok_same_tiles [of _ "pool s" p] by (simp add: threads_inv_def)
next
  case (queued s r j k)
  have "locks_ok (mset (threads s)) (enqueue r k (pool s))"
    using queued by (auto simp: threads_inv_def locks_ok_def enqueue_def)
  then show ?case
    using queued notify_one_locks [of "threads s" "enqueue r k (pool s)" j]
      notify_one_wakeups [of "threads s" "length (work (pool s))" j]
    by (simp add: threads_inv_def enqueue_work_def notify_one_ended) (auto simp: enqueue_def notify_one_ended)
next
  case (canceled s r)
  then show ?case by (blast intro: cancel_filler_of_inv)
next
  case (all_canceled s)
  have "locks_ok (mset (threads s)) (pool s)" using all_canceled(2) by (simp add: threads_inv_def)
  then have "locks_ok (mset (threads s)) (cancel_all_queued_fillers L rd (pool s))"
    by (rule locks_ok_less_work) (simp_all add: cancel_all_locks cancel_all_work)
  then show ?case using all_canceled(2) by (simp add: threads_inv_def wakeups_ok_def cancel_all_work)
next
  case (requested s)
  then show ?case by (simp add: threads_inv_def)
next
  case (notified s)
  then show ?case
    by (auto simp: threads_inv_def locks_ok_def wakeups_ok_def count_notify_all in_notify_all)
next
  case (joined s)
  have l: "locks_ok (mset (threads s)) (pool s)" using joined(3) by (simp add: threads_inv_def)
  have "being_filled (tiles (pool s) r) = None" for r
    using joined(2) by (intro nothing_filled [OF l]) auto
  then show ?case using l by (simp add: threads_inv_def locks_ok_def wakeups_ok_def)
qed

end
