(* ===== verification/Filler_Threads_Props.thy ===== *)
theory Filler_Threads_Props
  imports Filler_Threads Samples
begin

text \<open>
  The properties of the threads that fill tiles: no wake-up is lost, the threads come to rest, all of
  them can be stopped, and what waiting for them achieves.
\<close>

section \<open>Rounds of threads\<close>

lemma worker_round_None: "(\<forall>i. worker_round L rd ts filler i s = None) \<longleftrightarrow> at_rest s"
proof -
  have "worker_round L rd ts filler i s = None \<longleftrightarrow> threads s ! i \<in> {Asleep, Ended}" if "i < length (threads s)" for i
    using that by (auto simp: worker_round_def worker_take_def split: worker.split list.split)
  moreover have "worker_round L rd ts filler i s = None" if "\<not> i < length (threads s)" for i
    using that by (simp add: worker_round_def)
  ultimately have "(\<forall>i. worker_round L rd ts filler i s = None) \<longleftrightarrow>
      (\<forall>i < length (threads s). threads s ! i \<in> {Asleep, Ended})" by metis
  also have "\<dots> \<longleftrightarrow> at_rest s" unfolding at_rest_def subset_iff by (metis in_set_conv_nth)
  finally show ?thesis .
qed

lemma rounds_of_update:
  assumes "i < length xs"
  shows "sum_list (map rounds_of (xs[i := y])) + rounds_of (xs ! i) = sum_list (map rounds_of xs) + rounds_of y"
proof -
  obtain M where M: "mset xs = add_mset (xs ! i) M" "\<And>y. mset (xs[i := y]) = add_mset y M"
    using mset_swap [OF assms] by metis
  have s: "sum_list (map rounds_of zs) = sum_mset (image_mset rounds_of (mset zs))" for zs
    by (simp flip: sum_mset_sum_list)
  show ?thesis by (simp add: s M)
qed

lemma worker_round_measure:
  assumes "worker_round L rd ts filler i s = Some s'"
  shows "rounds_left s' < rounds_left s"
  using assms
proof (cases rule: worker_round_cases)
  case ended then show ?thesis using rounds_of_update [of i "threads s" Ended] by (simp add: rounds_left_def)
next
  case asleep then show ?thesis using rounds_of_update [of i "threads s" Asleep] by (simp add: rounds_left_def)
next
  case (taken r k ws)
  then show ?thesis using rounds_of_update [of i "threads s" "Filling_tile r"] by (simp add: rounds_left_def)
next
  case (filled r)
  then show ?thesis using rounds_of_update [of i "threads s" Locking] by (simp add: rounds_left_def worker_done_others)
qed

lemma run_workers_rounds: "(worker_rounds L rd ts filler)\<^sup>*\<^sup>* s (run_workers L rd ts filler n s)"
proof (induction n arbitrary: s)
  case (Suc n)
  show ?case
  proof (cases "find (\<lambda>i. worker_round L rd ts filler i s \<noteq> None) [0..<length (threads s)]")
    case (Some i)
    then obtain s' where "worker_round L rd ts filler i s = Some s'" by (auto simp: find_Some_iff)
    then show ?thesis
      using Some Suc [of s'] by (auto simp: worker_rounds_def intro: converse_rtranclp_into_rtranclp)
  qed simp
qed simp

lemma run_workers_rest: "rounds_left s \<le> n \<Longrightarrow> at_rest (run_workers L rd ts filler n s)"
proof (induction n arbitrary: s)
  case 0
  have "worker_round L rd ts filler i s = None" for i
    using 0 worker_round_measure [of L rd ts filler i s] by (cases "worker_round L rd ts filler i s") auto
  then show ?case using worker_round_None [of L rd ts filler s] by simp
next
  case (Suc n)
  show ?case
  proof (cases "find (\<lambda>i. worker_round L rd ts filler i s \<noteq> None) [0..<length (threads s)]")
    case None
    then have "worker_round L rd ts filler i s = None" for i
      by (cases "i < length (threads s)") (auto simp: find_None_iff worker_round_def)
    then show ?thesis using None worker_round_None [of L rd ts filler s] by simp
  next
    case (Some i)
    then obtain s' where s': "worker_round L rd ts filler i s = Some s'" by (auto simp: find_Some_iff)
    then show ?thesis using Some Suc.IH [of s'] Suc.prems worker_round_measure [OF s'] by simp
  qed
qed

text \<open>The schedule reaches a state of rest by rounds of threads.\<close>

lemma run_to_rest: "(worker_rounds L rd ts filler)\<^sup>*\<^sup>* s (run_to_rest L rd ts filler s)" "at_rest (run_to_rest L rd ts filler s)"
  by (simp_all add: run_to_rest_def run_workers_rounds run_workers_rest)

section \<open>What rounds keep\<close>

lemma rounds_reach:
  "(worker_rounds L rd ts filler)\<^sup>*\<^sup>* s s' \<Longrightarrow> threads_reach L rd ts filler s \<Longrightarrow> threads_reach L rd ts filler s'"
  by (induction rule: rtranclp_induct) (auto simp: worker_rounds_def intro: threads_reach.worked)

lemma rounds_frame:
  assumes "(worker_rounds L rd ts filler)\<^sup>*\<^sup>* s s'"
  shows "length (threads s') = length (threads s) \<and> shutdown_request s' = shutdown_request s \<and>
    is_synchronous_mode s' = is_synchronous_mode s"
  using assms by (induction rule: rtranclp_induct) (auto simp: worker_rounds_def elim!: worker_round_cases)

text \<open>Once they are asked to stop, threads take no work any more and do not go to sleep.\<close>

lemma rounds_stopping:
  assumes "(worker_rounds L rd ts filler)\<^sup>*\<^sup>* s s'" "shutdown_request s"
  shows "work (pool s') = work (pool s) \<and> (Asleep \<notin> set (threads s) \<longrightarrow> Asleep \<notin> set (threads s'))"
  using assms(1)
proof (induction rule: rtranclp_induct)
  case (step s1 s2)
  have "shutdown_request s1" using rounds_frame [OF step(1)] assms(2) by simp
  then have "work (pool s2) = work (pool s1) \<and> (Asleep \<in> set (threads s2) \<longrightarrow> Asleep \<in> set (threads s1))"
    using step(2) by (auto simp: worker_rounds_def worker_done_others elim!: worker_round_cases dest!: set_update_subset_insert [THEN subsetD])
  then show ?case using step.IH by auto
qed simp

section \<open>Stopping and waiting\<close>

text \<open>What the threads do while the caller waits: any number of rounds in any order.\<close>

definition works ::
  "ctx_layout \<Rightarrow> ('d \<Rightarrow> 'd) \<Rightarrow> nat \<Rightarrow> 'd filler \<Rightarrow> ('d list_threads \<Rightarrow> 'd list_threads) \<Rightarrow> bool" where
  "works L rd ts filler run \<longleftrightarrow> (\<forall>s. (worker_rounds L rd ts filler)\<^sup>*\<^sup>* s (run s))"

lemma worksD: "works L rd ts filler run \<Longrightarrow> (worker_rounds L rd ts filler)\<^sup>*\<^sup>* s (run s)"
  by (simp add: works_def)

lemma works_run_to_rest: "works L rd ts filler (run_to_rest L rd ts filler)"
  by (simp add: works_def run_to_rest)

text \<open>At rest, with threads and no request to stop them, the queue is empty.\<close>

lemma rest_empties_queue:
  assumes "threads_inv s" "at_rest s" "threads s \<noteq> []" "\<not> shutdown_request s"
  shows "work (pool s) = []"
proof -
  have "Ended \<notin> set (threads s)" using assms(1,4) by (auto simp: threads_inv_def)
  moreover obtain w where "w \<in> set (threads s)" using assms(3) by (cases "threads s") auto
  ultimately have "Asleep \<in> set (threads s)" using assms(2) by (auto simp: at_rest_def)
  then have "length (work (pool s)) \<le> count (mset (threads s)) Locking"
    using assms(1,4) by (simp add: threads_inv_def wakeups_ok_def)
  also have "\<dots> = 0"
    unfolding count_eq_zero_iff using assms(2) by (auto simp: at_rest_def)
  finally show ?thesis by simp
qed

lemma wait_empty_returns:
  assumes "threads_reach L rd ts filler s" "threads s \<noteq> []" "\<not> shutdown_request s"
    "works L rd ts filler run" "at_rest (run s)"
  shows "wait_empty run s = Some (run s)"
proof -
  have r: "(worker_rounds L rd ts filler)\<^sup>*\<^sup>* s (run s)" using assms(4) by (rule worksD)
  have "threads_inv (run s)" using rounds_reach [OF r assms(1)] by (rule threads_reach_inv)
  moreover have "threads (run s) \<noteq> []" "\<not> shutdown_request (run s)" using rounds_frame [OF r] assms(2,3) by auto
  ultimately show ?thesis using rest_empties_queue [of "run s"] assms(5) by (simp add: wait_empty_def Let_def)
qed

lemma shutdown_joins:
  assumes s: "threads_reach L rd ts filler s" "threads s \<noteq> []" "\<not> shutdown_request s"
    and runs: "works L rd ts filler run" "works L rd ts filler joining" "\<And>s. at_rest (joining s)"
  obtains s' where "shutdown run joining s = Some (s', length (threads s))" "threads_reach L rd ts filler s'"
    "threads s' = []" "shutdown_request s'" "work (pool s') = work (pool s)" "\<And>r. being_filled (tiles (pool s') r) = None"
proof -
  define s1 where "s1 = run (s\<lparr>shutdown_request := True\<rparr>)"
  define s2 where "s2 = s1\<lparr>threads := notify_all (threads s1)\<rparr>"
  define s3 where "s3 = joining s2"
  define s' where "s' = s3\<lparr>threads := []\<rparr>"
  have r1: "(worker_rounds L rd ts filler)\<^sup>*\<^sup>* (s\<lparr>shutdown_request := True\<rparr>) s1" unfolding s1_def using runs(1) by (rule worksD)
  have r3: "(worker_rounds L rd ts filler)\<^sup>*\<^sup>* s2 s3" unfolding s3_def using runs(2) by (rule worksD)
  have reach2: "threads_reach L rd ts filler s2"
    unfolding s2_def by (intro threads_reach.notified rounds_reach [OF r1] threads_reach.requested s(1))
  have reach3: "threads_reach L rd ts filler s3" by (rule rounds_reach [OF r3 reach2])
  have len: "length (threads s3) = length (threads s)" and stop: "shutdown_request s2"
    using rounds_frame [OF r1] rounds_frame [OF r3] by (simp_all add: s2_def notify_all_def)
  have "Asleep \<notin> set (threads s3)"
    using rounds_stopping [OF r3 stop] by (simp add: s2_def in_notify_all)
  then have ended: "set (threads s3) \<subseteq> {Ended}" using runs(3) [of s2] by (auto simp: s3_def at_rest_def)
  have inv: "threads_inv s3" using reach3 by (rule threads_reach_inv)
  have "Filling_tile r \<notin> set (threads s3)" for r using ended by auto
  then have filled: "being_filled (tiles (pool s') r) = None" for r
    using nothing_filled [of "threads s3" "pool s3" r] inv by (simp add: threads_inv_def s'_def)
  have "threads s1 \<noteq> []" using rounds_frame [OF r1] s(2) by auto
  then have "shutdown run joining s = Some (s', length (threads s))"
    using s(2,3) ended len by (simp add: shutdown_def Let_def s1_def s2_def s3_def s'_def)
  moreover have "work (pool s') = work (pool s)" "shutdown_request s'"
    using rounds_stopping [OF r1] rounds_stopping [OF r3 stop] rounds_frame [OF r3] stop by (simp_all add: s2_def s'_def)
  moreover have "threads_reach L rd ts filler s'" unfolding s'_def by (rule threads_reach.joined [OF reach3 ended])
  ultimately show ?thesis using that [of s'] filled by (simp add: s'_def)
qed

text \<open>A second request does nothing, and without threads there is nothing to wait for.\<close>

lemma shutdown_again:
  assumes "shutdown_request s \<or> threads s = []"
  shows "shutdown run joining s = Some (s\<lparr>shutdown_request := True\<rparr>, 0)"
  using assms by (auto simp: shutdown_def Let_def)

text \<open>A thread that has been asked to stop leaves the tiles in the queue alone.\<close>

lemma rounds_stopping_tiles:
  assumes "(worker_rounds L rd ts filler)\<^sup>*\<^sup>* s s'" "shutdown_request s" "threads_reach L rd ts filler s"
    and r: "r \<in> fst ` set (work (pool s))"
  shows "tiles (pool s') r = tiles (pool s) r"
  using assms(1)
proof (induction rule: rtranclp_induct)
  case (step s1 s2)
  have stop: "shutdown_request s1" using rounds_frame [OF step(1)] assms(2) by simp
  have inv: "threads_inv s1" using rounds_reach [OF step(1) assms(3)] by (rule threads_reach_inv)
  have "r \<in> fst ` set (work (pool s1))" using rounds_stopping [OF step(1) assms(2)] r by simp
  then have "being_filled (tiles (pool s1) r) = None" using inv by (auto simp: threads_inv_def locks_ok_def)
  then have idle: "Filling_tile r \<notin> set (threads s1)"
    using inv nothing_filled_iff [of "threads s1" "pool s1" r] by (simp add: threads_inv_def)
  obtain i where "worker_round L rd ts filler i s1 = Some s2" using step(2) by (auto simp: worker_rounds_def)
  then have "tiles (pool s2) r = tiles (pool s1) r"
  proof (cases rule: worker_round_cases)
    case (filled q)
    then have "q \<noteq> r" using idle nth_mem by metis
    then show ?thesis using filled(3) by (simp add: worker_done_others)
  qed (use stop in simp_all)
  then show ?case using step.IH by simp
qed simp

section \<open>Tiles\<close>

text \<open>No tile waits to be filled that is neither queued nor with a thread.\<close>

definition fills_pending :: "'d tile_pool \<Rightarrow> bool" where
  "fills_pending p \<longleftrightarrow>
     (\<forall>r. tstate (tiles p r) = FILLING \<longrightarrow> r \<in> fst ` set (work p) \<or> being_filled (tiles p r) \<noteq> None)"

definition never_silent :: "nat \<Rightarrow> 'd filler \<Rightarrow> bool" where
  "never_silent ts filler \<longleftrightarrow> (\<forall>i b c. fst (filler i b ts c) \<noteq> 0)"

lemma worker_done_settled:
  assumes "never_silent ts filler" "being_filled (tiles p r) \<noteq> None"
  shows "tstate (tiles (worker_done L rd ts filler r p) r) \<noteq> FILLING"
proof -
  obtain i where "being_filled (tiles p r) = Some i" using assms(2) by auto
  moreover obtain n ds e where f: "filler i (base (tiles p r)) ts (\<not> cancel_filling_request (tiles p r)) = (n, ds, e)"
    by (rule prod_cases3)
  have "n \<noteq> 0" using assms(1) f unfolding never_silent_def by (metis fst_conv)
  then have "tstate (tiles (do_fill_tile L rd ts filler r i p) r) \<noteq> FILLING"
    by (auto simp: do_fill_tile_def Let_def done_notification_def f)
  ultimately show ?thesis by (simp add: worker_done_def Let_def)
qed

lemma worker_round_pending:
  assumes "worker_round L rd ts filler i s = Some s'" "threads_inv s" "never_silent ts filler" "fills_pending (pool s)"
  shows "fills_pending (pool s')"
  using assms(1)
proof (cases rule: worker_round_cases)
  case (taken r k ws)
  then show ?thesis using assms(4) by (auto simp: fills_pending_def)
next
  case (filled r)
  have "Filling_tile r \<in> set (threads s)" using filled(1,2) by (metis nth_mem)
  then have "being_filled (tiles (pool s) r) \<noteq> None"
    using assms(2) nothing_filled_iff [of "threads s" "pool s" r] by (simp add: threads_inv_def)
  then have "tstate (tiles (pool s') r) \<noteq> FILLING" using worker_done_settled [OF assms(3)] filled(3) by simp
  moreover have "tiles (pool s') q = tiles (pool s) q" if "q \<noteq> r" for q
    using that filled(3) by (simp add: worker_done_others)
  moreover have "work (pool s') = work (pool s)" using filled(3) by (simp add: worker_done_others)
  ultimately show ?thesis using assms(4) unfolding fills_pending_def by metis
qed (use assms(4) in simp_all)

lemma rounds_pending:
  assumes "(worker_rounds L rd ts filler)\<^sup>*\<^sup>* s s'" "threads_reach L rd ts filler s" "never_silent ts filler" "fills_pending (pool s)"
  shows "fills_pending (pool s')"
  using assms(1)
proof (induction rule: rtranclp_induct)
  case (step s1 s2)
  have "threads_inv s1" using rounds_reach [OF step(1) assms(2)] by (rule threads_reach_inv)
  then show ?case using step worker_round_pending [OF _ _ assms(3)] by (auto simp: worker_rounds_def)
qed (rule assms(4))

section \<open>Waiting for all work\<close>

lemma sync_threads_succeeds:
  assumes s: "threads_reach L rd ts filler s" "threads s \<noteq> []" "\<not> shutdown_request s"
    and runs: "works L rd ts filler wait" "at_rest (wait s)"
      "works L rd ts filler run" "works L rd ts filler joining" "\<And>s. at_rest (joining s)"
  obtains s' where "sync_threads wait run joining s = Some s'" "threads_reach L rd ts filler s'"
    "threads s' = replicate (length (threads s)) Locking" "\<not> shutdown_request s'" "work (pool s') = []"
    "\<And>r. being_filled (tiles (pool s') r) = None"
proof -
  have r: "(worker_rounds L rd ts filler)\<^sup>*\<^sup>* s (wait s)" using runs(1) by (rule worksD)
  have w: "wait_empty wait s = Some (wait s)" by (rule wait_empty_returns [OF s runs(1,2)])
  then have empty: "work (pool (wait s)) = []" by (simp add: wait_empty_def Let_def split: if_splits)
  have len: "length (threads (wait s)) = length (threads s)" and stop: "\<not> shutdown_request (wait s)"
    using rounds_frame [OF r] s(3) by simp_all
  then have "threads (wait s) \<noteq> []" using s(2) by auto
  then obtain s2 where s2: "shutdown run joining (wait s) = Some (s2, length (threads (wait s)))"
      "threads_reach L rd ts filler s2" "threads s2 = []" "work (pool s2) = work (pool (wait s))"
      "\<And>r. being_filled (tiles (pool s2) r) = None"
    using shutdown_joins [OF rounds_reach [OF r s(1)] _ stop runs(3-5)] by metis
  define s' where "s' = s2\<lparr>shutdown_request := False, threads := replicate (length (threads s)) Locking\<rparr>"
  have st: "start (length (threads s)) s2 = s'" using s2(3) by (simp add: start_def s'_def)
  then have "threads_reach L rd ts filler s'"
    using threads_reach.started [OF s2(2,3), of "length (threads s)" False] by (simp add: start_threads_def)
  moreover have "sync_threads wait run joining s = Some s'" using w s2(1) st len by (simp add: sync_threads_def)
  ultimately show ?thesis using that [of s'] s2(4,5) empty by (simp add: s'_def)
qed

lemma shutdown_rounds:
  assumes "shutdown run joining s = Some (s', n)" "works L rd ts filler run" "works L rd ts filler joining"
    "threads_reach L rd ts filler s" "never_silent ts filler" "fills_pending (pool s)"
  shows "fills_pending (pool s')"
proof -
  define s1 where "s1 = run (s\<lparr>shutdown_request := True\<rparr>)"
  define s2 where "s2 = s1\<lparr>threads := notify_all (threads s1)\<rparr>"
  have r1: "(worker_rounds L rd ts filler)\<^sup>*\<^sup>* (s\<lparr>shutdown_request := True\<rparr>) s1" unfolding s1_def using assms(2) by (rule worksD)
  have r3: "(worker_rounds L rd ts filler)\<^sup>*\<^sup>* s2 (joining s2)" using assms(3) by (rule worksD)
  have q: "threads_reach L rd ts filler (s\<lparr>shutdown_request := True\<rparr>)" using assms(4) by (rule threads_reach.requested)
  have "fills_pending (pool s1)" using rounds_pending [OF r1 q assms(5)] assms(6) by simp
  moreover have "threads_reach L rd ts filler s2" unfolding s2_def by (intro threads_reach.notified rounds_reach [OF r1 q])
  ultimately have "fills_pending (pool (joining s2))" using rounds_pending [OF r3 _ assms(5)] by (simp add: s2_def)
  then show ?thesis using assms(1,6) by (auto simp: shutdown_def Let_def s1_def s2_def split: if_splits)
qed

lemma sync_threads_pending:
  assumes "sync_threads wait run joining s = Some s'"
    "works L rd ts filler wait" "works L rd ts filler run" "works L rd ts filler joining"
    "threads_reach L rd ts filler s" "never_silent ts filler" "fills_pending (pool s)"
  shows "fills_pending (pool s')"
proof -
  obtain s2 n where s2: "wait_empty wait s = Some (wait s)" "shutdown run joining (wait s) = Some (s2, n)" "s' = start n s2"
    using assms(1) by (auto simp: sync_threads_def wait_empty_def Let_def split: option.splits if_splits prod.splits)
  have r: "(worker_rounds L rd ts filler)\<^sup>*\<^sup>* s (wait s)" using assms(2) by (rule worksD)
  have "fills_pending (pool s2)"
    by (rule shutdown_rounds [OF s2(2) assms(3,4) rounds_reach [OF r assms(5)] assms(6) rounds_pending [OF r assms(5-7)]])
  then show ?thesis using s2(3) by (simp add: start_def)
qed

text \<open>Tiles that are in the queue when the threads are stopped.\<close>

lemma shutdown_strands:
  assumes sh: "shutdown run joining s = Some (s', n)" and runs: "works L rd ts filler run" "works L rd ts filler joining"
    and s: "threads_reach L rd ts filler s" and r: "r \<in> fst ` set (work (pool s))"
  shows "tiles (pool s') r = tiles (pool s) r"
proof -
  define s0 where "s0 = s\<lparr>shutdown_request := True\<rparr>"
  define s1 where "s1 = run s0"
  define s2 where "s2 = s1\<lparr>threads := notify_all (threads s1)\<rparr>"
  have r1: "(worker_rounds L rd ts filler)\<^sup>*\<^sup>* s0 s1" unfolding s1_def using runs(1) by (rule worksD)
  have r3: "(worker_rounds L rd ts filler)\<^sup>*\<^sup>* s2 (joining s2)" using runs(2) by (rule worksD)
  have q: "threads_reach L rd ts filler s0" unfolding s0_def using s by (rule threads_reach.requested)
  have stop: "shutdown_request s0" "shutdown_request s2" using rounds_frame [OF r1] by (simp_all add: s0_def s2_def)
  have q2: "threads_reach L rd ts filler s2" unfolding s2_def by (intro threads_reach.notified rounds_reach [OF r1 q])
  have "work (pool s2) = work (pool s)" using rounds_stopping [OF r1 stop(1)] by (simp add: s2_def s0_def)
  then have "tiles (pool (joining s2)) r = tiles (pool s2) r" using rounds_stopping_tiles [OF r3 stop(2) q2] r by simp
  moreover have "tiles (pool s2) r = tiles (pool s) r"
    using rounds_stopping_tiles [OF r1 stop(1) q, of r] r by (simp add: s2_def s0_def)
  ultimately show ?thesis using sh by (auto simp: shutdown_def Let_def s0_def s1_def s2_def split: if_splits)
qed

section \<open>Properties\<close>

text \<open>C18: No wake-up is lost: in every state that the threads and their callers can reach, each tile that is
  locked for filling is with exactly one thread, and as long as some thread sleeps and nobody has asked
  the threads to stop, there are as many threads about to take work as there are tiles in the queue.\<close>

theorem no_lost_wakeup:
  assumes "threads_reach L rd ts filler s"
  shows "(being_filled (tiles (pool s) r) \<noteq> None \<longleftrightarrow> Filling_tile r \<in> set (threads s)) \<and>
    (Asleep \<in> set (threads s) \<longrightarrow> \<not> shutdown_request s \<longrightarrow>
       length (work (pool s)) \<le> count (mset (threads s)) Locking)"
  using threads_reach_inv [OF assms] nothing_filled_iff [of "threads s" "pool s" r]
  by (auto simp: threads_inv_def wakeups_ok_def)

text \<open>The states of the witness: two threads that have gone to sleep, and a tile that is put into the queue.\<close>

definition sample_quiet :: "nat tile_pool" where
  "sample_quiet = \<lparr>tiles = (\<lambda>_. mk_tile [])((2, 0) := (mk_tile [])\<lparr>tstate := FILLING\<rparr>), work = [], active = (\<lambda>_ _. None),
     pool_killed = {}, number_of_entries = (\<lambda>_. 0)\<rparr>"

definition sample_numbers :: "nat filler" where
  "sample_numbers i b n c = (1, [b], ERR_OK)"

abbreviation sample_threads_reach :: "nat list_threads \<Rightarrow> bool" where
  "sample_threads_reach \<equiv> threads_reach sample_layout id 1 sample_numbers"

definition sample_sleeping :: "nat list_threads" where
  "sample_sleeping = \<lparr>threads = [Asleep, Asleep], pool = sample_quiet, shutdown_request = False, is_synchronous_mode = False\<rparr>"

definition sample_woken :: "nat list_threads" where
  "sample_woken = sample_sleeping\<lparr>threads := [Asleep, Locking], pool := enqueue (2, 0) 5 sample_quiet\<rparr>"

lemma sample_sleeping_reach: "sample_threads_reach sample_sleeping"
proof -
  let ?s = "mk_list_threads False sample_quiet"
  let ?locking = "sample_sleeping\<lparr>threads := [Locking, Locking]\<rparr>"
  let ?one = "sample_sleeping\<lparr>threads := [Asleep, Locking]\<rparr>"
  have "sample_threads_reach ?s" by (rule threads_reach.created) (simp add: sample_quiet_def mk_tile_def)
  moreover have "threads ?s = []" by (simp add: mk_list_threads_def)
  moreover have "start_threads 2 False ?s = ?locking"
    by (simp add: start_threads_def start_def mk_list_threads_def sample_sleeping_def sample_quiet_def numeral_2_eq_2)
  ultimately have "sample_threads_reach ?locking" by (metis threads_reach.started)
  moreover have "worker_round sample_layout id 1 sample_numbers 0 ?locking = Some ?one"
    by (simp add: worker_round_def set_worker_def sample_sleeping_def sample_quiet_def)
  ultimately have "sample_threads_reach ?one" by (rule threads_reach.worked)
  moreover have "worker_round sample_layout id 1 sample_numbers 1 ?one = Some sample_sleeping"
    by (simp add: worker_round_def set_worker_def sample_sleeping_def sample_quiet_def)
  ultimately show ?thesis by (rule threads_reach.worked)
qed

lemma sample_woken_reach: "sample_threads_reach sample_woken"
proof -
  have e: "sample_woken = enqueue_work 1 (2, 0) 5 sample_sleeping"
    by (simp add: enqueue_work_def sample_woken_def sample_sleeping_def sample_quiet_def notify_one_def sleepers_def
        upt_rec numeral_2_eq_2 Let_def)
  show ?thesis unfolding e
    by (rule threads_reach.queued [OF sample_sleeping_reach]) (simp_all add: sample_sleeping_def sample_quiet_def mk_tile_def)
qed

theorem no_lost_wakeup_witness:
  "threads sample_woken = [Asleep, Locking] \<and> work (pool sample_woken) = [((2, 0), 5)] \<and>
   length (work (pool sample_woken)) \<le> count (mset (threads sample_woken)) Locking"
  using no_lost_wakeup [OF sample_woken_reach, of "(2, 0)"]
  by (simp add: sample_woken_def sample_sleeping_def sample_quiet_def enqueue_def)


definition sample_rest :: "nat list_threads \<Rightarrow> nat list_threads" where
  "sample_rest = run_to_rest sample_layout id 1 sample_numbers"


text \<open>C20: Stopping the threads strands the tiles that are still in the queue: \<^verbatim>\<open>shutdown()\<close> returns with the
  number of threads, but whatever the threads did meanwhile, such a tile is still being filled and no
  thread is left to do it, so that a reader waits for it forever. Stopping them again has no effect.\<close>

theorem shutdown_strands_queue:
  assumes "threads_reach L rd ts filler s" "threads s \<noteq> []" "\<not> shutdown_request s"
    and "works L rd ts filler run" "works L rd ts filler joining" "\<And>s. at_rest (joining s)"
    and "(r, i) \<in> set (work (pool s))" "tstate (tiles (pool s) r) = FILLING"
  shows "\<exists>s'. shutdown run joining s = Some (s', length (threads s)) \<and> tile_ready (tiles (pool s') r) = None \<and>
    (\<forall>j. worker_round L rd ts filler j s' = None) \<and> shutdown run joining s' = Some (s', 0)"
proof -
  obtain s' where s': "shutdown run joining s = Some (s', length (threads s))" "threads s' = []"
      "shutdown_request s'"
    using shutdown_joins [OF assms(1-6)] by metis
  have "r \<in> fst ` set (work (pool s))" using assms(7) by force
  then have "tile_ready (tiles (pool s') r) = None"
    using shutdown_strands [OF s'(1) assms(4,5,1)] assms(8) by (simp add: tile_ready_def)
  moreover have "\<forall>j. worker_round L rd ts filler j s' = None"
    using worker_round_None [of L rd ts filler s'] s'(2) by (simp add: at_rest_def)
  moreover have "shutdown run joining s' = Some (s', 0)" using s'(3) by (simp add: shutdown_def Let_def)
  ultimately show ?thesis using s'(1) by blast
qed

theorem shutdown_strands_queue_witness:
  "\<exists>s'. shutdown id sample_rest sample_woken = Some (s', 2) \<and> tile_ready (tiles (pool s') (2, 0)) = None \<and>
     shutdown id sample_rest s' = Some (s', 0)"
proof -
  have "works sample_layout id 1 sample_numbers sample_rest" "at_rest (sample_rest s)" for s
    by (simp_all only: sample_rest_def works_run_to_rest run_to_rest(2))
  moreover have "works sample_layout id 1 sample_numbers id" by (simp add: works_def)
  moreover have "threads sample_woken = [Asleep, Locking]" "\<not> shutdown_request sample_woken"
      "((2, 0), 5) \<in> set (work (pool sample_woken))" "tstate (tiles (pool sample_woken) (2, 0)) = FILLING"
    by (simp_all add: sample_woken_def sample_sleeping_def sample_quiet_def enqueue_def)
  ultimately show ?thesis
    using shutdown_strands_queue [OF sample_woken_reach, of id sample_rest "(2, 0)" 5] by force
qed

end
