(* ===== verification/Spec2Isabelle.thy ===== *)
theory Spec2Isabelle
  imports Lru_Props Tree_Reach Tile_Props Async_Hangs Nav_Props Upnp_Tree_Props Upnp_Media Usb_Trace_Props Readiness
    Filler_Threads_Props
begin

text \<open>
  \<^bold>\<open>The program\<close>

  Verification of the T+A list brokers. A list broker gives D-Bus clients access to a tree of lists:
  the UPnP broker (\<^verbatim>\<open>src/dlna\<close>) to media servers, the USB broker (\<^verbatim>\<open>src/usb\<close>) to files. Both share
  the code in \<^verbatim>\<open>src/common\<close>.

  \<^item> A method call of a client arrives at a handler of \<^verbatim>\<open>dbus_lists_handlers.cc\<close>. Calls that may take
    long become work items, which go through a work queue to a worker thread; the client gets the
    result at once or a cookie with which it fetches the result later.
  \<^item> The work calls the list tree of the broker (\<^verbatim>\<open>ListTreeIface\<close>), which finds lists by their IDs in an
    object cache with the help of the list tree manager.
  \<^item> The cache (\<^verbatim>\<open>LRU::Cache\<close>) keeps the lists in the order of their last use and gives them IDs. A
    timer runs the garbage collector, whose callbacks tell the list tree manager about lists that are
    gone; the manager tells the clients by a \<^verbatim>\<open>ListInvalidate\<close> signal and the parent list by
    \<^verbatim>\<open>obliviate_child()\<close>.
  \<^item> The items of media lists are in tiles, which further threads fill from the UPnP stack. All other
    lists are flat lists.

  \<^bold>\<open>The theories\<close>

  \<^item> \<^verbatim>\<open>LB_Prelude\<close>: machine integers, the errors of \<^verbatim>\<open>ListError\<close>, \<^verbatim>\<open>std::map\<close> as an association list sorted
    by its keys (locale \<^verbatim>\<open>std_map\<close> and its interpretation), the rule collections, lemmas on lists.
  \<^item> \<^verbatim>\<open>Id_Types\<close>: list IDs (\<^verbatim>\<open>idtypes.hh\<close>) and their generator (\<^verbatim>\<open>CacheIdGenerator\<close>).
  \<^item> \<^verbatim>\<open>Lru_Entry\<close>, \<^verbatim>\<open>Lru_Cache\<close>: the object cache of \<^verbatim>\<open>lru.hh\<close> and \<^verbatim>\<open>lru.cc\<close>, on a heap of entries that are
    linked by pointers; an address is the number of an allocation, and a parent is older than its
    children. \<^verbatim>\<open>Lru_Use\<close>, \<^verbatim>\<open>Lru_Inv\<close>, \<^verbatim>\<open>Lru_Gc\<close>, \<^verbatim>\<open>Lru_Insert\<close>, \<^verbatim>\<open>Lru_Ops\<close>, \<^verbatim>\<open>Lru_Purge\<close>: the invariant \<open>cache_inv\<close>,
    which explains all pointers, counters and maps by one list of addresses, and the proofs that each
    operation ends, keeps it and does what it promises. What the cache may assume of its callbacks
    are the locales \<^verbatim>\<open>lru_client\<close> and \<^verbatim>\<open>lru_user\<close>. \<^verbatim>\<open>Lru_Props\<close>: properties of the cache alone.
  \<^item> \<^verbatim>\<open>Cache_Control\<close>: the timer of the collector (\<^verbatim>\<open>cachecontrol.cc\<close>), locale \<^verbatim>\<open>gc_client\<close>.
  \<^item> \<^verbatim>\<open>Cacheable\<close>: overrides of the cache mode (\<^verbatim>\<open>cacheable.cc\<close>, \<^verbatim>\<open>cacheable_glib.hh\<close>); the locale
    \<^verbatim>\<open>cacheable_check\<close> is the interface with its two implementations.
  \<^item> \<^verbatim>\<open>Flat_Lists\<close>: list items, flat lists, killed lists. \<^verbatim>\<open>Listtree_Manager\<close>: the manager
    (\<^verbatim>\<open>listtree_manager.cc\<close>, \<^verbatim>\<open>enterchild_template.hh\<close>); its interpretation of \<^verbatim>\<open>gc_client\<close> is where the laws
    of the callbacks are proved. \<^verbatim>\<open>Listtree_Tree\<close>: items and cached lists tell the same story
    (\<open>tree_linked\<close>). \<^verbatim>\<open>Tree_Props\<close>: the properties of manager and cache; \<^verbatim>\<open>Tree_Reach\<close>: all sequences of
    their operations. \<^verbatim>\<open>Lost_Child\<close>: what happens if an item is removed before its list.
  \<^item> \<^verbatim>\<open>List_Tiles\<close>, \<^verbatim>\<open>Tiled_List\<close>: the tiles and tiled lists of \<^verbatim>\<open>lists_base.hh\<close> and \<^verbatim>\<open>lists.hh\<close>, and
    \<^verbatim>\<open>for_each_item()\<close>. \<^verbatim>\<open>Tile_Inv\<close>, \<^verbatim>\<open>Tile_Moves\<close>, \<^verbatim>\<open>Tile_Prefetch\<close>, \<^verbatim>\<open>Tile_Steps\<close>, \<^verbatim>\<open>Tile_Access\<close>, \<^verbatim>\<open>Tile_Iter\<close>,
    \<^verbatim>\<open>Tile_Range\<close>: reader and workers as a transition system, its invariant, and what a reader gets,
    for every function that fills tiles (locale \<^verbatim>\<open>tile_filler\<close>). \<^verbatim>\<open>Upnp_Filler\<close>: the function of the UPnP
    broker (\<^verbatim>\<open>dbus_upnp_list_filler.cc\<close>), which interprets the locale. \<^verbatim>\<open>Tile_Props\<close>: the properties.
  \<^item> \<^verbatim>\<open>Filler_Threads\<close>: the life of the threads that fill tiles (\<^verbatim>\<open>ListThreads\<close> in \<^verbatim>\<open>lists_base.hh\<close>), how they
    are started, sleep, are woken up and stopped, as a transition system and its invariant;
    \<^verbatim>\<open>Filler_Threads_Props\<close>: its properties. Threads run until they rest under a schedule with as much fuel
    as they have rounds left (\<open>rounds_left\<close>), which is enough (\<open>run_workers_rest\<close>).
  \<^item> \<^verbatim>\<open>Url_String\<close>: URLs and their concealed form (\<^verbatim>\<open>urlstring.cc\<close>).
  \<^item> \<^verbatim>\<open>Async_Work\<close>, \<^verbatim>\<open>Cookie_Jar\<close>, \<^verbatim>\<open>Work_Queue\<close>: work items and their reply paths (\<^verbatim>\<open>dbus_async_work.hh\<close>), the
    cookie jar (\<^verbatim>\<open>work_by_cookie.hh\<close>, \<^verbatim>\<open>work_by_cookie.cc\<close>) and the queues (\<^verbatim>\<open>dbus_async_workqueue.cc\<close>; locale
    \<^verbatim>\<open>cancelable_work\<close>). \<^verbatim>\<open>Queue_Props\<close>: queues refine bounded FIFO queues. \<^verbatim>\<open>Async_Life\<close>, \<^verbatim>\<open>Async_Inv\<close>:
    the threads around one work item as a transition system and its invariant; \<^verbatim>\<open>Async_Props\<close>: what a
    client sees in any interleaving; \<^verbatim>\<open>Async_Hangs\<close>: when threads wait forever.
  \<^item> \<^verbatim>\<open>Nav_Handlers\<close>: the handlers of the navigation interface over the record \<open>list_tree\<close>, which is
    \<^verbatim>\<open>ListTreeIface\<close> (\<^verbatim>\<open>listtree.hh\<close>), and the work classes; \<^verbatim>\<open>Nav_Props\<close>: a property of them.
  \<^item> \<^verbatim>\<open>Child_Lists\<close>: what the two list trees share. \<^verbatim>\<open>Upnp_Servers\<close>, \<^verbatim>\<open>Upnp_Tree\<close>, \<^verbatim>\<open>Upnp_Media\<close>: servers found and
    lost, the list tree of the UPnP broker, its signals and periodic rescan (\<^verbatim>\<open>upnp_list.cc\<close>,
    \<^verbatim>\<open>upnp_listtree.cc\<close>, \<^verbatim>\<open>servers_lost_and_found.hh\<close>, \<^verbatim>\<open>dbus_upnp_handlers.cc\<close>, \<^verbatim>\<open>periodic_rescan.cc\<close>);
    \<^verbatim>\<open>Upnp_Servers_Props\<close>, \<^verbatim>\<open>Upnp_Tree_Props\<close>: their properties.
  \<^item> \<^verbatim>\<open>Usb_Lists\<close>, \<^verbatim>\<open>Usb_Tree\<close>, \<^verbatim>\<open>Usb_Location\<close>: devices, volumes and directories, the list tree of the USB
    broker, the signals of MounTA, location keys and traces (\<^verbatim>\<open>usb_list.cc\<close>, \<^verbatim>\<open>usb_listtree.cc\<close>,
    \<^verbatim>\<open>usb_helpers.cc\<close>, \<^verbatim>\<open>dbus_mounta_handlers.cc\<close>); \<^verbatim>\<open>Usb_Props\<close>, \<^verbatim>\<open>Usb_Location_Props\<close>,
    \<^verbatim>\<open>Usb_Trace_Props\<close>: their properties.
  \<^item> \<^verbatim>\<open>Readiness\<close>: probes and watchers of the ready state (\<^verbatim>\<open>ready.hh\<close>, \<^verbatim>\<open>readyprobe.hh\<close>).
  \<^item> \<^verbatim>\<open>Samples\<close>: the values for the instances of theorems.

  Properties carry a number (C and digits) in the text before them; each property with hypotheses is
  followed by an instance whose name ends in \<^verbatim>\<open>_witness\<close>.

  \<^bold>\<open>How the code is modelled\<close>

  \<^item> State is passed explicitly. The state of the cache is a record that the timer, the list tree
    manager and the list trees extend; the items of flat lists are a function of the address of the
    list.
  \<^item> \<open>None\<close> stands for a loop that does not end, a thread that waits for something no other thread
    does, and undefined behaviour; the theorems say where it does not occur. Errors and exceptions are
    values. \<^verbatim>\<open>msg_log_assert()\<close> does nothing in the program that is shipped and nothing here.
  \<^item> Each operation reads the clock once. Times are integers in nanoseconds.
  \<^item> Threads are interleaved where the code takes and releases locks. Where one thread waits, the
    others are a parameter or the steps of a relation.
  \<^item> Loops over pointers that might not end are \<^verbatim>\<open>partial_function (option)\<close>, and that they end is proved
    for consistent states. Fuel occurs in four places: the schedule of the filler threads (above), \<open>find_first\<close>, which looks at no more than the three
    tiles, so that four rounds are enough (\<open>find_first_rounds\<close>), \<open>find_child\<close> and \<open>media_sublists_loop\<close>, which visit
    each item of the three tiles once.
  \<^item> Sizes and counters are natural numbers, with the wrap-around written out where the code computes
    in 32 or 16 bits; IDs are words.
  \<^item> Parameters: the bit layout of IDs (a generated header), the IDs GLib gives to timers, addresses of
    new objects, the answers of the UPnP stack and of MounTA, the file system, network addresses,
    hashing and escaping functions, \<^verbatim>\<open>ListItemKind::is_directory()\<close> (a header of a submodule), and reading
    the texts of locations (the submodule \<^verbatim>\<open>strbo_url\<close>).

  \<^bold>\<open>Not modelled\<close>

  \<^item> \<^verbatim>\<open>main.cc\<close>, \<^verbatim>\<open>strbo_lb_usb.cc\<close>, \<^verbatim>\<open>strbo_lb_upnp.cc\<close>: command line, process setup and construction of objects,
    apart from the callbacks and constants that are named where they are used.
  \<^item> \<^verbatim>\<open>dbus_lists_iface.cc\<close>, \<^verbatim>\<open>dbus_upnp_iface.cc\<close>, \<^verbatim>\<open>dbus_usb_iface.cc\<close>, \<^verbatim>\<open>dbus_artcache_iface.cc\<close>, \<^verbatim>\<open>dbus_common.c\<close>:
    glue to GLib and to generated code.
  \<^item> \<^verbatim>\<open>dbus_debug_levels.cc\<close>, \<^verbatim>\<open>dbus_error_messages.cc\<close>, \<^verbatim>\<open>dbus_async_work.cc\<close> and the functions that dump
    states: diagnostics. Log messages are left out; reports of bugs are counted where a property is
    about them.
  \<^item> Entering a child of a media list as a whole: what it adds to the cache, and how links in tiles are
    found and forgotten is modelled, but \<open>purge_subtree\<close> follows the links of flat lists.
  \<^item> Cover art that is sent to another daemon. Memory is never exhausted.
\<close>

end
